(* ===== verification/KPrelude.thy ===== *)
theory KPrelude
  imports Main "HOL-Library.Word"
begin

text \<open>
  Prelude of the development: machine integers, error numbers, the trace of kernel
  calls a handler makes, the call discipline such a trace has to keep, the interfaces
  (locales) the modules are proved against, and the part of the C library the modules
  use (formatting into a bounded buffer, string prefixes, decimal numbers).
\<close>

section \<open>Machine types and results\<close>

text \<open>
  \<open>int\<close> and \<open>unsigned int\<close> are 32 bits wide, \<open>u64\<close>, \<open>unsigned long\<close> and
  \<open>size_t\<close> 64 bits (the modules are built for 64-bit kernels). A signed value is the
  same word read by \<open>sint\<close>. Lengths that never reach the width (buffer sizes) are \<open>nat\<close>.
\<close>

type_synonym u8 = "8 word"
type_synonym u32 = "32 word"
type_synonym s32 = "32 word"
type_synonym u64 = "64 word"

abbreviation TASK_COMM_LEN :: nat where "TASK_COMM_LEN \<equiv> 16"
abbreviation INT_MAX :: int where "INT_MAX \<equiv> 2147483647"

text \<open>
  The negative error numbers the modules return. \<open>Passed\<close> is an error number that a
  kernel function returned and the module hands on unchanged.
\<close>

datatype errno =
    E2BIG | EAGAIN | EBUSY | EEXIST | EFAULT | EINVAL | ENODEV | ENOENT
  | ENOMEM | ENOSPC | ENOTTY | ERANGE | ERESTARTSYS | Passed int

text \<open>The number an \<open>int\<close> variable of the code has for it.\<close>

fun errno_int :: "errno \<Rightarrow> int" where
  "errno_int ENOENT = -2"
| "errno_int E2BIG = -7"
| "errno_int EAGAIN = -11"
| "errno_int ENOMEM = -12"
| "errno_int EFAULT = -14"
| "errno_int EBUSY = -16"
| "errno_int EEXIST = -17"
| "errno_int ENODEV = -19"
| "errno_int EINVAL = -22"
| "errno_int ENOTTY = -25"
| "errno_int ENOSPC = -28"
| "errno_int ERANGE = -34"
| "errno_int ERESTARTSYS = -512"
| "errno_int (Passed n) = n"

section \<open>Traces of kernel calls\<close>

text \<open>
  What a handler asks of the kernel beyond computing its result is recorded, not
  interpreted: each handler returns the list of the state-changing calls it makes, in
  the order it makes them. \<open>'o\<close> is the module's own type of kernel objects (its locks,
  registrations, allocations, timers and tasks).
\<close>

datatype 'o kcall =
    Lock 'o          \<comment> \<open>\<open>mutex_lock\<close>, \<open>spin_lock\<close>: interrupts stay as they are\<close>
  | Unlock 'o        \<comment> \<open>\<open>mutex_unlock\<close>, \<open>spin_unlock\<close>\<close>
  | Lock_bh 'o       \<comment> \<open>\<open>spin_lock_bh\<close>: softirqs are off on this processor\<close>
  | Unlock_bh 'o     \<comment> \<open>\<open>spin_unlock_bh\<close>\<close>
  | Lock_irq 'o      \<comment> \<open>\<open>spin_lock_irqsave\<close>: interrupts, and with them softirqs, are off\<close>
  | Unlock_irq 'o    \<comment> \<open>\<open>spin_unlock_irqrestore\<close>\<close>
  | Acquire 'o       \<comment> \<open>a successful allocation, registration or creation\<close>
  | Release 'o       \<comment> \<open>its free, deregistration or removal\<close>
  | Arm 'o nat       \<comment> \<open>\<open>mod_timer\<close>, \<open>schedule_delayed_work\<close>, \<open>mod_delayed_work\<close> (jiffies)\<close>
  | Cancel 'o        \<comment> \<open>\<open>timer_shutdown_sync\<close>, \<open>cancel_delayed_work_sync\<close>\<close>
  | Wake 'o          \<comment> \<open>\<open>wake_up_interruptible\<close> and its \<open>_all\<close> form\<close>

text \<open>
  The discipline of a trace, as a run over the sets of objects that are locked, held and
  armed: no lock is taken twice or dropped when free, nothing is acquired twice or
  released when not held. \<open>None\<close> is a violation.
\<close>

record 'o kworld =
  locked :: "'o set"
  held :: "'o set"
  armed :: "'o set"

definition quiet :: "'o kworld" where
  "quiet = \<lparr>locked = {}, held = {}, armed = {}\<rparr>"

lemma quiet_iff: "w = quiet \<longleftrightarrow> locked w = {} \<and> held w = {} \<and> armed w = {}"
  by (cases w) (simp add: quiet_def)

lemma quiet_simps [simp]: "locked quiet = {}" "held quiet = {}" "armed quiet = {}"
  by (simp_all add: quiet_def)

fun kexec :: "'o kworld \<Rightarrow> 'o kcall \<Rightarrow> 'o kworld option" where
  "kexec w (Lock x) = (if x \<in> locked w then None else Some (w\<lparr>locked := insert x (locked w)\<rparr>))"
| "kexec w (Unlock x) = (if x \<in> locked w then Some (w\<lparr>locked := locked w - {x}\<rparr>) else None)"
| "kexec w (Lock_bh x) = (if x \<in> locked w then None else Some (w\<lparr>locked := insert x (locked w)\<rparr>))"
| "kexec w (Unlock_bh x) = (if x \<in> locked w then Some (w\<lparr>locked := locked w - {x}\<rparr>) else None)"
| "kexec w (Lock_irq x) = (if x \<in> locked w then None else Some (w\<lparr>locked := insert x (locked w)\<rparr>))"
| "kexec w (Unlock_irq x) = (if x \<in> locked w then Some (w\<lparr>locked := locked w - {x}\<rparr>) else None)"
| "kexec w (Acquire x) = (if x \<in> held w then None else Some (w\<lparr>held := insert x (held w)\<rparr>))"
| "kexec w (Release x) = (if x \<in> held w then Some (w\<lparr>held := held w - {x}\<rparr>) else None)"
| "kexec w (Arm x d) = Some (w\<lparr>armed := insert x (armed w)\<rparr>)"
| "kexec w (Cancel x) = Some (w\<lparr>armed := armed w - {x}\<rparr>)"
| "kexec w (Wake x) = Some w"

fun kruns :: "'o kworld \<Rightarrow> 'o kcall list \<Rightarrow> 'o kworld option" where
  "kruns w [] = Some w"
| "kruns w (c # cs) = (case kexec w c of None \<Rightarrow> None | Some w' \<Rightarrow> kruns w' cs)"

lemma kruns_append:
  "kruns w (cs @ ds) = (case kruns w cs of None \<Rightarrow> None | Some w' \<Rightarrow> kruns w' ds)"
  by (induction cs arbitrary: w) (auto split: option.splits)

lemma kruns_append_Some [simp]:
  "kruns w cs = Some w' \<Longrightarrow> kruns w (cs @ ds) = kruns w' ds"
  by (simp add: kruns_append)

text \<open>
  The locks alone: a trace is lock balanced if, started with no lock held, it never takes
  a lock it holds or drops one it does not hold, and ends with none held. Every path
  through a handler, early returns included, has to make such a trace.
\<close>

fun lock_run :: "'o set \<Rightarrow> 'o kcall list \<Rightarrow> 'o set option" where
  "lock_run L [] = Some L"
| "lock_run L (Lock x # cs) = (if x \<in> L then None else lock_run (insert x L) cs)"
| "lock_run L (Unlock x # cs) = (if x \<in> L then lock_run (L - {x}) cs else None)"
| "lock_run L (Lock_bh x # cs) = (if x \<in> L then None else lock_run (insert x L) cs)"
| "lock_run L (Unlock_bh x # cs) = (if x \<in> L then lock_run (L - {x}) cs else None)"
| "lock_run L (Lock_irq x # cs) = (if x \<in> L then None else lock_run (insert x L) cs)"
| "lock_run L (Unlock_irq x # cs) = (if x \<in> L then lock_run (L - {x}) cs else None)"
| "lock_run L (Acquire x # cs) = lock_run L cs"
| "lock_run L (Release x # cs) = lock_run L cs"
| "lock_run L (Arm x d # cs) = lock_run L cs"
| "lock_run L (Cancel x # cs) = lock_run L cs"
| "lock_run L (Wake x # cs) = lock_run L cs"

definition lock_balanced :: "'o kcall list \<Rightarrow> bool" where
  "lock_balanced cs \<longleftrightarrow> lock_run {} cs = Some {}"

lemma lock_run_append:
  "lock_run L (cs @ ds) = (case lock_run L cs of None \<Rightarrow> None | Some L' \<Rightarrow> lock_run L' ds)"
  by (induction L cs rule: lock_run.induct) auto

lemma lock_balanced_Nil [simp]: "lock_balanced []"
  by (simp add: lock_balanced_def)

lemma lock_balanced_append [intro]:
  "lock_balanced cs \<Longrightarrow> lock_balanced ds \<Longrightarrow> lock_balanced (cs @ ds)"
  by (simp add: lock_balanced_def lock_run_append)

text \<open>The discipline of \<^const>\<open>kruns\<close> includes that of the locks.\<close>

lemma kruns_lock_run: "kruns w cs = Some w' \<Longrightarrow> lock_run (locked w) cs = Some (locked w')"
proof (induction cs arbitrary: w)
  case Nil
  then show ?case by simp
next
  case (Cons c cs)
  then show ?case by (cases c) (fastforce split: if_splits option.splits)+
qed

section \<open>Interfaces\<close>

text \<open>
  A machine whose operations keep an invariant. \<open>ok\<close> restricts the operations (it is
  \<open>\<lambda>_. True\<close> for a module that keeps its invariant under every input).
\<close>

locale invariant_machine =
  fixes step :: "'s \<Rightarrow> 'p \<Rightarrow> 's"
    and inv :: "'s \<Rightarrow> bool"
    and ok :: "'p \<Rightarrow> bool"
  assumes step_inv: "inv s \<Longrightarrow> ok p \<Longrightarrow> inv (step s p)"
begin

lemma run_inv: "inv s \<Longrightarrow> \<forall>p \<in> set ps. ok p \<Longrightarrow> inv (foldl step s ps)"
  by (induction ps arbitrary: s) (auto intro: step_inv)

end

text \<open>
  A machine with a potential: an operation earns at most what its gain allows, so a run
  earns at most the sum of the gains plus what the first state has in store.
\<close>

locale potential_machine = invariant_machine step inv ok
  for step :: "'s \<Rightarrow> 'p \<Rightarrow> 's" and inv :: "'s \<Rightarrow> bool" and ok :: "'p \<Rightarrow> bool" +
  fixes level :: "'s \<Rightarrow> nat"
    and earn :: "'s \<Rightarrow> 'p \<Rightarrow> nat"
    and gain :: "'p \<Rightarrow> nat"
  assumes step_level: "inv s \<Longrightarrow> ok p \<Longrightarrow> earn s p + level (step s p) \<le> level s + gain p"
begin

fun earned :: "'s \<Rightarrow> 'p list \<Rightarrow> nat" where
  "earned s [] = 0"
| "earned s (p # ps) = earn s p + earned (step s p) ps"

lemma earned_bound:
  "inv s \<Longrightarrow> \<forall>p \<in> set ps. ok p \<Longrightarrow>
   earned s ps + level (foldl step s ps) \<le> level s + sum_list (map gain ps)"
proof (induction ps arbitrary: s)
  case Nil
  then show ?case by simp
next
  case (Cons p ps)
  from Cons.prems have i: "inv (step s p)" by (auto intro: step_inv)
  from Cons.IH[OF i] Cons.prems(2)
  have "earned (step s p) ps + level (foldl step (step s p) ps)
      \<le> level (step s p) + sum_list (map gain ps)" by simp
  moreover have "earn s p + level (step s p) \<le> level s + gain p"
    using Cons.prems by (intro step_level) auto
  ultimately show ?case by simp
qed

end

text \<open>
  The life of a module: \<open>load\<close> is its init function under the outcomes \<open>e\<close> of the
  kernel calls it makes (the module state, the trace and \<open>None\<close> for success), \<open>serve\<close> its
  handlers (the state and the trace of one operation), \<open>unload\<close> the trace of its exit
  function. A failed load leaves nothing behind; whatever the handlers did, an unload that
  no handler interrupts leaves nothing behind either.
\<close>

fun serve_all :: "('s \<Rightarrow> 'p \<Rightarrow> 's \<times> 'o kcall list) \<Rightarrow> 's \<Rightarrow> 'p list \<Rightarrow> 's \<times> 'o kcall list" where
  "serve_all sv s [] = (s, [])"
| "serve_all sv s (p # ps) =
     (let (s1, t1) = sv s p; (s2, t2) = serve_all sv s1 ps in (s2, t1 @ t2))"

definition clean_session ::
    "('e \<Rightarrow> 's \<times> 'o kcall list \<times> errno option) \<Rightarrow> ('s \<Rightarrow> 'p \<Rightarrow> 's \<times> 'o kcall list) \<Rightarrow>
     ('s \<Rightarrow> 'o kcall list) \<Rightarrow> 'e \<Rightarrow> 'p list \<Rightarrow> bool" where
  "clean_session load serve unload e ps \<longleftrightarrow>
     (case load e of
        (s, t, Some x) \<Rightarrow> kruns quiet t = Some quiet
      | (s, t, None) \<Rightarrow>
          (let (s', t') = serve_all serve s ps in kruns quiet (t @ t' @ unload s') = Some quiet))"

locale module_session =
  fixes load :: "'e \<Rightarrow> 's \<times> 'o kcall list \<times> errno option"
    and serve :: "'s \<Rightarrow> 'p \<Rightarrow> 's \<times> 'o kcall list"
    and unload :: "'s \<Rightarrow> 'o kcall list"
    and live :: "'s \<Rightarrow> 'o kworld \<Rightarrow> bool"
  assumes load_fail: "load e = (s, t, Some x) \<Longrightarrow> kruns quiet t = Some quiet"
    and load_ok: "load e = (s, t, None) \<Longrightarrow> \<exists>w. kruns quiet t = Some w \<and> live s w"
    and serve_live: "live s w \<Longrightarrow> serve s p = (s', t) \<Longrightarrow> \<exists>w'. kruns w t = Some w' \<and> live s' w'"
    and unload_live: "live s w \<Longrightarrow> kruns w (unload s) = Some quiet"
begin

lemma serve_all_live:
  "live s w \<Longrightarrow> serve_all serve s ps = (s', t) \<Longrightarrow> \<exists>w'. kruns w t = Some w' \<and> live s' w'"
proof (induction ps arbitrary: s w s' t)
  case Nil
  then show ?case by simp
next
  case (Cons p ps)
  obtain s1 t1 where 1: "serve s p = (s1, t1)" by fastforce
  obtain s2 t2 where 2: "serve_all serve s1 ps = (s2, t2)" by fastforce
  from serve_live[OF Cons.prems(1) 1] obtain w1 where w1: "kruns w t1 = Some w1" "live s1 w1"
    by blast
  from Cons.IH[OF w1(2) 2] obtain w2 where "kruns w1 t2 = Some w2" "live s2 w2" by blast
  with Cons.prems(2) 1 2 w1 show ?case by auto
qed

lemma session_quiet:
  assumes "load e = (s, t, None)" and "serve_all serve s ps = (s', t')"
  shows "kruns quiet (t @ t' @ unload s') = Some quiet"
proof -
  obtain w where w: "kruns quiet t = Some w" "live s w" using load_ok[OF assms(1)] by blast
  obtain w' where w': "kruns w t' = Some w'" "live s' w'"
    using serve_all_live[OF w(2) assms(2)] by blast
  show ?thesis using w w' by (simp add: unload_live)
qed

lemma session_clean: "clean_session load serve unload e ps"
  using load_fail session_quiet by (auto simp: clean_session_def split: prod.split option.split)

end

section \<open>C library\<close>

subsection \<open>Strings\<close>

text \<open>
  A string in memory ends at its first NUL byte; a HOL \<open>string\<close> is the bytes before it.
\<close>

abbreviation NUL :: char where "NUL \<equiv> CHR 0x00"
abbreviation newline :: char where "newline \<equiv> CHR 0x0A"

definition cstr :: "string \<Rightarrow> string" where
  "cstr bs = takeWhile (\<lambda>c. c \<noteq> NUL) bs"

definition strncmp_eq :: "string \<Rightarrow> string \<Rightarrow> nat \<Rightarrow> bool" where
  \<comment> \<open>\<open>!strncmp(a, b, n)\<close> for strings without NUL\<close>
  "strncmp_eq a b n \<longleftrightarrow> take n a = take n b"

definition scnprintf :: "nat \<Rightarrow> string \<Rightarrow> string" where
  \<comment> \<open>the text that formatting \<open>s\<close> into a buffer of \<open>n\<close> bytes leaves before the NUL; the
      returned count is its length\<close>
  "scnprintf n s = take (n - 1) s"

abbreviation PAGE_SIZE :: nat where "PAGE_SIZE \<equiv> 4096"

definition sysfs_emit :: "string \<Rightarrow> string" where
  "sysfs_emit s = scnprintf PAGE_SIZE s"

definition strscpy :: "string \<Rightarrow> nat \<Rightarrow> string" where
  \<comment> \<open>the string a destination of \<open>n\<close> bytes holds after a bounded copy of \<open>s\<close>\<close>
  "strscpy s n = take (n - 1) s"

lemma length_scnprintf: "length (scnprintf n s) \<le> n - 1"
  by (simp add: scnprintf_def)

lemma scnprintf_id: "length s < n \<Longrightarrow> scnprintf n s = s"
  by (simp add: scnprintf_def)

lemma strscpy_id: "length s < n \<Longrightarrow> strscpy s n = s"
  by (simp add: strscpy_def)

lemma cstr_id: "NUL \<notin> set s \<Longrightarrow> cstr s = s"
  by (auto simp: cstr_def takeWhile_eq_all_conv)

lemma NUL_notin_cstr [simp]: "NUL \<notin> set (cstr s)"
  by (auto simp: cstr_def dest: set_takeWhileD)

subsection \<open>Decimal numbers\<close>

definition digit :: "nat \<Rightarrow> char" where
  "digit d = char_of (48 + d)"

fun dec :: "nat \<Rightarrow> string" where
  "dec n = (if n < 10 then [digit n] else dec (n div 10) @ [digit (n mod 10)])"

declare dec.simps [simp del]

definition fmt_u :: "'a::len word \<Rightarrow> string" where
  \<comment> \<open>\<open>%u\<close>, \<open>%lu\<close>, \<open>%zu\<close>, \<open>%llu\<close>\<close>
  "fmt_u w = dec (unat w)"

definition fmt_d :: "int \<Rightarrow> string" where
  \<comment> \<open>\<open>%d\<close>, \<open>%lld\<close>\<close>
  "fmt_d i = (if i < 0 then CHR ''-'' # dec (nat (- i)) else dec (nat i))"

definition fmt_b :: "bool \<Rightarrow> string" where
  \<comment> \<open>a \<open>bool\<close> printed by \<open>%d\<close>\<close>
  "fmt_b b = (if b then ''1'' else ''0'')"

definition undigit :: "char \<Rightarrow> nat" where
  "undigit c = of_char c - 48"

definition undec :: "string \<Rightarrow> nat" where
  "undec s = foldl (\<lambda>n c. 10 * n + undigit c) 0 s"

lemma undigit_digit: "d < 10 \<Longrightarrow> undigit (digit d) = d"
  by (simp add: undigit_def digit_def of_char_of)

lemma undec_dec: "undec (dec n) = n"
proof (induction n rule: dec.induct)
  case (1 n)
  show ?case
  proof (cases "n < 10")
    case True
    then show ?thesis by (subst dec.simps) (simp add: undec_def undigit_digit)
  next
    case False
    with "1.IH" have "undec (dec (n div 10)) = n div 10" by simp
    with False show ?thesis
      by (subst dec.simps) (simp add: undec_def undigit_digit)
  qed
qed

lemma dec_inject [simp]: "dec m = dec n \<longleftrightarrow> m = n"
  by (metis undec_dec)

lemma dec_nonempty [simp]: "dec n \<noteq> []"
  by (subst dec.simps) simp

lemma length_dec: "n < 10 ^ k \<Longrightarrow> 0 < k \<Longrightarrow> length (dec n) \<le> k"
proof (induction k arbitrary: n)
  case 0
  then show ?case by simp
next
  case (Suc k)
  show ?case
  proof (cases "n < 10")
    case True
    then show ?thesis by (subst dec.simps) simp
  next
    case False
    with Suc.prems have "0 < k" by (cases k) auto
    moreover from Suc.prems have "n div 10 < 10 ^ k" by (simp add: div_less_iff_less_mult mult.commute)
    ultimately have "length (dec (n div 10)) \<le> k" by (intro Suc.IH)
    with False show ?thesis by (subst dec.simps) simp
  qed
qed

lemma set_dec: "c \<in> set (dec n) \<Longrightarrow> \<exists>d<10. c = digit d"
proof (induction n rule: dec.induct)
  case (1 n)
  show ?case
  proof (cases "n < 10")
    case True
    with "1.prems" show ?thesis by (subst (asm) dec.simps) auto
  next
    case False
    with "1.prems" have "c \<in> set (dec (n div 10)) \<or> c = digit (n mod 10)"
      by (subst (asm) dec.simps) auto
    then show ?thesis
    proof
      assume "c \<in> set (dec (n div 10))"
      with "1.IH" False show ?thesis by blast
    next
      assume "c = digit (n mod 10)"
      then show ?thesis by (intro exI[of _ "n mod 10"]) simp
    qed
  qed
qed

lemma length_fmt_u64: "length (fmt_u (w :: u64)) \<le> 20"
proof -
  have "unat w < 2 ^ 64" using unsigned_less[of w] by simp
  then have "unat w < 10 ^ 20" by (rule order_less_trans) simp
  then show ?thesis by (simp add: fmt_u_def length_dec)
qed

lemma fmt_u_inject [simp]: "fmt_u v = fmt_u w \<longleftrightarrow> v = w"
  by (simp add: fmt_u_def unsigned_word_eqI word_unat_eq_iff)

text \<open>The values of a C \<open>int\<close>, and how long numbers are in decimal.\<close>

definition int32 :: "int \<Rightarrow> bool" where
  "int32 i \<longleftrightarrow> - (2 ^ 31) \<le> i \<and> i < 2 ^ 31"

lemma length_fmt_d: "int32 i \<Longrightarrow> length (fmt_d i) \<le> 11"
proof -
  assume i: "int32 i"
  then have "nat i < 10 ^ 10" "nat (- i) < 10 ^ 10" by (auto simp: int32_def)
  then have "length (dec (nat i)) \<le> 10" "length (dec (nat (- i))) \<le> 10"
    by (auto intro: length_dec)
  then show ?thesis by (simp add: fmt_d_def)
qed

lemma length_fmt_u32: "length (fmt_u (w :: u32)) \<le> 10"
proof -
  have "unat w < 2 ^ 32" using unsigned_less[of w] by simp
  then have "unat w < 10 ^ 10" by (rule order_less_trans) simp
  then show ?thesis by (simp add: fmt_u_def length_dec)
qed

lemma length_fmt_b [simp]: "length (fmt_b b) = 1"
  by (simp add: fmt_b_def)

lemma length_strscpy: "length (strscpy t n) \<le> n - 1"
  by (simp add: strscpy_def)

lemma int32_sint [simp]: "int32 (sint (x :: s32))"
  using sint_range_size[of x] by (simp add: int32_def word_size)

named_theorems print_eval \<open>evaluation of printed numbers\<close>

lemma digit_eval [print_eval]:
  "digit 0 = CHR ''0''" "digit 1 = CHR ''1''" "digit (Suc 0) = CHR ''1''" "digit 2 = CHR ''2''"
  "digit 3 = CHR ''3''" "digit 4 = CHR ''4''" "digit 5 = CHR ''5''" "digit 6 = CHR ''6''"
  "digit 7 = CHR ''7''" "digit 8 = CHR ''8''" "digit 9 = CHR ''9''"
  by (simp_all add: digit_def char_of_def bit_iff_odd)

lemmas [print_eval] = fmt_u_def fmt_d_def fmt_b_def dec.simps

lemma take_take_append: "take M (take M xs @ ys) = take M (xs @ ys)"
  by (cases "length xs" M rule: linorder_le_cases) simp_all


text \<open>A sum over a list of which one element changes.\<close>

lemma sum_list_update_split:
  fixes f :: "'a \<Rightarrow> 'b::comm_monoid_add"
  assumes "i < length xs"
  obtains A where "sum_list (map f xs) = A + f (xs ! i)" "\<And>v. sum_list (map f (xs[i := v])) = A + f v"
proof (rule that)
  let ?A = "sum_list (map f (take i xs)) + sum_list (map f (drop (Suc i) xs))"
  have "sum_list (map f xs) = sum_list (map f (take i xs @ xs ! i # drop (Suc i) xs))"
    using assms by (simp only: id_take_nth_drop[symmetric])
  then show "sum_list (map f xs) = ?A + f (xs ! i)" by (simp add: ac_simps)
  show "sum_list (map f (xs[i := v])) = ?A + f v" for v
    using assms by (simp add: upd_conv_take_nth_drop ac_simps)
qed

end
