(* ===== verification/KernelAPI.thy ===== *)
theory KernelAPI
  imports KPrelude
begin

text \<open>
  The kernel functions the modules call but this repository does not hold, as
  parameters: a record of the text-parsing helpers, and functions for the copies across
  the user/kernel boundary and for the shared read helpers. Beside each parameter stands
  a predicate with the behaviour its kernel documentation promises; a theorem that needs
  that behaviour names the predicate as a hypothesis. The \<open>ref_\<close> constants are concrete
  instances on which the witnesses evaluate; they show the predicates can hold.
\<close>

section \<open>Parsing helpers\<close>

record kstr =
  sysfs_streq :: "string \<Rightarrow> string \<Rightarrow> bool"
  strim :: "string \<Rightarrow> string"
  kstrtobool :: "string \<Rightarrow> errno + bool"
  kstrtoint :: "string \<Rightarrow> nat \<Rightarrow> errno + s32"
  kstrtouint :: "string \<Rightarrow> nat \<Rightarrow> errno + u32"
  kstrtoul :: "string \<Rightarrow> nat \<Rightarrow> errno + u64"

definition isspace :: "char \<Rightarrow> bool" where
  \<comment> \<open>blank, tab, newline, vertical tab, form feed, carriage return\<close>
  "isspace c \<longleftrightarrow> of_char c \<in> {32, 9, 10, 11, 12, 13 :: nat}"

definition kstrip :: "string \<Rightarrow> string" where
  "kstrip s = rev (dropWhile isspace (rev (dropWhile isspace s)))"

definition ascii :: "string \<Rightarrow> bool" where
  "ascii s \<longleftrightarrow> (\<forall>c \<in> set s. of_char c < (128 :: nat))"

text \<open>
  \<open>sysfs_streq\<close>: equal, treating an end of string and a newline before it alike.
  \<open>strim\<close>: leading and trailing white space removed. \<open>kstrtobool\<close>: decided by the
  first character, by the second after an \<open>o\<close>. The number parsers, base 0: a decimal
  numeral in range, with an optional newline, is its value; otherwise the error is
  \<open>-EINVAL\<close> or \<open>-ERANGE\<close>.
\<close>

definition streq_documented :: "kstr \<Rightarrow> bool" where
  "streq_documented K \<longleftrightarrow>
     (\<forall>a b. sysfs_streq K a b \<longleftrightarrow> a = b \<or> a = b @ [newline] \<or> b = a @ [newline])"

definition strim_documented :: "kstr \<Rightarrow> bool" where
  "strim_documented K \<longleftrightarrow> (\<forall>s. ascii s \<longrightarrow> strim K s = kstrip s)"

definition bool_word :: "string \<Rightarrow> bool option" where
  "bool_word s =
     (case s of
        [] \<Rightarrow> None
      | c # t \<Rightarrow>
          if c \<in> set ''yYtT1'' then Some True
          else if c \<in> set ''nNfF0'' then Some False
          else if c \<in> set ''oO'' then
            (case t of
               [] \<Rightarrow> None
             | d # _ \<Rightarrow> if d \<in> set ''nN'' then Some True
                        else if d \<in> set ''fF'' then Some False else None)
          else None)"

definition kstrtobool_documented :: "kstr \<Rightarrow> bool" where
  "kstrtobool_documented K \<longleftrightarrow>
     (\<forall>s. kstrtobool K s = (case bool_word s of None \<Rightarrow> Inl EINVAL | Some b \<Rightarrow> Inr b))"

definition number_documented :: "(string \<Rightarrow> nat \<Rightarrow> errno + 'a::len word) \<Rightarrow> nat \<Rightarrow> bool" where
  "number_documented parse lim \<longleftrightarrow>
     (\<forall>n < lim. parse (dec n) 0 = Inr (of_nat n) \<and> parse (dec n @ [newline]) 0 = Inr (of_nat n))
     \<and> (\<forall>s e. parse s 0 = Inl e \<longrightarrow> e = EINVAL \<or> e = ERANGE)"

definition kstr_documented :: "kstr \<Rightarrow> bool" where
  "kstr_documented K \<longleftrightarrow>
     streq_documented K \<and> strim_documented K \<and> kstrtobool_documented K \<and>
     number_documented (kstrtoint K) (2 ^ 31) \<and>
     number_documented (kstrtouint K) (2 ^ 32) \<and>
     number_documented (kstrtoul K) (2 ^ 64)"

lemma streqD:
  "kstr_documented K \<Longrightarrow>
   sysfs_streq K a b \<longleftrightarrow> a = b \<or> a = b @ [newline] \<or> b = a @ [newline]"
  by (simp add: kstr_documented_def streq_documented_def)

lemma strimD: "kstr_documented K \<Longrightarrow> ascii s \<Longrightarrow> strim K s = kstrip s"
  by (simp add: kstr_documented_def strim_documented_def)

lemma kstrtoboolD:
  "kstr_documented K \<Longrightarrow>
   kstrtobool K s = (case bool_word s of None \<Rightarrow> Inl EINVAL | Some b \<Rightarrow> Inr b)"
  by (simp add: kstr_documented_def kstrtobool_documented_def)

lemma kstrtointD:
  "kstr_documented K \<Longrightarrow> n < 2 ^ 31 \<Longrightarrow> kstrtoint K (dec n) 0 = Inr (of_nat n)"
  "kstr_documented K \<Longrightarrow> n < 2 ^ 31 \<Longrightarrow> kstrtoint K (dec n @ [newline]) 0 = Inr (of_nat n)"
  by (auto simp: kstr_documented_def number_documented_def)

lemma kstrtouintD:
  "kstr_documented K \<Longrightarrow> n < 2 ^ 32 \<Longrightarrow> kstrtouint K (dec n) 0 = Inr (of_nat n)"
  "kstr_documented K \<Longrightarrow> n < 2 ^ 32 \<Longrightarrow> kstrtouint K (dec n @ [newline]) 0 = Inr (of_nat n)"
  by (auto simp: kstr_documented_def number_documented_def)

lemma kstrtoulD:
  "kstr_documented K \<Longrightarrow> n < 2 ^ 64 \<Longrightarrow> kstrtoul K (dec n) 0 = Inr (of_nat n)"
  by (auto simp: kstr_documented_def number_documented_def)

text \<open>Stripping where there is nothing, or only a final newline, to strip.\<close>

definition tight :: "string \<Rightarrow> bool" where
  "tight s \<longleftrightarrow> s \<noteq> [] \<and> \<not> isspace (hd s) \<and> \<not> isspace (last s)"

lemma dropWhile_head: "xs \<noteq> [] \<Longrightarrow> \<not> P (hd xs) \<Longrightarrow> dropWhile P xs = xs"
  by (cases xs) auto

lemma kstrip_tight: "tight s \<Longrightarrow> kstrip s = s"
  by (simp add: tight_def kstrip_def dropWhile_head hd_rev)

lemma kstrip_newline: "tight s \<Longrightarrow> kstrip (s @ [newline]) = s"
proof -
  assume t: "tight s"
  then have "kstrip (s @ [newline]) = kstrip s"
    by (cases s) (auto simp: tight_def kstrip_def isspace_def)
  with t show ?thesis by (simp add: kstrip_tight)
qed

lemma not_isspace_digit: "d < 10 \<Longrightarrow> \<not> isspace (digit d)"
  by (simp add: isspace_def digit_def of_char_of)

lemma isspace_newline [simp]: "isspace newline"
  by (simp add: isspace_def)

lemma last_dec: "\<not> isspace (last (dec n))"
  using set_dec[of "last (dec n)" n] not_isspace_digit by force

lemma hd_dec: "\<not> isspace (hd (dec n))"
  using set_dec[of "hd (dec n)" n] not_isspace_digit by force

lemma tight_dec [simp]: "tight (dec n)"
  by (simp add: tight_def last_dec hd_dec)

lemma tight_append:
  "s \<noteq> [] \<Longrightarrow> \<not> isspace (hd s) \<Longrightarrow> tight t \<Longrightarrow> tight (s @ t)"
  by (simp add: tight_def)

lemma ascii_dec [simp]: "ascii (dec n)"
  unfolding ascii_def
proof
  fix c assume "c \<in> set (dec n)"
  then obtain d where "d < 10" "c = digit d" using set_dec by blast
  then show "of_char c < (128 :: nat)" by (simp add: digit_def of_char_of)
qed

lemma ascii_append [simp]: "ascii (s @ t) \<longleftrightarrow> ascii s \<and> ascii t"
  by (auto simp: ascii_def)

lemma NUL_notin_dec [simp]: "NUL \<notin> set (dec n)"
proof
  assume "NUL \<in> set (dec n)"
  then obtain d where "d < 10" "NUL = digit d" using set_dec by blast
  moreover have "of_char NUL = (0 :: nat)" by simp
  ultimately show False by (simp add: digit_def of_char_of)
qed

text \<open>The concrete instance the witnesses use.\<close>

definition ref_number :: "nat \<Rightarrow> string \<Rightarrow> errno + 'a::len word" where
  "ref_number lim s =
     (let t = (if s \<noteq> [] \<and> last s = newline then butlast s else s)
      in if t = [] \<or> (\<exists>c \<in> set t. of_char c < (48 :: nat) \<or> 57 < (of_char c :: nat)) then Inl EINVAL
         else if undec t < lim then Inr (of_nat (undec t)) else Inl ERANGE)"

definition ref_kstr :: kstr where
  "ref_kstr = \<lparr>
     sysfs_streq = (\<lambda>a b. a = b \<or> a = b @ [newline] \<or> b = a @ [newline]),
     strim = kstrip,
     kstrtobool = (\<lambda>s. case bool_word s of None \<Rightarrow> Inl EINVAL | Some b \<Rightarrow> Inr b),
     kstrtoint = (\<lambda>s _. ref_number (2 ^ 31) s),
     kstrtouint = (\<lambda>s _. ref_number (2 ^ 32) s),
     kstrtoul = (\<lambda>s _. ref_number (2 ^ 64) s)\<rparr>"

lemma ref_number_dec:
  "n < lim \<Longrightarrow> ref_number lim (dec n) = Inr (of_nat n)"
  "n < lim \<Longrightarrow> ref_number lim (dec n @ [newline]) = Inr (of_nat n)"
proof -
  have d: "\<forall>c \<in> set (dec n). \<not> of_char c < (48 :: nat) \<and> \<not> 57 < (of_char c :: nat)"
  proof
    fix c assume "c \<in> set (dec n)"
    then obtain d where "d < 10" "c = digit d" using set_dec by blast
    then show "\<not> of_char c < (48 :: nat) \<and> \<not> 57 < (of_char c :: nat)"
      by (simp add: digit_def of_char_of)
  qed
  have "last (dec n) \<noteq> newline"
    using last_dec[of n] by auto
  with d show "n < lim \<Longrightarrow> ref_number lim (dec n) = Inr (of_nat n)"
    by (auto simp: ref_number_def Let_def undec_dec)
  from d show "n < lim \<Longrightarrow> ref_number lim (dec n @ [newline]) = Inr (of_nat n)"
    by (auto simp: ref_number_def Let_def undec_dec)
qed

lemma ref_kstr_documented: "kstr_documented ref_kstr"
  by (auto simp: kstr_documented_def streq_documented_def strim_documented_def
      kstrtobool_documented_def number_documented_def ref_kstr_def ref_number_dec)
    (auto simp: ref_number_def Let_def split: if_splits)

section \<open>Copies across the user/kernel boundary\<close>

text \<open>
  \<open>copy_from_user\<close> as a function from the source bytes to the bytes that landed and the
  number it could not copy; the destination is written over its whole length, and when
  nothing is left it holds the source. \<open>copy_to_user\<close> is the number it could not copy.
\<close>

definition cfu_documented :: "('b list \<Rightarrow> 'b list \<times> nat) \<Rightarrow> bool" where
  "cfu_documented cfu \<longleftrightarrow>
     (\<forall>src. length (fst (cfu src)) = length src \<and> (snd (cfu src) = 0 \<longrightarrow> fst (cfu src) = src))"

definition ref_cfu :: "'b list \<Rightarrow> 'b list \<times> nat" where
  "ref_cfu src = (src, 0)"

lemma ref_cfu_documented: "cfu_documented ref_cfu"
  by (simp add: cfu_documented_def ref_cfu_def)

section \<open>Reading from a kernel buffer\<close>

text \<open>
  \<open>simple_read_from_buffer(to, count, ppos, from, available)\<close>: up to \<open>count\<close> bytes of
  the buffer from the offset, the offset advanced by the number read; a negative offset
  is \<open>-EINVAL\<close>, a failed copy \<open>-EFAULT\<close>.
\<close>

type_synonym srfb = "nat \<Rightarrow> int \<Rightarrow> string \<Rightarrow> errno + (string \<times> int)"

definition srfb_documented :: "srfb \<Rightarrow> bool" where
  "srfb_documented srfb \<longleftrightarrow>
     (\<forall>count pos from. 0 \<le> pos \<longrightarrow>
        (let out = take count (drop (nat pos) from) in
         srfb count pos from = Inr (out, pos + int (length out))
         \<or> srfb count pos from = Inl EFAULT \<and> out \<noteq> []))"

lemma srfbD:
  "srfb_documented srfb \<Longrightarrow> 0 \<le> pos \<Longrightarrow>
   srfb count pos from = Inr (take count (drop (nat pos) from),
     pos + int (length (take count (drop (nat pos) from)))) \<or>
   srfb count pos from = Inl EFAULT"
  unfolding srfb_documented_def Let_def by blast

lemma srfb_end:
  assumes "srfb_documented srfb"
  shows "srfb count (int (length from)) from = Inr ([], int (length from))"
  using assms[unfolded srfb_documented_def Let_def, rule_format, of "int (length from)" count "from"]
  by simp

definition ref_srfb :: srfb where
  "ref_srfb count pos from =
     (if pos < 0 then Inl EINVAL
      else let out = take count (drop (nat pos) from) in Inr (out, pos + int (length out)))"

lemma ref_srfb_documented: "srfb_documented ref_srfb"
  by (simp add: srfb_documented_def ref_srfb_def Let_def)

end
