(* ===== verification/TokenBucket.thy ===== *)
theory TokenBucket
  imports KernelAPI
begin

text \<open>
  \<^verbatim>\<open>17_advanced_module_params/token_bucket.c\<close>: a token-bucket rate limiter whose
  parameters are validated on every write. The state record holds the module's static
  variables; the operations are the parameter \<open>.set\<close> callbacks, the refill timer and the
  write of the consume device.
\<close>

section \<open>State\<close>

datatype tb_obj = bucket_lock | refill_timer | consume_dev

datatype limiter_mode = MODE_OFF | MODE_MONITOR | MODE_ENFORCE

record token_bucket =
  tokens :: s32
  total_consumed :: u64
  total_rejected :: u64
  mode :: limiter_mode
  mode_str :: string
  capacity :: s32
  refill_rate :: s32
  label :: string

definition tb_static :: token_bucket where
  "tb_static = \<lparr>tokens = 0, total_consumed = 0, total_rejected = 0, mode = MODE_MONITOR,
     mode_str = ''monitor'', capacity = 100, refill_rate = 5, label = ''unnamed-limiter''\<rparr>"

type_synonym 'a tb_result = "token_bucket \<times> tb_obj kcall list \<times> (errno + 'a)"

section \<open>Operations\<close>

definition mode_set :: "kstr \<Rightarrow> string \<Rightarrow> token_bucket \<Rightarrow> unit tb_result" where
  "mode_set K val s =
     (if sysfs_streq K val ''off'' then
        (s\<lparr>mode := MODE_OFF, mode_str := strscpy ''off'' 16\<rparr>, [], Inr ())
      else if sysfs_streq K val ''monitor'' then
        (s\<lparr>mode := MODE_MONITOR, mode_str := strscpy ''monitor'' 16\<rparr>, [], Inr ())
      else if sysfs_streq K val ''enforce'' then
        (s\<lparr>mode := MODE_ENFORCE, mode_str := strscpy ''enforce'' 16\<rparr>, [], Inr ())
      else (s, [], Inl EINVAL))"

definition mode_get :: "token_bucket \<Rightarrow> string" where
  "mode_get s = sysfs_emit (mode_str s @ [newline])"

definition capacity_set :: "kstr \<Rightarrow> string \<Rightarrow> token_bucket \<Rightarrow> unit tb_result" where
  "capacity_set K val s =
     (case kstrtoint K val 0 of
        Inl e \<Rightarrow> (s, [], Inl e)
      | Inr new_cap \<Rightarrow>
          if sint new_cap \<le> 0 then (s, [], Inl EINVAL)
          else
            (let s1 = s\<lparr>capacity := new_cap\<rparr>;
                 s2 = (if sint (capacity s1) < sint (tokens s1)
                       then s1\<lparr>tokens := capacity s1\<rparr> else s1)
             in (s2, [Lock_irq bucket_lock, Unlock_irq bucket_lock], Inr ())))"

definition refill_rate_set :: "kstr \<Rightarrow> string \<Rightarrow> token_bucket \<Rightarrow> unit tb_result" where
  "refill_rate_set K val s =
     (case kstrtoint K val 0 of
        Inl e \<Rightarrow> (s, [], Inl e)
      | Inr new_rate \<Rightarrow>
          if sint new_rate \<le> 0 then (s, [], Inl EINVAL)
          else
            (let reject = sint (capacity s) < sint new_rate;
                 s1 = (if \<not> reject then s\<lparr>refill_rate := new_rate\<rparr> else s)
             in (s1, [Lock_irq bucket_lock, Unlock_irq bucket_lock],
                 if reject then Inl EINVAL else Inr ())))"

definition tokens_get :: "token_bucket \<Rightarrow> string \<times> tb_obj kcall list" where
  "tokens_get s =
     (sysfs_emit (fmt_d (sint (tokens s)) @ [newline]), [Lock_irq bucket_lock, Unlock_irq bucket_lock])"

definition min_int :: "s32 \<Rightarrow> s32 \<Rightarrow> s32" where
  "min_int x y = (if sint x < sint y then x else y)"

definition refill_fn :: "u64 \<Rightarrow> u64 \<Rightarrow> token_bucket \<Rightarrow> token_bucket \<times> tb_obj kcall list" where
  \<comment> \<open>at \<open>jiffies = j\<close>, with \<open>HZ\<close> ticks a second; the sum is a 32-bit one\<close>
  "refill_fn j HZ s =
     (s\<lparr>tokens := min_int (tokens s + refill_rate s) (capacity s)\<rparr>,
      [Lock_irq bucket_lock, Unlock_irq bucket_lock, Arm refill_timer (unat (j + HZ))])"

definition consume_write :: "u64 \<Rightarrow> token_bucket \<Rightarrow> u64 tb_result" where
  "consume_write len s =
     (let had_token = 0 < sint (tokens s);
          s1 = (if had_token
                then s\<lparr>tokens := tokens s - 1, total_consumed := total_consumed s + 1\<rparr>
                else s\<lparr>total_rejected := total_rejected s + 1\<rparr>)
      in (s1, [Lock_irq bucket_lock, Unlock_irq bucket_lock],
          if \<not> had_token \<and> mode s1 = MODE_ENFORCE then Inl EBUSY else Inr len))"

text \<open>
  Loading: \<open>reg\<close> is what \<open>misc_register\<close> returned (\<open>None\<close> for success).
\<close>

definition token_bucket_init ::
    "u64 \<Rightarrow> u64 \<Rightarrow> errno option \<Rightarrow> token_bucket \<Rightarrow> token_bucket \<times> tb_obj kcall list \<times> errno option" where
  "token_bucket_init j HZ reg s =
     (case reg of
        Some e \<Rightarrow> (s, [], Some e)
      | None \<Rightarrow> (s\<lparr>tokens := capacity s\<rparr>,
                 [Acquire consume_dev, Arm refill_timer (unat (j + HZ))], None))"

definition token_bucket_exit :: "tb_obj kcall list" where
  "token_bucket_exit = [Cancel refill_timer, Release consume_dev]"

text \<open>
  The module as a machine: any interleaving of its operations. \<open>Capacity_get\<close> and
  \<open>Refill_rate_get\<close> are reads of the two \<open>int\<close> parameters, which the kernel's \<open>param_get_int\<close> serves.
\<close>

datatype tb_op =
    Mode_set string | Capacity_set string | Refill_rate_set string
  | Refill u64 u64 | Consume u64 | Tokens_get | Mode_get
  | Capacity_get | Refill_rate_get

fun tb_step :: "kstr \<Rightarrow> token_bucket \<Rightarrow> tb_op \<Rightarrow> token_bucket" where
  "tb_step K s (Mode_set v) = fst (mode_set K v s)"
| "tb_step K s (Capacity_set v) = fst (capacity_set K v s)"
| "tb_step K s (Refill_rate_set v) = fst (refill_rate_set K v s)"
| "tb_step K s (Refill j HZ) = fst (refill_fn j HZ s)"
| "tb_step K s (Consume n) = fst (consume_write n s)"
| "tb_step K s Tokens_get = s"
| "tb_step K s Mode_get = s"
| "tb_step K s Capacity_get = s"
| "tb_step K s Refill_rate_get = s"

section \<open>Signed arithmetic\<close>

lemma sint_add_s32:
  fixes a b :: s32
  assumes "- (2 ^ 31) \<le> sint a + sint b" "sint a + sint b < 2 ^ 31"
  shows "sint (a + b) = sint a + sint b"
  using assms by (simp add: sint_word_ariths signed_take_bit_int_eq_self)

lemma sint_dec_s32:
  fixes a :: s32
  assumes "0 < sint a"
  shows "sint (a - 1) = sint a - 1"
proof -
  have "sint a < 2 ^ 31" using sint_lt[of a] by simp
  with assms show ?thesis by (simp add: sint_word_ariths signed_take_bit_int_eq_self)
qed

lemma sint_min_int: "sint (min_int x y) = min (sint x) (sint y)"
  by (simp add: min_int_def)

section \<open>Invariant\<close>

text \<open>
  The count stays between zero and the ceiling, the two rates are positive, and the
  printed mode is the mode in force. The bound \<open>2 ^ 30\<close> on the parameters keeps the sum of
  the refill below \<open>INT_MAX\<close>; the code itself does not check it (\<open>refill_overflow\<close> below).
\<close>

fun mode_name :: "limiter_mode \<Rightarrow> string" where
  "mode_name MODE_OFF = ''off''"
| "mode_name MODE_MONITOR = ''monitor''"
| "mode_name MODE_ENFORCE = ''enforce''"

definition tb_inv :: "token_bucket \<Rightarrow> bool" where
  "tb_inv s \<longleftrightarrow>
     0 \<le> sint (tokens s) \<and> sint (tokens s) \<le> sint (capacity s) \<and>
     0 < sint (capacity s) \<and> sint (capacity s) < 2 ^ 30 \<and>
     0 < sint (refill_rate s) \<and> sint (refill_rate s) < 2 ^ 30 \<and>
     mode_str s = mode_name (mode s)"

fun tb_ok :: "kstr \<Rightarrow> tb_op \<Rightarrow> bool" where
  "tb_ok K (Capacity_set v) = (case kstrtoint K v 0 of Inl e \<Rightarrow> True | Inr c \<Rightarrow> sint c < 2 ^ 30)"
| "tb_ok K _ = True"

lemma strscpy_mode_name [simp]:
  "strscpy ''off'' 16 = ''off''" "strscpy ''monitor'' 16 = ''monitor''"
  "strscpy ''enforce'' 16 = ''enforce''"
  by (simp_all add: strscpy_def)

lemma mode_set_inv: "tb_inv s \<Longrightarrow> tb_inv (fst (mode_set K v s))"
  by (auto simp: tb_inv_def mode_set_def)

lemma capacity_set_inv:
  "tb_inv s \<Longrightarrow> tb_ok K (Capacity_set v) \<Longrightarrow> tb_inv (fst (capacity_set K v s))"
  by (auto simp: tb_inv_def capacity_set_def Let_def split: sum.splits)

lemma refill_rate_set_inv: "tb_inv s \<Longrightarrow> tb_inv (fst (refill_rate_set K v s))"
  by (auto simp: tb_inv_def refill_rate_set_def Let_def split: sum.splits)

lemma refill_sum:
  "tb_inv s \<Longrightarrow> sint (tokens s + refill_rate s) = sint (tokens s) + sint (refill_rate s)"
  by (rule sint_add_s32) (auto simp: tb_inv_def)

lemma refill_tokens:
  "tb_inv s \<Longrightarrow>
   sint (tokens (fst (refill_fn j HZ s))) =
     min (sint (tokens s) + sint (refill_rate s)) (sint (capacity s))"
  by (simp add: refill_fn_def sint_min_int refill_sum)

lemma refill_inv: "tb_inv s \<Longrightarrow> tb_inv (fst (refill_fn j HZ s))"
  using refill_tokens[of s j HZ] by (simp add: tb_inv_def refill_fn_def min_def)

lemma consume_inv: "tb_inv s \<Longrightarrow> tb_inv (fst (consume_write n s))"
  by (auto simp: tb_inv_def consume_write_def Let_def sint_dec_s32)

lemmas tb_op_inv = mode_set_inv capacity_set_inv refill_rate_set_inv refill_inv consume_inv

lemma tb_step_inv: "tb_inv s \<Longrightarrow> tb_ok K p \<Longrightarrow> tb_inv (tb_step K s p)"
  by (cases p) (auto intro: tb_op_inv)

interpretation tb: invariant_machine "tb_step K" tb_inv "tb_ok K" for K
  by unfold_locales (rule tb_step_inv)

lemma tb_inv_init:
  "sint (tokens s) = 0 \<Longrightarrow> tb_inv s \<Longrightarrow> tb_inv (fst (token_bucket_init j HZ None s))"
  by (simp add: token_bucket_init_def tb_inv_def)

lemma tb_static_inv: "tb_inv tb_static"
  by (simp add: tb_inv_def tb_static_def)

section \<open>The rate limit\<close>

text \<open>
  What a step lets through while the limiter enforces, and what a step may add: only a
  refill adds, at most the largest rate in force.
\<close>

fun tb_admits :: "token_bucket \<Rightarrow> tb_op \<Rightarrow> nat" where
  "tb_admits s (Consume n) =
     (if mode s = MODE_ENFORCE \<and> snd (snd (consume_write n s)) = Inr n then 1 else 0)"
| "tb_admits s _ = 0"

fun tb_earned :: "kstr \<Rightarrow> token_bucket \<Rightarrow> tb_op list \<Rightarrow> nat" where
  "tb_earned K s [] = 0"
| "tb_earned K s (p # ps) = tb_admits s p + tb_earned K (tb_step K s p) ps"

fun tb_refill_gain :: "nat \<Rightarrow> tb_op \<Rightarrow> nat" where
  "tb_refill_gain R (Refill j HZ) = R"
| "tb_refill_gain R _ = 0"

fun tb_rate_ok :: "kstr \<Rightarrow> nat \<Rightarrow> tb_op \<Rightarrow> bool" where
  "tb_rate_ok K R (Refill_rate_set v) =
     (case kstrtoint K v 0 of Inl e \<Rightarrow> True | Inr r \<Rightarrow> sint r \<le> int R)"
| "tb_rate_ok K R p = tb_ok K p"

definition tb_rate_inv :: "nat \<Rightarrow> token_bucket \<Rightarrow> bool" where
  "tb_rate_inv R s \<longleftrightarrow> tb_inv s \<and> sint (refill_rate s) \<le> int R"

lemma tb_rate_ok_ok: "tb_rate_ok K R p \<Longrightarrow> tb_ok K p"
  by (cases p) auto

lemma tb_step_rate:
  assumes "tb_rate_inv R s" "tb_rate_ok K R p"
  shows "sint (refill_rate (tb_step K s p)) \<le> int R"
  using assms
  by (cases p)
    (auto simp: tb_rate_inv_def mode_set_def capacity_set_def refill_rate_set_def refill_fn_def
      consume_write_def Let_def split: sum.splits)

lemma tb_step_level:
  assumes "tb_rate_inv R s" "tb_rate_ok K R p"
  shows "tb_admits s p + nat (sint (tokens (tb_step K s p)))
       \<le> nat (sint (tokens s)) + tb_refill_gain R p"
proof (cases p)
  case (Refill j HZ)
  with assms refill_tokens[of s j HZ] show ?thesis
    by (auto simp: tb_rate_inv_def tb_inv_def)
next
  case (Consume n)
  with assms show ?thesis
    by (auto simp: consume_write_def Let_def sint_dec_s32 tb_rate_inv_def tb_inv_def)
qed (use assms in \<open>auto simp: mode_set_def capacity_set_def refill_rate_set_def Let_def
        tb_rate_inv_def tb_inv_def split: sum.splits\<close>)

interpretation tb_rate: potential_machine "tb_step K" "tb_rate_inv R" "tb_rate_ok K R"
    "\<lambda>s. nat (sint (tokens s))" tb_admits "tb_refill_gain R" for K R
  by unfold_locales
    (auto simp: tb_rate_inv_def intro: tb_step_inv tb_rate_ok_ok tb_step_rate tb_step_level)

lemma tb_earned_eq: "tb_earned K s ps = tb_rate.earned K s ps"
  by (induction ps arbitrary: s) auto

definition refills :: "tb_op list \<Rightarrow> nat" where
  "refills ps = length (filter (\<lambda>p. case p of Refill j HZ \<Rightarrow> True | _ \<Rightarrow> False) ps)"

lemma sum_refill_gain: "sum_list (map (tb_refill_gain R) ps) = R * refills ps"
  by (induction ps) (auto simp: refills_def split: tb_op.splits)

section \<open>Properties\<close>

text \<open>C3: the rate limit. Over any run that starts in a legal state, keeps the capacity
  below \<open>2 ^ 30\<close> and the refill rate at or below \<open>R\<close>, whatever modes, capacities and rates
  are written in between, the consumes let through while enforcing are at most the tokens in
  store at the start plus \<open>R\<close> for every refill tick.\<close>

theorem tb_rate_limit:
  assumes "tb_rate_inv R s" and "\<forall>p \<in> set ps. tb_rate_ok K R p"
  shows "tb_earned K s ps \<le> nat (sint (tokens s)) + R * refills ps"
  using tb_rate.earned_bound[OF assms] by (simp add: tb_earned_eq sum_refill_gain)

theorem tb_rate_limit_witness:
  "tb_earned ref_kstr (tb_static\<lparr>tokens := 1, mode := MODE_ENFORCE, mode_str := ''enforce''\<rparr>)
     [Consume 4, Consume 4, Refill 0 250, Consume 4] \<le> 1 + 5 * 1"
proof -
  let ?s = "tb_static\<lparr>tokens := 1, mode := MODE_ENFORCE, mode_str := ''enforce''\<rparr>"
  have "tb_rate_inv 5 ?s" by (simp add: tb_rate_inv_def tb_inv_def tb_static_def)
  from tb_rate_limit[OF this, of "[Consume 4, Consume 4, Refill 0 250, Consume 4]" ref_kstr]
  show ?thesis by (simp add: tb_static_def refills_def)
qed

text \<open>The refill does not guard its sum.\<close>

lemma refill_overflow:
  assumes "kstr_documented K"
  shows "let s = foldl (tb_step K) tb_static
             [Capacity_set (dec 2147483647), Refill_rate_set (dec 2147483647), Mode_set ''enforce''];
           s1 = tb_step K (fst (token_bucket_init j HZ None s)) (Refill j HZ)
         in sint (tokens s1) = -2 \<and> snd (snd (consume_write n s1)) = Inl EBUSY \<and>
            total_consumed s1 = 0"
proof -
  have "kstrtoint K (dec 2147483647) 0 = Inr 2147483647"
    using kstrtointD(1)[OF assms, of 2147483647] by simp
  then show ?thesis
    by (simp add: tb_static_def capacity_set_def refill_rate_set_def mode_set_def refill_fn_def
        consume_write_def token_bucket_init_def Let_def min_int_def streqD[OF assms])
qed

text \<open>C30: the count never leaves its range. In every run of parameter writes, refills and
  consumes from a legal state (capacities below \<open>2 ^ 30\<close>) the tokens stay between zero and
  the current capacity and the mode string names the mode in force. Without the bound they need
  not: with capacity and refill rate set to \<open>INT_MAX\<close>, both accepted by the validation, one refill
  of a full bucket wraps the count to -2, and an enforcing limiter then rejects a consume
  although nothing was consumed.\<close>

theorem tb_tokens_in_range:
  assumes "tb_inv s" and "\<forall>p \<in> set ps. tb_ok K p" and "kstr_documented K"
  shows "0 \<le> sint (tokens (foldl (tb_step K) s ps)) \<and>
    sint (tokens (foldl (tb_step K) s ps)) \<le> sint (capacity (foldl (tb_step K) s ps)) \<and>
    mode_str (foldl (tb_step K) s ps) = mode_name (mode (foldl (tb_step K) s ps)) \<and>
    (let s = foldl (tb_step K) tb_static
         [Capacity_set (dec 2147483647), Refill_rate_set (dec 2147483647), Mode_set ''enforce''];
       s1 = tb_step K (fst (token_bucket_init j HZ None s)) (Refill j HZ)
     in sint (tokens s1) = -2 \<and> snd (snd (consume_write n s1)) = Inl EBUSY \<and> total_consumed s1 = 0)"
  using tb.run_inv[OF assms(1,2)] refill_overflow[OF assms(3), of j HZ n] by (simp add: tb_inv_def)

theorem tb_tokens_in_range_witness:
  "sint (tokens (foldl (tb_step ref_kstr) tb_static
     [Refill 0 250, Capacity_set (dec 3), Refill 0 250, Consume 1])) \<le> 3"
proof -
  have k: "kstrtoint ref_kstr (dec 3) 0 = Inr 3"
    using kstrtointD(1)[OF ref_kstr_documented, of 3] by simp
  have "\<forall>p \<in> set [Refill 0 250, Capacity_set (dec 3), Refill 0 250, Consume 1]. tb_ok ref_kstr p"
    by (simp add: k)
  from conjunct1[OF conjunct2[OF tb_tokens_in_range[OF tb_static_inv this ref_kstr_documented]]] show ?thesis
    by (simp add: tb_static_def capacity_set_def refill_fn_def consume_write_def Let_def k min_int_def)
qed

text \<open>A consume on every branch. It fails, with \<open>-EBUSY\<close>, exactly when the bucket is
  empty and the limiter enforces, and otherwise reports the whole length; it spends one token
  when there is one and is counted on exactly one of the two counters.\<close>

theorem consume_write_spec:
  "let (s', cs, r) = consume_write len s in
     (r = Inl EBUSY \<longleftrightarrow> sint (tokens s) \<le> 0 \<and> mode s = MODE_ENFORCE) \<and>
     (r \<noteq> Inl EBUSY \<longleftrightarrow> r = Inr len) \<and>
     tokens s' = (if 0 < sint (tokens s) then tokens s - 1 else tokens s) \<and>
     total_consumed s' = total_consumed s + (if 0 < sint (tokens s) then 1 else 0) \<and>
     total_rejected s' = total_rejected s + (if 0 < sint (tokens s) then 0 else 1) \<and>
     capacity s' = capacity s \<and> mode s' = mode s \<and> lock_balanced cs"
  by (auto simp: consume_write_def Let_def lock_balanced_def)

text \<open>C31: the mode round trip. Whatever spelling (with or without the newline that
  \<open>echo\<close> appends) was accepted, reading the parameter gives the name of the mode that is
  now in force followed by exactly one newline, and the accepted spellings are the three
  names only; a rejected write changes nothing.\<close>

theorem mode_roundtrip:
  assumes "kstr_documented K"
  shows "case snd (snd (mode_set K val s)) of
      Inr u \<Rightarrow> (\<exists>m. (val = mode_name m \<or> val = mode_name m @ [newline]) \<and>
                 mode (fst (mode_set K val s)) = m \<and>
                 mode_get (fst (mode_set K val s)) = mode_name m @ [newline])
    | Inl e \<Rightarrow> e = EINVAL \<and> fst (mode_set K val s) = s \<and>
              (\<forall>m. val \<noteq> mode_name m \<and> val \<noteq> mode_name m @ [newline])"
proof -
  have nm: "m = MODE_OFF \<or> m = MODE_MONITOR \<or> m = MODE_ENFORCE" for m by (cases m) auto
  have q: "sysfs_streq K val n \<longleftrightarrow> val = n \<or> val = n @ [newline]" if "last n \<noteq> newline" for n
    using that by (auto simp: streqD[OF assms])
  show ?thesis
    by (auto simp: mode_set_def q mode_get_def sysfs_emit_def scnprintf_def
        intro: exI[of _ MODE_OFF] exI[of _ MODE_MONITOR] exI[of _ MODE_ENFORCE])
      (metis nm mode_name.simps append_Cons append_Nil)+
qed

theorem mode_roundtrip_witness:
  "mode_get (fst (mode_set ref_kstr ''enforce\<newline>'' tb_static)) = ''enforce\<newline>''"
  using mode_roundtrip[OF ref_kstr_documented, of "''enforce\<newline>''" tb_static]
  by (simp add: mode_set_def streqD[OF ref_kstr_documented] mode_get_def sysfs_emit_def scnprintf_def)

text \<open>The two numeric parameters are validated against each other in one direction
  only. A refill rate is accepted exactly when it parses, is positive and does not exceed
  the capacity of that moment; but lowering the capacity afterwards is accepted and leaves a
  refill rate above the ceiling.\<close>

theorem rate_validation:
  assumes "kstr_documented K"
  shows "(snd (snd (refill_rate_set K v s)) = Inr () \<longleftrightarrow>
           (\<exists>r. kstrtoint K v 0 = Inr r \<and> 0 < sint r \<and> sint r \<le> sint (capacity s))) \<and>
         (snd (snd (refill_rate_set K v s)) = Inr () \<longrightarrow>
           sint (refill_rate (fst (refill_rate_set K v s))) \<le> sint (capacity s)) \<and>
         (let s1 = foldl (tb_step K) tb_static [Refill_rate_set (dec 10), Capacity_set (dec 5)]
          in sint (capacity s1) = 5 \<and> sint (refill_rate s1) = 10)"
proof -
  have "kstrtoint K (dec 10) 0 = Inr 10" "kstrtoint K (dec 5) 0 = Inr 5"
    using kstrtointD(1)[OF assms, of 10] kstrtointD(1)[OF assms, of 5] by simp_all
  then show ?thesis
    by (auto simp: refill_rate_set_def capacity_set_def tb_static_def Let_def
        split: sum.splits if_splits)
qed

theorem rate_validation_witness:
  "sint (refill_rate (foldl (tb_step ref_kstr) tb_static
     [Refill_rate_set (dec 10), Capacity_set (dec 5)])) = 10"
  using rate_validation[OF ref_kstr_documented] by (simp add: Let_def)

section \<open>Loading and unloading\<close>

fun tb_calls :: "kstr \<Rightarrow> token_bucket \<Rightarrow> tb_op \<Rightarrow> tb_obj kcall list" where
  "tb_calls K s (Mode_set v) = fst (snd (mode_set K v s))"
| "tb_calls K s (Capacity_set v) = fst (snd (capacity_set K v s))"
| "tb_calls K s (Refill_rate_set v) = fst (snd (refill_rate_set K v s))"
| "tb_calls K s (Refill j HZ) = snd (refill_fn j HZ s)"
| "tb_calls K s (Consume n) = fst (snd (consume_write n s))"
| "tb_calls K s Tokens_get = snd (tokens_get s)"
| "tb_calls K s Mode_get = []"
| "tb_calls K s Capacity_get = []"
| "tb_calls K s Refill_rate_get = []"

definition tb_live :: "token_bucket \<Rightarrow> tb_obj kworld \<Rightarrow> bool" where
  "tb_live s w \<longleftrightarrow> locked w = {} \<and> held w = {consume_dev} \<and> armed w \<subseteq> {refill_timer}"

lemma tb_calls_cases:
  "tb_calls K s p = [] \<or> tb_calls K s p = [Lock_irq bucket_lock, Unlock_irq bucket_lock] \<or>
   (\<exists>j. tb_calls K s p = [Lock_irq bucket_lock, Unlock_irq bucket_lock, Arm refill_timer j])"
  by (cases p)
    (simp_all add: mode_set_def capacity_set_def refill_rate_set_def
      refill_fn_def consume_write_def tokens_get_def Let_def split: sum.split)

interpretation tb_session: module_session
    "\<lambda>(j, HZ, reg, s). token_bucket_init j HZ reg s"
    "\<lambda>s p. (tb_step K s p, tb_calls K s p)" "\<lambda>s. token_bucket_exit" tb_live for K
proof
  fix s w p s' t
  assume w: "tb_live s w" and t: "(tb_step K s p, tb_calls K s p) = (s', t)"
  from t have "t = tb_calls K s p" by simp
  with tb_calls_cases[of K s p]
  have "t = [] \<or> t = [Lock_irq bucket_lock, Unlock_irq bucket_lock] \<or>
      (\<exists>j. t = [Lock_irq bucket_lock, Unlock_irq bucket_lock, Arm refill_timer j])" by simp
  with w show "\<exists>w'. kruns w t = Some w' \<and> tb_live s' w'"
    by (auto simp: tb_live_def)
qed (auto simp: token_bucket_init_def token_bucket_exit_def tb_live_def quiet_def
      split: option.splits)

end
