(* ===== verification/Overwriting_Queue.thy ===== *)
theory Overwriting_Queue
  imports Main
begin

text \<open>
  The contract of a bounded queue that overwrites its oldest element when it is full:
  what a put does to the contents, and that a drain hands out the contents and leaves none.
  From the two laws follows what any sequence of puts leaves behind.
\<close>

definition last_n :: "nat \<Rightarrow> 'a list \<Rightarrow> 'a list" where
  "last_n n xs = drop (length xs - n) xs"

lemma length_last_n [simp]: "length (last_n n xs) = min n (length xs)"
  by (simp add: last_n_def)

lemma last_n_all: "length xs \<le> n \<Longrightarrow> last_n n xs = xs"
  by (simp add: last_n_def)

lemma last_n_snoc:
  "0 < n \<Longrightarrow> last_n n (last_n n xs @ ys) = last_n n (xs @ ys)"
proof (cases "length xs \<le> n")
  case True
  then show ?thesis by (simp add: last_n_all)
next
  case False
  then have "length xs - n + (n + length ys - n) = length xs + length ys - n" by simp
  then show ?thesis using False by (auto simp: last_n_def min_def add.commute)
qed

locale overwriting_queue =
  fixes put :: "'i \<Rightarrow> 'q \<Rightarrow> 'q"
    and elem :: "'i \<Rightarrow> 'q \<Rightarrow> 'a"
    and drain :: "'q \<Rightarrow> 'q"
    and contents :: "'q \<Rightarrow> 'a list"
    and invar :: "'q \<Rightarrow> bool"
    and cap :: nat
  assumes cap_pos: "0 < cap"
    and contents_bound: "invar q \<Longrightarrow> length (contents q) \<le> cap"
    and contents_put: "invar q \<Longrightarrow> contents (put i q) = last_n cap (contents q @ [elem i q])"
    and contents_drain: "invar q \<Longrightarrow> contents (drain q) = []"
    and invar_put: "invar q \<Longrightarrow> invar (put i q)"
    and invar_drain: "invar q \<Longrightarrow> invar (drain q)"
begin

fun elems :: "'i list \<Rightarrow> 'q \<Rightarrow> 'a list" where
  "elems [] q = []"
| "elems (i # is) q = elem i q # elems is (put i q)"

lemma invar_puts: "invar q \<Longrightarrow> invar (fold put is q)"
  by (induction "is" arbitrary: q) (auto intro: invar_put)

lemma contents_puts:
  "invar q \<Longrightarrow> contents (fold put is q) = last_n cap (contents q @ elems is q)"
proof (induction "is" arbitrary: q)
  case Nil
  then show ?case by (simp add: last_n_all contents_bound)
next
  case (Cons i "is")
  have "contents (fold put (i # is) q) = last_n cap (contents (put i q) @ elems is (put i q))"
    using Cons by (simp add: invar_put)
  also have "\<dots> = last_n cap (last_n cap (contents q @ [elem i q]) @ elems is (put i q))"
    using Cons.prems by (simp add: contents_put)
  also have "\<dots> = last_n cap (contents q @ elems (i # is) q)"
    by (simp add: last_n_snoc cap_pos)
  finally show ?case .
qed

lemma drain_then_puts:
  "invar q \<Longrightarrow> contents (fold put is (drain q)) = last_n cap (elems is (drain q))"
  by (simp add: contents_puts invar_drain contents_drain)

end

end
