(* ===== verification/Kthreads.thy ===== *)
theory Kthreads
  imports KernelAPI Overwriting_Queue
begin

text \<open>
  \<^verbatim>\<open>15_kthreads/kthreads.c\<close>: a producer thread that fills a ring of 16 items, a
  device that drains it, and a sysfs file that starts and stops the producer. The ring is
  shown to implement a bounded queue that overwrites its oldest element.
\<close>

section \<open>State\<close>

datatype kt_obj = ring_lock | producer_task_lock | producer | kt_miscdev | kt_kobj | kt_group

record ring_item =
  seq :: u64
  ns :: u64

abbreviation RING_SIZE :: u32 where "RING_SIZE \<equiv> 16"
abbreviation SNAPSHOT_BUF_SIZE :: nat where "SNAPSHOT_BUF_SIZE \<equiv> 640"

text \<open>
  \<open>producer_task\<close> is the task's pid when a producer runs, \<open>None\<close> for \<open>NULL\<close>;
  \<open>snapshot\<close> is the first \<open>snapshot_len\<close> bytes of \<open>snapshot_buf\<close>.
\<close>

record kthreads =
  ring :: "ring_item list"
  ring_head :: u32
  ring_count :: u32
  next_seq :: u64
  dropped_count :: u64
  producer_task :: "int option"
  snapshot :: string

definition kt_static :: kthreads where
  "kt_static = \<lparr>ring = replicate 16 \<lparr>seq = 0, ns = 0\<rparr>, ring_head = 0, ring_count = 0,
     next_seq = 0, dropped_count = 0, producer_task = None, snapshot = []\<rparr>"

section \<open>The producer thread\<close>

text \<open>One pass of the loop body, at \<open>ktime_get_ns() = t\<close>.\<close>

definition produce :: "u64 \<Rightarrow> kthreads \<Rightarrow> kthreads" where
  "produce t s =
     (let s1 = s\<lparr>ring := (ring s)[unat (ring_head s) := \<lparr>seq = next_seq s, ns = t\<rparr>],
                 next_seq := next_seq s + 1\<rparr>;
          s2 = s1\<lparr>ring_head := (ring_head s1 + 1) mod RING_SIZE\<rparr>
      in if ring_count s2 < RING_SIZE then s2\<lparr>ring_count := ring_count s2 + 1\<rparr>
         else s2\<lparr>dropped_count := dropped_count s2 + 1\<rparr>)"

text \<open>
  The thread function: before every pass it asks \<open>kthread_should_stop()\<close>. The list holds
  the answers and the clock readings of the passes; the boolean result tells whether the
  function has returned.
\<close>

fun producer_thread_fn :: "(bool \<times> u64) list \<Rightarrow> kthreads \<Rightarrow> kthreads \<times> kt_obj kcall list \<times> bool" where
  "producer_thread_fn [] s = (s, [], False)"
| "producer_thread_fn ((should_stop, t) # es) s =
     (if should_stop then (s, [], True)
      else (let (s', cs, r) = producer_thread_fn es (produce t s)
            in (s', [Lock ring_lock, Unlock ring_lock] @ cs, r)))"

text \<open>\<open>run\<close> is what \<open>kthread_run\<close> returned: an error pointer or the new task.\<close>

definition start_producer ::
    "errno + int \<Rightarrow> kthreads \<Rightarrow> kthreads \<times> kt_obj kcall list \<times> errno option" where
  "start_producer run s =
     (if producer_task s \<noteq> None then
        (s, [Lock producer_task_lock, Unlock producer_task_lock], Some EEXIST)
      else
        (case run of
           Inl e \<Rightarrow> (s\<lparr>producer_task := None\<rparr>,
                     [Lock producer_task_lock, Unlock producer_task_lock], Some e)
         | Inr pid \<Rightarrow> (s\<lparr>producer_task := Some pid\<rparr>,
                       [Lock producer_task_lock, Acquire producer, Unlock producer_task_lock], None)))"

definition stop_producer :: "kthreads \<Rightarrow> kthreads \<times> kt_obj kcall list \<times> errno option" where
  "stop_producer s =
     (let task = producer_task s; s1 = s\<lparr>producer_task := None\<rparr>
      in (case task of
            None \<Rightarrow> (s1, [Lock producer_task_lock, Unlock producer_task_lock], Some ENOENT)
          | Some pid \<Rightarrow>
              (s1, [Lock producer_task_lock, Unlock producer_task_lock, Release producer], None)))"

section \<open>The device\<close>

definition fmt_item :: "ring_item \<Rightarrow> string" where
  "fmt_item it = ''seq='' @ fmt_u (seq it) @ '' ns='' @ fmt_u (ns it) @ [newline]"

definition ring_start :: "kthreads \<Rightarrow> u32" where
  "ring_start s = (ring_head s + RING_SIZE - ring_count s) mod RING_SIZE"

definition ring_items :: "kthreads \<Rightarrow> ring_item list" where
  \<comment> \<open>the copy loop of the read: \<open>items[i] = ring[(start + i) % RING_SIZE]\<close>\<close>
  "ring_items s =
     map (\<lambda>i. ring s ! unat ((ring_start s + of_nat i) mod RING_SIZE)) [0..<unat (ring_count s)]"

fun snapshot_loop :: "ring_item list \<Rightarrow> string \<Rightarrow> string" where
  "snapshot_loop [] buf = buf"
| "snapshot_loop (it # its) buf =
     (if length buf < SNAPSHOT_BUF_SIZE
      then snapshot_loop its (buf @ scnprintf (SNAPSHOT_BUF_SIZE - length buf) (fmt_item it))
      else buf)"

definition kthread_demo_read ::
    "srfb \<Rightarrow> nat \<Rightarrow> int \<Rightarrow> kthreads \<Rightarrow> kthreads \<times> kt_obj kcall list \<times> (errno + (string \<times> int))" where
  "kthread_demo_read srfb count pos s =
     (let (s1, cs) =
        (if pos = 0
         then (s\<lparr>ring_count := 0, snapshot := snapshot_loop (ring_items s) []\<rparr>,
               [Lock ring_lock, Unlock ring_lock])
         else (s, []))
      in (s1, cs, srfb count pos (snapshot s1)))"

section \<open>sysfs\<close>

definition status_show :: "kthreads \<Rightarrow> string \<times> kt_obj kcall list" where
  "status_show s =
     (let pid = (case producer_task s of None \<Rightarrow> -1 | Some p \<Rightarrow> p)
      in (sysfs_emit (''running='' @ fmt_b (producer_task s \<noteq> None) @ [newline]
            @ ''pid='' @ fmt_d pid @ [newline]
            @ ''produced='' @ fmt_u (next_seq s) @ [newline]
            @ ''dropped='' @ fmt_u (dropped_count s) @ [newline]
            @ ''buffered='' @ fmt_u (ring_count s) @ [newline]),
          [Lock producer_task_lock, Unlock producer_task_lock]))"

text \<open>
  \<open>buf\<close> is the written text (\<open>count\<close> bytes). \<open>strim\<close> is called again on the buffer it
  has already cut, which yields the same string.
\<close>

definition control_store ::
    "kstr \<Rightarrow> errno + int \<Rightarrow> string \<Rightarrow> kthreads \<Rightarrow> kthreads \<times> kt_obj kcall list \<times> (errno + nat)" where
  "control_store K run buf s =
     (if length buf = 0 \<or> length buf \<ge> 16 then (s, [], Inl E2BIG)
      else
        (let cmd = strim K (cstr buf)
         in if sysfs_streq K cmd ''start'' then
              (let (s1, cs, ret) = start_producer run s
               in (s1, cs, case ret of Some e \<Rightarrow> Inl e | None \<Rightarrow> Inr (length buf)))
            else if sysfs_streq K cmd ''stop'' then
              (let (s1, cs, ret) = stop_producer s
               in (s1, cs, case ret of Some e \<Rightarrow> Inl e | None \<Rightarrow> Inr (length buf)))
            else (s, [], Inl EINVAL)))"

section \<open>Loading and unloading\<close>

text \<open>The outcomes of the kernel calls the init function makes.\<close>

record kt_env =
  e_misc :: "errno option"
  e_kobj :: bool
  e_group :: "errno option"
  e_run :: "errno + int"

definition kthreads_init ::
    "kt_env \<Rightarrow> kthreads \<Rightarrow> kthreads \<times> kt_obj kcall list \<times> errno option" where
  "kthreads_init e s =
     (case e_misc e of Some x \<Rightarrow> (s, [], Some x) | None \<Rightarrow>
      if \<not> e_kobj e then (s, [Acquire kt_miscdev, Release kt_miscdev], Some ENOMEM)
      else
        (case e_group e of
           Some x \<Rightarrow> (s, [Acquire kt_miscdev, Acquire kt_kobj, Release kt_kobj, Release kt_miscdev], Some x)
         | None \<Rightarrow>
             (let (s1, cs, ret) = start_producer (e_run e) s
              in (case ret of
                    Some x \<Rightarrow>
                      (s1, [Acquire kt_miscdev, Acquire kt_kobj, Acquire kt_group] @ cs
                           @ [Release kt_group, Release kt_kobj, Release kt_miscdev], Some x)
                  | None \<Rightarrow>
                      (s1, [Acquire kt_miscdev, Acquire kt_kobj, Acquire kt_group] @ cs, None)))))"

definition kthreads_exit_rest :: "kt_obj kcall list" where
  "kthreads_exit_rest = [Release kt_group, Release kt_kobj, Release kt_miscdev]"

definition kthreads_exit :: "kthreads \<Rightarrow> kt_obj kcall list" where
  "kthreads_exit s = fst (snd (stop_producer s)) @ kthreads_exit_rest"

section \<open>The ring as a queue\<close>

definition ring_inv :: "kthreads \<Rightarrow> bool" where
  "ring_inv s \<longleftrightarrow> length (ring s) = 16 \<and> unat (ring_head s) < 16 \<and> unat (ring_count s) \<le> 16"

definition ring_slot :: "kthreads \<Rightarrow> nat \<Rightarrow> nat" where
  "ring_slot s i = (unat (ring_head s) + 16 - unat (ring_count s) + i) mod 16"

lemma unat_ring_start:
  assumes "ring_inv s"
  shows "unat (ring_start s) = (unat (ring_head s) + 16 - unat (ring_count s)) mod 16"
proof -
  have "unat (ring_head s + RING_SIZE) = unat (ring_head s) + 16"
    using assms by (simp add: ring_inv_def unat_plus_if')
  moreover from this have "unat (ring_head s + RING_SIZE - ring_count s)
      = unat (ring_head s) + 16 - unat (ring_count s)"
    using assms by (simp add: ring_inv_def unat_sub_if')
  ultimately show ?thesis by (simp add: ring_start_def unat_mod)
qed

lemma unat_slot:
  assumes "ring_inv s" "i < 16"
  shows "unat ((ring_start s + of_nat i) mod RING_SIZE) = ring_slot s i"
proof -
  have lt: "unat (ring_start s) < 16" by (simp add: unat_ring_start[OF assms(1)])
  have "unat (of_nat i :: u32) = i" using assms(2) by (simp add: unat_of_nat)
  with lt have "unat (ring_start s + of_nat i) = unat (ring_start s) + i"
    using assms(2) by (simp add: unat_plus_if')
  then show ?thesis
    by (simp add: unat_mod unat_ring_start[OF assms(1)] ring_slot_def mod_simps)
qed

lemma ring_items_slots:
  "ring_inv s \<Longrightarrow> ring_items s = map (\<lambda>i. ring s ! ring_slot s i) [0..<unat (ring_count s)]"
  by (auto simp: ring_items_def unat_slot ring_inv_def)

lemma nth_ring_items:
  "ring_inv s \<Longrightarrow> i < unat (ring_count s) \<Longrightarrow> ring_items s ! i = ring s ! ring_slot s i"
  by (simp add: ring_items_slots)

lemma length_ring_items [simp]: "length (ring_items s) = unat (ring_count s)"
  by (simp add: ring_items_def)

lemma produce_fields:
  assumes "ring_inv s"
  shows "ring (produce t s) = (ring s)[unat (ring_head s) := \<lparr>seq = next_seq s, ns = t\<rparr>]"
    and "unat (ring_head (produce t s)) = (unat (ring_head s) + 1) mod 16"
    and "unat (ring_count (produce t s)) = min 16 (unat (ring_count s) + 1)"
    and "next_seq (produce t s) = next_seq s + 1"
    and "dropped_count (produce t s) =
         dropped_count s + (if unat (ring_count s) < 16 then 0 else 1)"
  using assms
  by (auto simp: produce_def Let_def ring_inv_def unat_mod unat_plus_if' word_less_nat_alt)

lemma ring_inv_produce: "ring_inv s \<Longrightarrow> ring_inv (produce t s)"
  using produce_fields[of s t] by (simp add: ring_inv_def)

lemma slot_shift:
  fixes h c i :: nat
  assumes "h < 16" "c \<le> 16" "d = (if c < 16 then 0 else 1)"
  shows "((h + 1) mod 16 + 16 - min 16 (c + 1) + i) mod 16 = (h + 16 - c + d + i) mod 16"
proof (cases "c < 16")
  case c: True
  show ?thesis
  proof (cases "h = 15")
    case True
    have "15 + 16 - c + i = (15 - c + i) + 16" using c by simp
    then have "(15 + 16 - c + i) mod 16 = (15 - c + i) mod 16" by (metis mod_add_self2)
    with True c assms(3) show ?thesis by simp
  next
    case False
    with assms(1) have "(h + 1) mod 16 = h + 1" by simp
    with c assms(3) show ?thesis by (simp add: add.commute add.left_commute)
  qed
next
  case False
  with assms(2) have "c = 16" by simp
  with assms(3) show ?thesis by (simp add: mod_simps)
qed

lemma mod_shift_neq: "h < 16 \<Longrightarrow> 0 < k \<Longrightarrow> k < 16 \<Longrightarrow> (h + k) mod 16 \<noteq> (h :: nat)"
  by (cases "h + k < 16") (simp_all add: le_mod_geq)

lemma ring_items_produce:
  assumes "ring_inv s"
  shows "ring_items (produce t s) = last_n 16 (ring_items s @ [\<lparr>seq = next_seq s, ns = t\<rparr>])"
proof -
  note pf = produce_fields[OF assms, of t]
  define h c where "h = unat (ring_head s)" and "c = unat (ring_count s)"
  have hc: "h < 16" "c \<le> 16" "length (ring s) = 16"
    using assms by (auto simp: ring_inv_def h_def c_def)
  let ?x = "\<lparr>seq = next_seq s, ns = t\<rparr>"
  show ?thesis
  proof (rule nth_equalityI)
    show "length (ring_items (produce t s)) = length (last_n 16 (ring_items s @ [?x]))"
      using pf(3) by simp
  next
    fix i assume "i < length (ring_items (produce t s))"
    then have i: "i < min 16 (c + 1)" using pf(3) by (simp add: c_def)
    define d where "d = (if c < 16 then 0 else 1 :: nat)"
    have d: "c + 1 - 16 = d" using hc by (auto simp: d_def)
    have lhs: "ring_items (produce t s) ! i = (ring s)[h := ?x] ! ((h + 16 - c + d + i) mod 16)"
    proof -
      have "ring_slot (produce t s) i = ((h + 1) mod 16 + 16 - min 16 (c + 1) + i) mod 16"
        by (simp add: ring_slot_def pf h_def c_def)
      also have "\<dots> = (h + 16 - c + d + i) mod 16"
        by (rule slot_shift[OF hc(1,2)]) (simp add: d_def)
      finally show ?thesis
        using i pf(1,3) by (simp add: nth_ring_items[OF ring_inv_produce[OF assms]] h_def c_def)
    qed
    have rhs: "last_n 16 (ring_items s @ [?x]) ! i = (ring_items s @ [?x]) ! (d + i)"
    proof -
      have "length (ring_items s @ [?x]) - 16 = d" using d by (simp add: c_def)
      moreover have "d \<le> length (ring_items s @ [?x])" using i by (simp add: d_def c_def)
      ultimately show ?thesis unfolding last_n_def by (simp del: drop_append)
    qed
    show "ring_items (produce t s) ! i = last_n 16 (ring_items s @ [?x]) ! i"
    proof (cases "d + i = c")
      case True
      then have "h + 16 - c + d + i = h + 16" using hc by arith
      then have "(h + 16 - c + d + i) mod 16 = h" using hc by simp
      with True lhs rhs hc show ?thesis by (simp add: nth_append c_def)
    next
      case False
      with i have "d + i < c" by (auto simp: d_def split: if_splits)
      define k where "k = 16 - c + d + i"
      have k: "0 < k" "k < 16" "h + 16 - c + d + i = h + k"
        using \<open>d + i < c\<close> hc by (auto simp: k_def d_def split: if_splits)
      have "(h + k) mod 16 \<noteq> h" using hc(1) k(1,2) by (rule mod_shift_neq)
      then have "(h + 16 - c + d + i) mod 16 \<noteq> h" unfolding k(3) .
      with \<open>d + i < c\<close> lhs rhs show ?thesis
        by (simp add: nth_append c_def h_def nth_ring_items[OF assms] ring_slot_def add.assoc)
    qed
  qed
qed

definition drain_ring :: "kthreads \<Rightarrow> kthreads" where
  "drain_ring s = s\<lparr>ring_count := 0, snapshot := snapshot_loop (ring_items s) []\<rparr>"

lemma kthread_demo_read_drain:
  "fst (kthread_demo_read srfb count pos s) = (if pos = 0 then drain_ring s else s)"
  by (simp add: kthread_demo_read_def drain_ring_def)

interpretation rq: overwriting_queue produce "\<lambda>t s. \<lparr>seq = next_seq s, ns = t\<rparr>" drain_ring
    ring_items ring_inv 16
proof
  fix s :: kthreads and t :: u64
  assume i: "ring_inv s"
  show "length (ring_items s) \<le> 16" using i by (simp add: ring_inv_def)
  show "ring_items (produce t s) = last_n 16 (ring_items s @ [\<lparr>seq = next_seq s, ns = t\<rparr>])"
    using i by (rule ring_items_produce)
  show "ring_items (drain_ring s) = []" by (simp add: drain_ring_def ring_items_def)
  show "ring_inv (produce t s)" using i by (rule ring_inv_produce)
  show "ring_inv (drain_ring s)" using i by (simp add: ring_inv_def drain_ring_def)
qed simp

lemma elems_produce:
  "rq.elems ts s = map (\<lambda>k. \<lparr>seq = next_seq s + of_nat k, ns = ts ! k\<rparr>) [0..<length ts]"
proof (induction ts arbitrary: s)
  case Nil
  then show ?case by simp
next
  case (Cons t ts)
  have n: "next_seq (produce t s) = next_seq s + 1"
    by (simp add: produce_def Let_def)
  have "[0..<length (t # ts)] = 0 # map Suc [0..<length ts]"
    by (simp only: list.size upt_conv_Cons map_Suc_upt) simp
  then show ?case by (simp add: Cons.IH n del: upt_Suc)
qed

section \<open>The module as a machine\<close>

datatype kt_op = Pass u64 | Read nat int | Control "errno + int" string | Status

fun kt_serve :: "kstr \<Rightarrow> srfb \<Rightarrow> kthreads \<Rightarrow> kt_op \<Rightarrow> kthreads \<times> kt_obj kcall list" where
  "kt_serve K srfb s (Pass t) = (produce t s, [Lock ring_lock, Unlock ring_lock])"
| "kt_serve K srfb s (Read n pos) =
     (let (s', cs, r) = kthread_demo_read srfb n pos s in (s', cs))"
| "kt_serve K srfb s (Control run buf) =
     (let (s', cs, r) = control_store K run buf s in (s', cs))"
| "kt_serve K srfb s Status = (s, snd (status_show s))"

definition kt_step :: "kstr \<Rightarrow> srfb \<Rightarrow> kthreads \<Rightarrow> kt_op \<Rightarrow> kthreads" where
  "kt_step K srfb s p = fst (kt_serve K srfb s p)"

text \<open>The producer's slot is all that the control file changes.\<close>

lemma control_store_frame:
  assumes "control_store K run buf s = (s', cs, r)"
  shows "s' = s\<lparr>producer_task := producer_task s'\<rparr>"
  using assms
  by (auto simp: control_store_def start_producer_def stop_producer_def Let_def
      split: if_splits sum.splits option.splits prod.splits)

lemma kt_step_Pass [simp]: "kt_step K srfb s (Pass t) = produce t s"
  by (simp add: kt_step_def)

lemma kt_step_Read [simp]: "kt_step K srfb s (Read n pos) = (if pos = 0 then drain_ring s else s)"
  by (simp add: kt_step_def case_prod_beta kthread_demo_read_drain)

lemma kt_step_Status [simp]: "kt_step K srfb s Status = s"
  by (simp add: kt_step_def)

lemma kt_step_Control:
  "\<exists>pt. kt_step K srfb s (Control run buf) = s\<lparr>producer_task := pt\<rparr>"
  using control_store_frame[of K run buf s] by (auto simp: kt_step_def split: prod.splits)

lemma ring_items_task [simp]: "ring_items (s\<lparr>producer_task := pt\<rparr>) = ring_items s"
  by (simp add: ring_items_def ring_start_def)

lemma ring_inv_task [simp]: "ring_inv (s\<lparr>producer_task := pt\<rparr>) = ring_inv s"
  by (simp add: ring_inv_def)

lemma kt_step_inv: "ring_inv s \<Longrightarrow> ring_inv (kt_step K srfb s p)"
  using kt_step_Control[of K srfb s]
  by (cases p) (auto intro: rq.invar_put rq.invar_drain, metis ring_inv_task)

interpretation kt: invariant_machine "kt_step K srfb" ring_inv "\<lambda>_. True" for K srfb
  by unfold_locales (rule kt_step_inv)

text \<open>How many items an operation hands to its reader.\<close>

fun drained :: "kthreads \<Rightarrow> kt_op \<Rightarrow> nat" where
  "drained s (Read n pos) = (if pos = 0 then length (ring_items s) else 0)"
| "drained s _ = 0"

fun drained_all :: "kstr \<Rightarrow> srfb \<Rightarrow> kthreads \<Rightarrow> kt_op list \<Rightarrow> nat" where
  "drained_all K srfb s [] = 0"
| "drained_all K srfb s (p # ps) = drained s p + drained_all K srfb (kt_step K srfb s p) ps"

lemma kt_step_balance:
  assumes "ring_inv s"
  shows "next_seq (kt_step K srfb s p) + dropped_count s + of_nat (length (ring_items s)) =
    next_seq s + dropped_count (kt_step K srfb s p) +
    of_nat (length (ring_items (kt_step K srfb s p))) + of_nat (drained s p)"
proof (cases p)
  case (Pass t)
  have "unat (ring_count s) \<le> 16" using assms by (simp add: ring_inv_def)
  with produce_fields[OF assms, of t] show ?thesis
    by (cases "unat (ring_count s) < 16") (simp_all add: Pass)
next
  case (Read n pos)
  then show ?thesis by (simp add: drain_ring_def)
next
  case (Control run buf)
  then show ?thesis using kt_step_Control[of K srfb s run buf] by auto
qed simp

lemma chain_balance:
  fixes n :: "'a::ab_group_add"
  assumes "N + d1 + c1 = n1 + D + C + X" and "n1 + d + c = n + d1 + c1 + x"
  shows "N + d + c = n + D + C + (x + X)"
proof -
  have "N = n1 + D + C + X - c1 - d1" using assms(1) by (simp add: eq_diff_eq)
  moreover have "n1 = n + d1 + c1 + x - c - d" using assms(2) by (simp add: eq_diff_eq)
  ultimately show ?thesis by (simp add: algebra_simps)
qed

section \<open>The snapshot\<close>

lemma snapshot_loop_take:
  "length buf \<le> 639 \<Longrightarrow> snapshot_loop its buf = take 639 (buf @ concat (map fmt_item its))"
proof (induction its arbitrary: buf)
  case Nil
  then show ?case by simp
next
  case (Cons it its)
  have "snapshot_loop (it # its) buf
      = snapshot_loop its (take 639 (buf @ fmt_item it))"
    using Cons.prems by (simp add: scnprintf_def)
  also have "\<dots> = take 639 (take 639 (buf @ fmt_item it) @ concat (map fmt_item its))"
    by (rule Cons.IH) simp
  also have "\<dots> = take 639 (buf @ concat (map fmt_item (it # its)))"
    using Cons.prems by (cases "length (buf @ fmt_item it) \<le> 639") (simp_all add: min_absorb1)
  finally show ?case .
qed

definition small_item :: "ring_item \<Rightarrow> bool" where
  "small_item it \<longleftrightarrow> unat (seq it) < 10 ^ 12 \<and> unat (ns it) < 10 ^ 18"

lemma length_fmt_item: "small_item it \<Longrightarrow> length (fmt_item it) \<le> 39"
  using length_dec[of "unat (seq it)" 12] length_dec[of "unat (ns it)" 18]
  by (simp add: small_item_def fmt_item_def fmt_u_def)

lemma length_concat_items:
  "\<forall>it \<in> set its. small_item it \<Longrightarrow> length (concat (map fmt_item its)) \<le> 39 * length its"
proof (induction its)
  case Nil
  then show ?case by simp
next
  case (Cons it its)
  with length_fmt_item[of it] show ?case by simp
qed

lemma snapshot_complete:
  assumes "length its \<le> 16" "\<forall>it \<in> set its. small_item it"
  shows "snapshot_loop its [] = concat (map fmt_item its)"
  using length_concat_items[OF assms(2)] assms(1) by (simp add: snapshot_loop_take)

section \<open>The producer's life\<close>

definition kt_live :: "kthreads \<Rightarrow> kt_obj kworld \<Rightarrow> bool" where
  "kt_live s w \<longleftrightarrow> locked w = {} \<and> armed w = {} \<and>
     held w = {kt_miscdev, kt_kobj, kt_group} \<union> (if producer_task s = None then {} else {producer})"

lemma kt_live_start:
  "kt_live s w \<Longrightarrow> start_producer run s = (s', cs, ret) \<Longrightarrow>
   \<exists>w'. kruns w cs = Some w' \<and> kt_live s' w'"
  by (auto simp: kt_live_def start_producer_def split: if_splits sum.splits)

lemma kt_live_stop:
  "kt_live s w \<Longrightarrow> stop_producer s = (s', cs, ret) \<Longrightarrow>
   \<exists>w'. kruns w cs = Some w' \<and> kt_live s' w'"
  by (auto simp: kt_live_def stop_producer_def Let_def split: option.splits)

lemma kt_live_control:
  assumes "kt_live s w" "control_store K run buf s = (s', cs, r)"
  shows "\<exists>w'. kruns w cs = Some w' \<and> kt_live s' w'"
  using assms kt_live_start[OF assms(1), of run] kt_live_stop[OF assms(1)]
  by (auto simp: control_store_def Let_def split: if_splits prod.splits)

lemma kt_live_fields:
  "kt_live s w \<Longrightarrow> producer_task s' = producer_task s \<Longrightarrow> kt_live s' w"
  by (simp add: kt_live_def)

lemma kt_live_serve:
  assumes "kt_live s w" "kt_serve K srfb s p = (s', t)"
  shows "\<exists>w'. kruns w t = Some w' \<and> kt_live s' w'"
proof (cases p)
  case (Pass u)
  have "producer_task (produce u s) = producer_task s" by (simp add: produce_def Let_def)
  with assms Pass show ?thesis by (auto simp: kt_live_def)
next
  case (Read n pos)
  with assms show ?thesis
    by (cases "pos = 0") (auto simp: kt_live_def kthread_demo_read_def Let_def)
next
  case (Control run buf)
  with assms kt_live_control show ?thesis by (auto split: prod.splits)
qed (use assms in \<open>auto simp: status_show_def kt_live_def Let_def\<close>)

interpretation kt_session: module_session
    "\<lambda>(e, s). kthreads_init e (s\<lparr>producer_task := None\<rparr>)" "kt_serve K srfb" kthreads_exit kt_live
  for K srfb
proof
  fix es s t x
  assume "(case es of (e, s) \<Rightarrow> kthreads_init e (s\<lparr>producer_task := None\<rparr>)) = (s, t, Some x)"
  then show "kruns quiet t = Some quiet"
    by (auto simp: kthreads_init_def start_producer_def quiet_iff
        split: prod.splits option.splits if_splits sum.splits)
next
  fix es s t
  assume "(case es of (e, s) \<Rightarrow> kthreads_init e (s\<lparr>producer_task := None\<rparr>)) = (s, t, None)"
  then show "\<exists>w. kruns quiet t = Some w \<and> kt_live s w"
    by (auto simp: kthreads_init_def start_producer_def kt_live_def
        split: prod.splits option.splits if_splits sum.splits)
next
  fix s w p s' t
  show "kt_live s w \<Longrightarrow> kt_serve K srfb s p = (s', t) \<Longrightarrow>
      \<exists>w'. kruns w t = Some w' \<and> kt_live s' w'" by (rule kt_live_serve)
next
  fix s w
  show "kt_live s w \<Longrightarrow> kruns w (kthreads_exit s) = Some quiet"
    by (auto simp: kt_live_def kthreads_exit_def kthreads_exit_rest_def stop_producer_def
        quiet_iff Let_def split: option.splits)
qed

section \<open>Properties\<close>

text \<open>C2: what the ring holds. From any state with a well-formed ring, after any number
  of passes of the producer the buffered items are the last 16 of what was buffered before
  followed by the new items, in the order of production; the new items carry consecutive
  sequence numbers and the clock readings of their passes.\<close>

theorem ring_keeps_newest:
  assumes "ring_inv s"
  shows "ring_items (fold produce ts s) =
    last_n 16 (ring_items s @ map (\<lambda>k. \<lparr>seq = next_seq s + of_nat k, ns = ts ! k\<rparr>) [0..<length ts])"
  using rq.contents_puts[OF assms, of ts] by (simp add: elems_produce)

lemma kt_static_inv: "ring_inv kt_static"
  by (simp add: ring_inv_def kt_static_def)

lemma kt_static_simps [simp]: "ring_items kt_static = []" "next_seq kt_static = 0"
  by (simp_all add: ring_items_def kt_static_def)

theorem ring_keeps_newest_witness:
  "map seq (ring_items (fold produce [7, 8, 9] kt_static)) = [0, 1, 2]"
  using ring_keeps_newest[OF kt_static_inv, of "[7, 8, 9]"]
  by (simp add: last_n_def upt_rec)

text \<open>Nothing is unaccounted for. Along any run of producer passes, reads and
  control writes, the numbers produced since the start equal the items handed to readers,
  plus the items counted as dropped, plus the change of what is buffered (modulo
  \<open>2 ^ 64\<close>, the width of the counters).\<close>

lemma produced_balance:
  assumes "ring_inv s"
  shows "next_seq (foldl (kt_step K srfb) s ps) + dropped_count s + of_nat (length (ring_items s)) =
    next_seq s + dropped_count (foldl (kt_step K srfb) s ps) +
    of_nat (length (ring_items (foldl (kt_step K srfb) s ps))) + of_nat (drained_all K srfb s ps)"
  using assms
proof (induction ps arbitrary: s)
  case Nil
  then show ?case by simp
next
  case (Cons p ps)
  show ?case
    using chain_balance[OF Cons.IH[OF kt_step_inv[OF Cons.prems], of K srfb p]
        kt_step_balance[OF Cons.prems, of K srfb p]]
    by simp
qed

text \<open>C32: a drain delivers everything. A read at offset zero with room for the whole
  snapshot empties the ring; if the sequence numbers are below \<open>10 ^ 12\<close> and the clock below
  \<open>10 ^ 18\<close> ns (31 years), the text it returns is the line of every buffered item, oldest
  first, with none cut off by the 640-byte snapshot. If the copy to the user fails the items
  are gone all the same.\<close>

theorem read_drains_all:
  assumes "srfb_documented srfb" and "ring_inv s"
    and "\<forall>it \<in> set (ring_items s). small_item it" and "640 \<le> count"
  shows "let (s', cs, r) = kthread_demo_read srfb count 0 s;
             text = concat (map fmt_item (ring_items s))
         in ring_items s' = [] \<and> lock_balanced cs \<and>
            (r = Inr (text, int (length text)) \<or> r = Inl EFAULT)"
proof -
  let ?text = "concat (map fmt_item (ring_items s))"
  have l: "length (ring_items s) \<le> 16" by (rule rq.contents_bound[OF assms(2)])
  have snap: "snapshot_loop (ring_items s) [] = ?text"
    by (rule snapshot_complete[OF l assms(3)])
  have "length ?text \<le> 39 * 16"
    using length_concat_items[OF assms(3)] l by simp
  with assms(4) have t: "take count ?text = ?text" by simp
  have "srfb count 0 ?text = Inr (?text, int (length ?text)) \<or> srfb count 0 ?text = Inl EFAULT"
    using srfbD[OF assms(1), of 0 count ?text] t by simp
  moreover have "kthread_demo_read srfb count 0 s =
      (drain_ring s, [Lock ring_lock, Unlock ring_lock], srfb count 0 ?text)"
    by (simp add: kthread_demo_read_def drain_ring_def snap)
  ultimately show ?thesis
    using rq.contents_drain[OF assms(2)] by (simp add: Let_def lock_balanced_def del: length_concat)
qed

theorem read_drains_all_witness:
  "snd (snd (kthread_demo_read ref_srfb 640 0 (produce 5 kt_static))) =
     Inr (fmt_item \<lparr>seq = 0, ns = 5\<rparr>, int (length (fmt_item \<lparr>seq = 0, ns = 5\<rparr>)))"
proof -
  have items: "ring_items (produce 5 kt_static) = [\<lparr>seq = 0, ns = 5\<rparr>]"
    using ring_keeps_newest[OF kt_static_inv, of "[5]"] by (simp add: last_n_def)
  have "\<forall>it \<in> set (ring_items (produce 5 kt_static)). small_item it"
    by (simp add: items small_item_def)
  from read_drains_all[OF ref_srfb_documented ring_inv_produce[OF kt_static_inv] this, of 640]
  show ?thesis
    by (auto simp: items Let_def kthread_demo_read_def ref_srfb_def split: prod.splits)
qed

text \<open>The producer stops when told to. Whatever the answers of
  \<open>kthread_should_stop\<close>, the thread function has returned exactly when one of them was
  yes, it has then produced one item for each no before it and nothing after, and it
  holds no lock.\<close>

theorem producer_stops:
  "let (s', cs, returned) = producer_thread_fn es s in
     s' = fold produce (map snd (takeWhile (\<lambda>e. \<not> fst e) es)) s \<and>
     (returned \<longleftrightarrow> True \<in> fst ` set es) \<and> lock_balanced cs"
proof (induction es s rule: producer_thread_fn.induct)
  case (1 s)
  then show ?case by simp
next
  case (2 should_stop t es s)
  show ?case
  proof (cases should_stop)
    case True
    then show ?thesis by force
  next
    case False
    with 2 show ?thesis
      by (auto simp: Let_def lock_balanced_def image_iff split: prod.splits)
  qed
qed

text \<open>At most one producer. From an unloaded module, however the module is loaded
  and whatever reads, passes and control writes follow, every start acquires a task only
  when none is held and every stop releases the one that is; an exit that nothing
  interrupts then leaves no task, no file and no lock behind.\<close>

theorem kthreads_session_clean:
  assumes "kthreads_init e (s\<lparr>producer_task := None\<rparr>) = (s1, t1, None)"
    and "serve_all (kt_serve K srfb) s1 ps = (s2, t2)"
  shows "kruns quiet (t1 @ t2 @ kthreads_exit s2) = Some quiet"
  using kt_session.session_quiet[of "(e, s)" s1 t1 K srfb ps s2 t2] assms by simp

theorem kthreads_session_clean_witness:
  "kruns quiet
     ([Acquire kt_miscdev, Acquire kt_kobj, Acquire kt_group, Lock producer_task_lock,
       Acquire producer, Unlock producer_task_lock] @ [Lock ring_lock, Unlock ring_lock] @
      [Lock producer_task_lock, Unlock producer_task_lock, Release producer,
       Release kt_group, Release kt_kobj, Release kt_miscdev]) = Some quiet"
proof -
  let ?e = "\<lparr>e_misc = None, e_kobj = True, e_group = None, e_run = Inr 7\<rparr>"
  let ?s1 = "kt_static\<lparr>producer_task := Some 7\<rparr>"
  have "kthreads_init ?e (kt_static\<lparr>producer_task := None\<rparr>) =
      (?s1, [Acquire kt_miscdev, Acquire kt_kobj, Acquire kt_group, Lock producer_task_lock,
             Acquire producer, Unlock producer_task_lock], None)"
    by (simp add: kthreads_init_def start_producer_def)
  moreover have "serve_all (kt_serve ref_kstr ref_srfb) ?s1 [Pass 3] =
      (produce 3 ?s1, [Lock ring_lock, Unlock ring_lock])" by simp
  moreover have "producer_task (produce 3 ?s1) = Some 7" by (simp add: produce_def Let_def)
  ultimately show ?thesis
    using kthreads_session_clean[of ?e kt_static ?s1 _ ref_kstr ref_srfb "[Pass 3]" "produce 3 ?s1"]
    by (simp add: kthreads_exit_def kthreads_exit_rest_def stop_producer_def)
qed

lemma control_start:
  assumes "kstr_documented K" "producer_task s = None"
  shows "control_store K (Inr pid) ''start'' s = (s\<lparr>producer_task := Some pid\<rparr>,
    [Lock producer_task_lock, Acquire producer, Unlock producer_task_lock], Inr 5)"
proof -
  have "strim K ''start'' = ''start''"
    by (simp add: strimD[OF assms(1)] ascii_def kstrip_tight tight_def isspace_def)
  then show ?thesis
    using assms(2) by (simp add: control_store_def cstr_id streqD[OF assms(1)] start_producer_def Let_def)
qed

text \<open>The load can be overtaken too: the files exist before the init function starts its producer. A
  start written in between makes it fail with \<open>-EEXIST\<close>, and the unwinding leaves that producer.\<close>

lemma init_leaves_producer:
  assumes "kstr_documented K"
  shows "let files = [Acquire kt_miscdev, Acquire kt_kobj, Acquire kt_group];
             (s0, c0, r0) = control_store K (Inr pid) ''start'' kt_static;
             (s1, c1, r1) = kthreads_init \<lparr>e_misc = None, e_kobj = True, e_group = None, e_run = run\<rparr> s0
         in r1 = Some EEXIST \<and> take 3 c1 = files \<and>
            map_option held (kruns quiet (files @ c0 @ drop 3 c1)) = Some {producer}"
  by (simp add: control_start[OF assms] kt_static_def kthreads_init_def start_producer_def Let_def insert_Diff_if)

text \<open>The exit can be overtaken. The exit function stops the producer while the
  control file still exists; a start written between that and the removal of the file
  is accepted, and when the module is gone its producer task is still there.\<close>

theorem exit_leaves_producer:
  assumes "kstr_documented K" and "kt_live s w" and "stop_producer s = (s1, c1, ret)"
    and "control_store K (Inr pid) ''start'' s1 = (s2, c2, r)"
  shows "r = Inr 5 \<and> (\<exists>w'. kruns w (c1 @ c2 @ kthreads_exit_rest) = Some w' \<and> held w' = {producer})"
proof -
  have p: "producer_task s1 = None" using assms(3) by (auto simp: stop_producer_def Let_def split: option.splits)
  note c = control_start[OF assms(1) p, of pid]
  obtain w1 where w1: "kruns w c1 = Some w1" "kt_live s1 w1"
    using kt_live_stop[OF assms(2,3)] by blast
  with p c assms(4) show ?thesis
    by (auto simp: kthreads_exit_rest_def kt_live_def)
qed

theorem exit_leaves_producer_witness:
  "\<exists>w'. kruns \<lparr>locked = {}, held = {kt_miscdev, kt_kobj, kt_group, producer}, armed = {}\<rparr>
     ([Lock producer_task_lock, Unlock producer_task_lock, Release producer] @
      [Lock producer_task_lock, Acquire producer, Unlock producer_task_lock] @
      kthreads_exit_rest) = Some w' \<and> held w' = {producer}"
proof -
  let ?s = "kt_static\<lparr>producer_task := Some 7\<rparr>"
  let ?s1 = "?s\<lparr>producer_task := None\<rparr>"
  have "kt_live ?s \<lparr>locked = {}, held = {kt_miscdev, kt_kobj, kt_group, producer}, armed = {}\<rparr>"
    by (auto simp: kt_live_def)
  moreover have "stop_producer ?s =
      (?s1, [Lock producer_task_lock, Unlock producer_task_lock, Release producer], None)"
    by (simp add: stop_producer_def)
  moreover have "control_store ref_kstr (Inr 8) ''start'' ?s1 = (?s1\<lparr>producer_task := Some 8\<rparr>,
      [Lock producer_task_lock, Acquire producer, Unlock producer_task_lock], Inr 5)"
    by (simp add: control_store_def cstr_def ref_kstr_def kstrip_def isspace_def start_producer_def Let_def)
  ultimately show ?thesis
    using exit_leaves_producer[OF ref_kstr_documented] by blast
qed

end
