(* ===== verification/Chunked_Read.thy ===== *)
theory Chunked_Read
  imports KPrelude
begin

text \<open>
  The contract of a \<open>read()\<close> that serves a fixed text from the file offset, and what a
  reader that calls it until end of file (as \<open>cat\<close> does) gets from it.
\<close>

fun cat :: "(nat \<Rightarrow> int \<Rightarrow> errno + ('b list \<times> int)) \<Rightarrow> nat \<Rightarrow> nat \<Rightarrow> int \<Rightarrow> (errno + 'b list) option" where
  \<comment> \<open>reads of \<open>n\<close> bytes from offset \<open>pos\<close> until one returns nothing; the third argument
      bounds the number of calls, and \<open>None\<close> means it did not suffice\<close>
  "cat rd n 0 pos = None"
| "cat rd n (Suc calls) pos =
     (case rd n pos of
        Inl e \<Rightarrow> Some (Inl e)
      | Inr (bs, pos') \<Rightarrow>
          if bs = [] then Some (Inr [])
          else map_option (map_sum id ((@) bs)) (cat rd n calls pos'))"

locale chunked_reader =
  fixes rd :: "'s \<Rightarrow> nat \<Rightarrow> int \<Rightarrow> errno + ('b list \<times> int)"
    and src :: "'s \<Rightarrow> 'b list"
    and invar :: "'s \<Rightarrow> bool"
  assumes rd: "invar s \<Longrightarrow> 0 \<le> pos \<Longrightarrow>
    rd s n pos =
      Inr (take n (drop (nat pos) (src s)), pos + int (length (take n (drop (nat pos) (src s)))))"
begin

lemma cat_rest:
  "invar s \<Longrightarrow> 0 < n \<Longrightarrow> 0 \<le> pos \<Longrightarrow> length (src s) - nat pos < calls \<Longrightarrow>
   cat (rd s) n calls pos = Some (Inr (drop (nat pos) (src s)))"
proof (induction calls arbitrary: pos)
  case 0
  then show ?case by simp
next
  case (Suc calls)
  let ?bs = "take n (drop (nat pos) (src s))"
  show ?case
  proof (cases "nat pos < length (src s)")
    case False
    then show ?thesis using Suc.prems by (simp add: rd)
  next
    case True
    with Suc.prems have ne: "?bs \<noteq> []" and len: "0 < length ?bs" by auto
    let ?pos' = "pos + int (length ?bs)"
    have p': "nat ?pos' = length ?bs + nat pos" using Suc.prems(3) by (simp add: nat_add_distrib)
    have "length (src s) - nat ?pos' < calls"
      unfolding p' using Suc.prems(4) True len by linarith
    with Suc.IH[of ?pos'] Suc.prems(1-3)
    have IH: "cat (rd s) n calls ?pos' = Some (Inr (drop (nat ?pos') (src s)))" by simp
    have "drop (nat ?pos') (src s) = drop (length ?bs) (drop (nat pos) (src s))"
      by (simp only: p' drop_drop)
    also have "\<dots> = drop n (drop (nat pos) (src s))"
      by (cases "n \<le> length (drop (nat pos) (src s))") simp_all
    finally have "?bs @ drop (nat ?pos') (src s) = drop (nat pos) (src s)"
      by (simp only: append_take_drop_id)
    with IH Suc.prems ne show ?thesis by (simp add: rd)
  qed
qed

lemma cat_all:
  "invar s \<Longrightarrow> 0 < n \<Longrightarrow> length (src s) < calls \<Longrightarrow> cat (rd s) n calls 0 = Some (Inr (src s))"
  using cat_rest[of s n 0 calls] by simp

end

end
