(* ===== verification/ReadWriteCdev.thy ===== *)
theory ReadWriteCdev
  imports KernelAPI Chunked_Read
begin

text \<open>
  \<^verbatim>\<open>09_read_write_cdev/read_write_cdev.c\<close>: a character device over one 4096-byte
  buffer with a read and write position per open file. The device is shown to behave as a
  bounded file: its contents are the first \<open>data_len\<close> bytes of the buffer.
\<close>

section \<open>State\<close>

datatype rw_obj = buf_lock | rw_buffer | chrdev_region | rw_cdev | rw_class | rw_device

abbreviation BUF_SIZE :: nat where "BUF_SIZE \<equiv> 4096"

record rw_state =
  buffer :: "u8 list"
  data_len :: nat

section \<open>Operations\<close>

definition overwrite :: "nat \<Rightarrow> 'b list \<Rightarrow> 'b list \<Rightarrow> 'b list" where
  \<comment> \<open>the buffer after \<open>xs\<close> has been stored at index \<open>p\<close>\<close>
  "overwrite p xs buf = take p buf @ xs @ drop (p + length xs) buf"

definition rw_open :: "string \<Rightarrow> int \<Rightarrow> string list \<times> errno option" where
  \<comment> \<open>the log line, and success\<close>
  "rw_open comm pid = ([''open: ctx='' @ comm @ ''['' @ fmt_d pid @ '']''], None)"

definition rw_release :: "string \<Rightarrow> int \<Rightarrow> string list \<times> errno option" where
  "rw_release comm pid = ([''release: ctx='' @ comm @ ''['' @ fmt_d pid @ '']''], None)"

text \<open>
  Each operation gets the file position and returns the new one. \<open>ctu\<close> is
  \<open>copy_to_user\<close> (the number of bytes it could not copy), \<open>cfu\<close> is \<open>copy_from_user\<close>. A
  read returns the bytes it delivered, a write the number of bytes it took.
\<close>

definition rw_read ::
    "(u8 list \<Rightarrow> nat) \<Rightarrow> nat \<Rightarrow> int \<Rightarrow> rw_state \<Rightarrow> int \<times> rw_obj kcall list \<times> (errno + u8 list)" where
  "rw_read ctu count ppos s =
     (if ppos < 0 \<or> nat ppos \<ge> data_len s then
        (ppos, [Lock buf_lock, Unlock buf_lock], Inr [])
      else
        (let available = data_len s - nat ppos;
             to_copy = min count available;
             out = take to_copy (drop (nat ppos) (buffer s))
         in if ctu out \<noteq> 0 then (ppos, [Lock buf_lock, Unlock buf_lock], Inl EFAULT)
            else (ppos + int to_copy, [Lock buf_lock, Unlock buf_lock], Inr out)))"

definition rw_write ::
    "(u8 list \<Rightarrow> u8 list \<times> nat) \<Rightarrow> u8 list \<Rightarrow> int \<Rightarrow> rw_state \<Rightarrow>
     rw_state \<times> int \<times> rw_obj kcall list \<times> (errno + nat)" where
  "rw_write cfu buf ppos s =
     (if ppos < 0 \<or> nat ppos \<ge> BUF_SIZE then
        (s, ppos, [Lock buf_lock, Unlock buf_lock], Inl ENOSPC)
      else
        (let space = BUF_SIZE - nat ppos;
             to_copy = min (length buf) space;
             (landed, left) = cfu (take to_copy buf);
             s1 = s\<lparr>buffer := overwrite (nat ppos) landed (buffer s)\<rparr>
         in if left \<noteq> 0 then (s1, ppos, [Lock buf_lock, Unlock buf_lock], Inl EFAULT)
            else
              (let ppos' = ppos + int to_copy;
                   s2 = (if nat ppos' > data_len s1 then s1\<lparr>data_len := nat ppos'\<rparr> else s1)
               in (s2, ppos', [Lock buf_lock, Unlock buf_lock], Inr to_copy))))"

text \<open>\<open>fsl\<close> is \<open>fixed_size_llseek\<close>: position, offset, whence, size.\<close>

definition rw_llseek :: "(int \<Rightarrow> int \<Rightarrow> nat \<Rightarrow> nat \<Rightarrow> errno + int) \<Rightarrow> int \<Rightarrow> int \<Rightarrow> nat \<Rightarrow> errno + int" where
  "rw_llseek fsl pos offset whence = fsl pos offset whence BUF_SIZE"

text \<open>
  What the source relies on: \<open>SEEK_SET\<close> (0), \<open>SEEK_CUR\<close> (1) and \<open>SEEK_END\<close> (2) against
  the size, and nothing outside \<open>[0, size]\<close>.
\<close>

definition fsl_documented :: "(int \<Rightarrow> int \<Rightarrow> nat \<Rightarrow> nat \<Rightarrow> errno + int) \<Rightarrow> bool" where
  "fsl_documented fsl \<longleftrightarrow>
     (\<forall>pos off whence size.
        let target = (if whence = 0 then off else if whence = 1 then pos + off else int size + off)
        in whence \<le> 2 \<longrightarrow>
           fsl pos off whence size =
             (if 0 \<le> target \<and> target \<le> int size then Inr target else Inl EINVAL))"

section \<open>Loading and unloading\<close>

text \<open>
  The outcomes of the allocation and of the four registration steps; the buffer that
  \<open>kzalloc\<close> returns is zeroed.
\<close>

record rw_env =
  e_kzalloc :: bool
  e_region :: "errno option"
  e_cdev_add :: "errno option"
  e_class :: "errno option"
  e_device :: "errno option"

definition read_write_cdev_init :: "rw_env \<Rightarrow> rw_state \<times> rw_obj kcall list \<times> errno option" where
  "read_write_cdev_init e =
     (let s = \<lparr>buffer = replicate BUF_SIZE 0, data_len = 0\<rparr>;
          err_free_buffer = [Release rw_buffer];
          err_unregister_region = Release chrdev_region # err_free_buffer;
          err_del_cdev = Release rw_cdev # err_unregister_region;
          err_destroy_class = Release rw_class # err_del_cdev
      in if \<not> e_kzalloc e then (s\<lparr>buffer := []\<rparr>, [], Some ENOMEM)
         else (case e_region e of
           Some x \<Rightarrow> (s, Acquire rw_buffer # err_free_buffer, Some x)
         | None \<Rightarrow> (case e_cdev_add e of
           Some x \<Rightarrow> (s, [Acquire rw_buffer, Acquire chrdev_region] @ err_unregister_region, Some x)
         | None \<Rightarrow> (case e_class e of
           Some x \<Rightarrow> (s, [Acquire rw_buffer, Acquire chrdev_region, Acquire rw_cdev] @ err_del_cdev, Some x)
         | None \<Rightarrow> (case e_device e of
           Some x \<Rightarrow> (s, [Acquire rw_buffer, Acquire chrdev_region, Acquire rw_cdev, Acquire rw_class]
                        @ err_destroy_class, Some x)
         | None \<Rightarrow> (s, [Acquire rw_buffer, Acquire chrdev_region, Acquire rw_cdev, Acquire rw_class,
                       Acquire rw_device], None))))))"

definition read_write_cdev_exit :: "rw_obj kcall list" where
  "read_write_cdev_exit =
     [Release rw_device, Release rw_class, Release rw_cdev, Release chrdev_region, Release rw_buffer]"

section \<open>The device as a machine\<close>

datatype rw_op =
    Rw_read "u8 list \<Rightarrow> nat" nat int
  | Rw_write "u8 list \<Rightarrow> u8 list \<times> nat" "u8 list" int

fun rw_step :: "rw_state \<Rightarrow> rw_op \<Rightarrow> rw_state" where
  "rw_step s (Rw_read ctu n pos) = s"
| "rw_step s (Rw_write cfu buf pos) = fst (rw_write cfu buf pos s)"

fun rw_calls :: "rw_state \<Rightarrow> rw_op \<Rightarrow> rw_obj kcall list" where
  "rw_calls s (Rw_read ctu n pos) = fst (snd (rw_read ctu n pos s))"
| "rw_calls s (Rw_write cfu buf pos) = fst (snd (snd (rw_write cfu buf pos s)))"

definition rw_inv :: "rw_state \<Rightarrow> bool" where
  "rw_inv s \<longleftrightarrow> length (buffer s) = BUF_SIZE \<and> data_len s \<le> BUF_SIZE"

text \<open>\<open>copy_from_user\<close> writes the destination over the length it was given.\<close>

fun rw_ok :: "rw_op \<Rightarrow> bool" where
  "rw_ok (Rw_write cfu buf pos) = cfu_documented cfu"
| "rw_ok _ = True"

lemma length_overwrite:
  "p + length xs \<le> length buf \<Longrightarrow> length (overwrite p xs buf) = length buf"
  by (simp add: overwrite_def)

lemma cfu_length: "cfu_documented cfu \<Longrightarrow> cfu src = (landed, left) \<Longrightarrow> length landed = length src"
  by (metis cfu_documented_def fst_conv)

lemma cfu_success: "cfu_documented cfu \<Longrightarrow> cfu src = (landed, 0) \<Longrightarrow> landed = src"
  by (metis cfu_documented_def fst_conv snd_conv)

lemma rw_write_inv:
  assumes "rw_inv s" "cfu_documented cfu"
  shows "rw_inv (fst (rw_write cfu buf pos s))"
proof -
  obtain landed left where c: "cfu (take (min (length buf) (BUF_SIZE - nat pos)) buf) = (landed, left)"
    by fastforce
  from cfu_length[OF assms(2) c]
  have len: "length landed = min (length buf) (BUF_SIZE - nat pos)" by simp
  show ?thesis
  proof (cases "pos < 0 \<or> nat pos \<ge> BUF_SIZE")
    case True
    with assms(1) show ?thesis by (simp add: rw_write_def)
  next
    case False
    from len have "length landed \<le> BUF_SIZE - nat pos" by simp
    moreover from False have "nat pos < BUF_SIZE" by simp
    ultimately have "nat pos + length landed \<le> BUF_SIZE" by linarith
    with False assms(1) c len show ?thesis
      by (simp add: rw_write_def Let_def rw_inv_def length_overwrite nat_add_distrib)
  qed
qed

interpretation rw: invariant_machine rw_step rw_inv rw_ok
proof
  fix s p assume "rw_inv s" "rw_ok p"
  then show "rw_inv (rw_step s p)" by (cases p) (simp_all add: rw_write_inv)
qed

section \<open>The device as a file\<close>

definition contents :: "rw_state \<Rightarrow> u8 list" where
  "contents s = take (data_len s) (buffer s)"

definition zero_tail :: "rw_state \<Rightarrow> bool" where
  \<comment> \<open>the part of the buffer no write has reached is still as \<open>kzalloc\<close> left it\<close>
  "zero_tail s \<longleftrightarrow> drop (data_len s) (buffer s) = replicate (BUF_SIZE - data_len s) 0"

definition file_write :: "nat \<Rightarrow> nat \<Rightarrow> u8 list \<Rightarrow> u8 list \<Rightarrow> u8 list" where
  \<comment> \<open>writing \<open>xs\<close> at offset \<open>p\<close> of a file of at most \<open>cap\<close> bytes: a gap reads as zeroes\<close>
  "file_write cap p xs data =
     (let xs' = take (cap - p) xs
      in take p (data @ replicate (p - length data) 0) @ xs' @ drop (p + length xs') data)"

lemma nth_overwrite:
  assumes "p + length xs \<le> length buf" "i < length buf"
  shows "overwrite p xs buf ! i =
    (if i < p then buf ! i else if i < p + length xs then xs ! (i - p) else buf ! i)"
  using assms by (auto simp: overwrite_def nth_append min_def)

lemma take_length_take: "take (length (take k xs)) xs = take k xs"
  by (cases "k \<le> length xs") simp_all

lemma take_length_append: "take (length a) (a @ b) = a"
  by simp

lemma take_overwrite: "p \<le> length buf \<Longrightarrow> take p (overwrite p xs buf) = take p buf"
  by (simp add: overwrite_def)

lemma mid_overwrite:
  "p \<le> length buf \<Longrightarrow> length xs = n \<Longrightarrow> take n (drop p (overwrite p xs buf)) = xs"
  by (auto simp: overwrite_def)

lemma rw_write_success:
  assumes "cfu_documented cfu" "0 \<le> pos" "nat pos < BUF_SIZE"
    and "rw_write cfu buf pos s = (s', pos', cs, Inr n)"
  defines "xs \<equiv> take (BUF_SIZE - nat pos) buf"
  shows "buffer s' = overwrite (nat pos) xs (buffer s)"
    and "data_len s' = max (data_len s) (nat pos + length xs)"
    and "n = length xs" and "pos' = pos + int n"
proof -
  obtain landed left where c: "cfu (take (min (length buf) (BUF_SIZE - nat pos)) buf) = (landed, left)"
    by fastforce
  have xs: "take (min (length buf) (BUF_SIZE - nat pos)) buf = xs"
    by (cases "length buf \<le> BUF_SIZE - nat pos") (simp_all add: xs_def min_def)
  have "left = 0"
    using assms(2-4) c by (auto simp: rw_write_def Let_def split: if_splits)
  with cfu_success[OF assms(1)] c have l: "landed = xs" by (simp add: xs)
  have len: "min (length buf) (BUF_SIZE - nat pos) = length xs" by (simp add: xs_def min.commute)
  show "buffer s' = overwrite (nat pos) xs (buffer s)"
    and "data_len s' = max (data_len s) (nat pos + length xs)"
    and "n = length xs" and "pos' = pos + int n"
    using assms(2-4) c \<open>left = 0\<close> l
    by (auto simp: rw_write_def Let_def len nat_add_distrib split: if_splits)
qed

lemma buffer_split:
  assumes "rw_inv s" "zero_tail s" "i < BUF_SIZE"
  shows "buffer s ! i = (if i < data_len s then contents s ! i else 0)"
proof (cases "i < data_len s")
  case True
  then show ?thesis by (simp add: contents_def)
next
  case False
  have "buffer s ! i = drop (data_len s) (buffer s) ! (i - data_len s)"
    using False assms by (simp add: rw_inv_def)
  also have "\<dots> = 0" using False assms by (simp add: zero_tail_def)
  finally show ?thesis using False by simp
qed

lemma length_contents: "rw_inv s \<Longrightarrow> length (contents s) = data_len s"
  by (simp add: contents_def rw_inv_def)

lemma write_zero_tail:
  assumes "rw_inv s" "zero_tail s" "p + length xs \<le> BUF_SIZE"
    and s': "buffer s' = overwrite p xs (buffer s)" "data_len s' = max (data_len s) (p + length xs)"
  shows "zero_tail s'"
  unfolding zero_tail_def
proof (rule nth_equalityI)
  have len: "length (buffer s') = BUF_SIZE"
    using assms by (simp add: length_overwrite rw_inv_def)
  then show "length (drop (data_len s') (buffer s')) = length (replicate (BUF_SIZE - data_len s') (0 :: u8))"
    by simp
  fix i assume "i < length (drop (data_len s') (buffer s'))"
  then have i: "data_len s' + i < BUF_SIZE" by (simp add: len)
  have "p + length xs \<le> data_len s' + i" by (simp add: s'(2))
  then have "buffer s' ! (data_len s' + i) = buffer s ! (data_len s' + i)"
    unfolding s'(1) using nth_overwrite[of p xs "buffer s" "data_len s' + i"] assms(1,3) i
    by (simp add: rw_inv_def)
  also have "\<dots> = 0"
  proof -
    have "\<not> data_len s' + i < data_len s" by (simp add: s'(2))
    with buffer_split[OF assms(1,2) i] show ?thesis by simp
  qed
  finally show "drop (data_len s') (buffer s') ! i = replicate (BUF_SIZE - data_len s') 0 ! i"
    using i len by simp
qed

text \<open>What is behind the end of the file matters only for a write that leaves a gap.\<close>

lemma write_contents:
  assumes "rw_inv s" "zero_tail s \<or> p \<le> data_len s" "p < BUF_SIZE"
    and "xs = take (BUF_SIZE - p) buf"
    and s': "buffer s' = overwrite p xs (buffer s)" "data_len s' = max (data_len s) (p + length xs)"
  shows "contents s' = file_write BUF_SIZE p buf (contents s)"
proof (rule nth_equalityI)
  have b: "p + length xs \<le> BUF_SIZE" using assms(3,4) by simp
  have len: "length (buffer s') = BUF_SIZE"
    using assms(1) b by (simp add: s' length_overwrite rw_inv_def)
  have lc: "length (contents s) = data_len s" "data_len s \<le> BUF_SIZE"
    using assms(1) by (simp_all add: contents_def rw_inv_def)
  have fw: "file_write BUF_SIZE p buf (contents s) =
      take p (contents s @ replicate (p - data_len s) 0) @ xs @ drop (p + length xs) (contents s)"
    by (simp add: file_write_def assms(4) Let_def lc)
  show "length (contents s') = length (file_write BUF_SIZE p buf (contents s))"
    using b lc len by (simp add: fw contents_def[of s'] s' max_def) linarith
  fix i assume "i < length (contents s')"
  then have i: "i < max (data_len s) (p + length xs)" "i < BUF_SIZE"
    using len by (simp_all add: contents_def s')
  have tail: "buffer s ! i = (if i < data_len s then contents s ! i else 0)" if "i < p \<or> p + length xs \<le> i"
    using assms(2)
  proof
    assume "zero_tail s"
    with assms(1) i(2) show ?thesis by (rule_tac buffer_split)
  next
    assume "p \<le> data_len s"
    with that i have "i < data_len s" by auto
    then show ?thesis by (simp add: contents_def)
  qed
  have "contents s' ! i = overwrite p xs (buffer s) ! i"
    using i by (simp add: contents_def s')
  also have "\<dots> = (if i < p then if i < data_len s then contents s ! i else 0
      else if i < p + length xs then xs ! (i - p) else contents s ! i)"
    using i b assms(1) tail by (auto simp: nth_overwrite rw_inv_def less_max_iff_disj)
  also have "\<dots> = file_write BUF_SIZE p buf (contents s) ! i"
    using i lc by (auto simp: fw nth_append min_def)
  finally show "contents s' ! i = file_write BUF_SIZE p buf (contents s) ! i" .
qed

section \<open>Reading to the end of the file\<close>

definition rw_rd :: "rw_state \<Rightarrow> nat \<Rightarrow> int \<Rightarrow> errno + (u8 list \<times> int)" where
  \<comment> \<open>a read whose copy succeeds, as bytes and new position\<close>
  "rw_rd s n pos = (let (pos', cs, r) = rw_read (\<lambda>_. 0) n pos s in map_sum id (\<lambda>bs. (bs, pos')) r)"

lemma rw_rd_eq:
  assumes "rw_inv s" "0 \<le> pos"
  shows "rw_rd s n pos = Inr (take n (drop (nat pos) (contents s)),
    pos + int (length (take n (drop (nat pos) (contents s)))))"
proof (cases "nat pos < data_len s")
  case True
  have "take (min n (data_len s - nat pos)) (drop (nat pos) (buffer s))
      = take n (drop (nat pos) (contents s))"
    by (simp add: contents_def drop_take)
  moreover have "length (take n (drop (nat pos) (contents s))) = min n (data_len s - nat pos)"
    using assms(1) by (simp add: length_contents min.commute)
  ultimately show ?thesis
    using True assms(2) by (simp add: rw_rd_def rw_read_def Let_def del: length_take length_drop)
next
  case False
  then show ?thesis using assms by (simp add: rw_rd_def rw_read_def length_contents)
qed

interpretation rw_reader: chunked_reader rw_rd contents rw_inv
  by unfold_locales (rule rw_rd_eq)

section \<open>Lock balance, loading and unloading\<close>

lemma rw_read_calls: "fst (snd (rw_read ctu n pos s)) = [Lock buf_lock, Unlock buf_lock]"
  by (simp add: rw_read_def Let_def)

lemma rw_write_calls: "fst (snd (snd (rw_write cfu buf pos s))) = [Lock buf_lock, Unlock buf_lock]"
  by (simp add: rw_write_def Let_def split: prod.split)

lemma rw_calls_eq: "rw_calls s p = [Lock buf_lock, Unlock buf_lock]"
  by (cases p) (simp_all add: rw_read_calls rw_write_calls)

definition rw_live :: "rw_state \<Rightarrow> rw_obj kworld \<Rightarrow> bool" where
  "rw_live s w \<longleftrightarrow> locked w = {} \<and> armed w = {} \<and>
     held w = {rw_buffer, chrdev_region, rw_cdev, rw_class, rw_device}"

interpretation rw_session: module_session read_write_cdev_init
    "\<lambda>s p. (rw_step s p, rw_calls s p)" "\<lambda>s. read_write_cdev_exit" rw_live
proof
  fix e s t x
  assume "read_write_cdev_init e = (s, t, Some x)"
  then show "kruns quiet t = Some quiet"
    by (auto simp: read_write_cdev_init_def Let_def quiet_iff split: if_splits option.splits)
next
  fix e s t
  assume "read_write_cdev_init e = (s, t, None)"
  then show "\<exists>w. kruns quiet t = Some w \<and> rw_live s w"
    by (auto simp: read_write_cdev_init_def Let_def rw_live_def split: if_splits option.splits)
next
  fix s w p s' t
  assume "rw_live s w" "(rw_step s p, rw_calls s p) = (s', t)"
  then show "\<exists>w'. kruns w t = Some w' \<and> rw_live s' w'"
    by (auto simp: rw_calls_eq rw_live_def)
next
  fix s w
  show "rw_live s w \<Longrightarrow> kruns w read_write_cdev_exit = Some quiet"
    by (auto simp: rw_live_def read_write_cdev_exit_def quiet_iff)
qed

section \<open>Properties\<close>

definition fresh :: rw_state where
  "fresh = \<lparr>buffer = replicate BUF_SIZE 0, data_len = 0\<rparr>"

lemma fresh_simps [simp]: "rw_inv fresh" "zero_tail fresh" "contents fresh = []"
  by (simp_all add: fresh_def rw_inv_def zero_tail_def contents_def)

lemma init_zero_tail: "zero_tail (fst (read_write_cdev_init e)) = e_kzalloc e"
  by (simp add: read_write_cdev_init_def zero_tail_def Let_def split: option.split)

lemma failed_copy_in_gap:
  "\<exists>z bad. rw_inv z \<and> zero_tail z \<and> cfu_documented bad \<and>
     (let (z1, q1, c1, r1) = rw_write bad [9, 8] 0 z; (z2, q2, c2, r2) = rw_write ref_cfu [1] 5 z1
      in r1 = Inl EFAULT \<and> r2 = Inr 1 \<and> contents z2 \<noteq> file_write BUF_SIZE 5 [1] (contents z1))"
proof -
  let ?bad = "\<lambda>src :: u8 list. if src = [9, 8] then ([9, 0], 1) else (src, 0 :: nat)"
  have "cfu_documented ?bad" by (auto simp: cfu_documented_def)
  moreover have "let (z1, q1, c1, r1) = rw_write ?bad [9, 8] 0 fresh; (z2, q2, c2, r2) = rw_write ref_cfu [1] 5 z1
      in r1 = Inl EFAULT \<and> r2 = Inr 1 \<and> hd (contents z2) = 9 \<and>
         hd (file_write BUF_SIZE 5 [1] (contents z1)) = 0"
    by (simp add: rw_write_def fresh_def overwrite_def ref_cfu_def contents_def file_write_def)
  then have "let (z1, q1, c1, r1) = rw_write ?bad [9, 8] 0 fresh; (z2, q2, c2, r2) = rw_write ref_cfu [1] 5 z1
      in r1 = Inl EFAULT \<and> r2 = Inr 1 \<and> contents z2 \<noteq> file_write BUF_SIZE 5 [1] (contents z1)"
    by (auto split: prod.splits)
  ultimately show ?thesis using fresh_simps(1,2) by blast
qed

text \<open>C4: a write is a write to a bounded file, unless it leaves a gap over bytes of a copy that failed. A
  successful write at offset \<open>p\<close> makes the contents those of a 4096-byte file written at \<open>p\<close> (a gap
  reads as zeroes, the part past the end of the buffer is cut off), reports the bytes taken and
  moves the position by as many, provided that \<open>p\<close> is not behind the end of the file or that the buffer behind
  the end is still zero (\<open>zero_tail\<close>). The latter holds when the module is loaded and after every successful
  write; a copy from the user that fails part-way can end it, and then a write that leaves a gap can
  bring bytes of the failed one into the contents.\<close>

theorem rw_write_refines_file:
  assumes "rw_inv s" and "zero_tail s \<or> nat pos \<le> data_len s" and "cfu_documented cfu"
    and "rw_write cfu buf pos s = (s', pos', cs, Inr n)"
  shows "0 \<le> pos \<and> contents s' = file_write BUF_SIZE (nat pos) buf (contents s) \<and>
    n = min (length buf) (BUF_SIZE - nat pos) \<and> pos' = pos + int n \<and> rw_inv s' \<and>
    (if zero_tail s then zero_tail s' else True) \<and> zero_tail (fst (read_write_cdev_init e)) = e_kzalloc e \<and>
    (\<exists>z bad. rw_inv z \<and> zero_tail z \<and> cfu_documented bad \<and>
       (let (z1, q1, c1, r1) = rw_write bad [9, 8] 0 z; (z2, q2, c2, r2) = rw_write ref_cfu [1] 5 z1
        in r1 = Inl EFAULT \<and> r2 = Inr 1 \<and> contents z2 \<noteq> file_write BUF_SIZE 5 [1] (contents z1)))"
proof -
  have p: "0 \<le> pos" "nat pos < BUF_SIZE"
    using assms(4) by (auto simp: rw_write_def not_le split: if_splits)
  note w = rw_write_success[OF assms(3) p assms(4)]
  let ?xs = "take (BUF_SIZE - nat pos) buf"
  have b: "nat pos + length ?xs \<le> BUF_SIZE" using p(2) by simp
  have "rw_inv s'" using rw_write_inv[OF assms(1,3), of buf pos] assms(4) by simp
  moreover have "if zero_tail s then zero_tail s' else True" using write_zero_tail[OF assms(1) _ b w(1,2)] by simp
  moreover have "contents s' = file_write BUF_SIZE (nat pos) buf (contents s)"
    by (rule write_contents[OF assms(1,2) p(2) refl w(1,2)])
  ultimately show ?thesis using p w(3,4) init_zero_tail[of e] failed_copy_in_gap by (simp add: min.commute)
qed

theorem rw_write_refines_file_witness:
  "contents (fst (rw_write ref_cfu [1, 2] 3 fresh)) = [0, 0, 0, 1, 2]"
proof -
  obtain s' pos' cs n where r: "rw_write ref_cfu [1, 2] 3 fresh = (s', pos', cs, Inr n)"
    by (simp add: rw_write_def ref_cfu_def Let_def)
  from rw_write_refines_file[OF fresh_simps(1) disjI1[OF fresh_simps(2)] ref_cfu_documented r] show ?thesis
    by (simp add: r file_write_def numeral_3_eq_3)
qed

text \<open>The failures of a write. It fails with \<open>-ENOSPC\<close> exactly at a position
  outside the buffer and then changes nothing; a failed copy is \<open>-EFAULT\<close> and leaves the
  position and the length as they were; there is no other error.\<close>

theorem rw_write_failures:
  assumes "rw_write cfu buf pos s = (s', pos', cs, Inl e)"
  shows "(e = ENOSPC \<longleftrightarrow> pos < 0 \<or> nat pos \<ge> BUF_SIZE) \<and> (e = ENOSPC \<or> e = EFAULT) \<and>
    pos' = pos \<and> data_len s' = data_len s \<and> (e = ENOSPC \<longrightarrow> s' = s)"
  using assms by (auto simp: rw_write_def Let_def split: if_splits prod.splits)

theorem rw_write_failures_witness:
  "snd (snd (snd (rw_write ref_cfu [1] 4096 fresh))) = Inl ENOSPC \<and>
   fst (rw_write ref_cfu [1] 4096 fresh) = fresh"
proof -
  obtain s' pos' cs where r: "rw_write ref_cfu [1] 4096 fresh = (s', pos', cs, Inl ENOSPC)"
    by (simp add: rw_write_def)
  from rw_write_failures[OF r] r show ?thesis by simp
qed

text \<open>What was written is read back. After a successful write, a read of as many bytes
  at the same position returns exactly the bytes the write took.\<close>

theorem rw_write_read_back:
  assumes "rw_inv s" and "cfu_documented cfu"
    and "rw_write cfu buf pos s = (s', pos', cs, Inr n)"
  shows "rw_rd s' n pos = Inr (take n buf, pos')"
proof -
  have p: "0 \<le> pos" "nat pos < BUF_SIZE"
    using assms(3) by (auto simp: rw_write_def not_le split: if_splits)
  note w = rw_write_success[OF assms(2) p assms(3)]
  let ?xs = "take (BUF_SIZE - nat pos) buf"
  have inv: "rw_inv s'" using rw_write_inv[OF assms(1,2), of buf pos] assms(3) by simp
  have n: "take n buf = ?xs" unfolding w(3) by (rule take_length_take)
  have "n \<le> data_len s' - nat pos" unfolding w(2) w(3)[symmetric] by linarith
  then have "take n (drop (nat pos) (contents s')) = take n (drop (nat pos) (buffer s'))"
    by (simp only: contents_def drop_take take_take min_absorb1)
  also have "\<dots> = ?xs"
    unfolding w(1) by (rule mid_overwrite) (use assms(1) p(2) w(3) in \<open>auto simp: rw_inv_def\<close>)
  finally have t: "take n (drop (nat pos) (contents s')) = ?xs" .
  then show ?thesis
    using rw_rd_eq[OF inv p(1), of n] w(3,4) n by simp
qed

theorem rw_write_read_back_witness:
  "rw_rd (fst (rw_write ref_cfu [1, 2, 3] 4094 fresh)) 2 4094 = Inr ([1, 2], 4096)"
proof -
  have "rw_write ref_cfu [1, 2, 3] 4094 fresh =
      (fst (rw_write ref_cfu [1, 2, 3] 4094 fresh), 4096, [Lock buf_lock, Unlock buf_lock], Inr 2)"
    by (simp add: rw_write_def ref_cfu_def Let_def)
  from rw_write_read_back[OF fresh_simps(1) ref_cfu_documented this] show ?thesis
    by (simp add: numeral_2_eq_2)
qed

text \<open>C33: reading to the end. Whatever writes reached the device, a program that reads
  it in pieces of any positive size from offset zero until a read returns nothing gets
  exactly the contents, in at most \<open>data_len + 1\<close> reads, and never a byte past them.\<close>

theorem rw_cat_contents:
  assumes "rw_inv s0" and "\<forall>p \<in> set ps. rw_ok p" and "0 < n"
  shows "let s = foldl rw_step s0 ps in
    length (contents s) \<le> BUF_SIZE \<and> cat (rw_rd s) n (Suc (data_len s)) 0 = Some (Inr (contents s))"
proof -
  have i: "rw_inv (foldl rw_step s0 ps)" by (rule rw.run_inv[OF assms(1,2)])
  then show ?thesis
    using rw_reader.cat_all[OF i assms(3), of "Suc (data_len (foldl rw_step s0 ps))"]
      length_contents[OF i]
    by (simp add: Let_def rw_inv_def del: cat.simps)
qed

theorem rw_cat_contents_witness:
  "cat (rw_rd (foldl rw_step fresh [Rw_write ref_cfu [5, 6, 7] 0])) 2 4 0 = Some (Inr [5, 6, 7])"
proof -
  let ?s = "foldl rw_step fresh [Rw_write ref_cfu [5, 6, 7] 0]"
  have s: "contents ?s = [5, 6, 7]" "data_len ?s = 3"
    by (simp_all add: rw_write_def ref_cfu_def Let_def contents_def fresh_def overwrite_def)
  show ?thesis
    using rw_cat_contents[OF fresh_simps(1), of "[Rw_write ref_cfu [5, 6, 7] 0]" 2]
    unfolding Let_def s by (simp add: ref_cfu_documented numeral_eq_Suc)
qed

text \<open>A failed write leaves traces. When the copy from the user fails part-way past
  the end of the file, the bytes that did land stay in the buffer; the failure is reported
  and the length unchanged, but a later successful write behind them brings them into the
  contents, where a file would show zeroes.\<close>

theorem rw_failed_write_shows:
  assumes "rw_inv s" and "cfu_documented cfu" and "cfu_documented cfu'" and "0 \<le> pos"
    and "data_len s \<le> nat pos" and "nat pos + length buf \<le> BUF_SIZE" and "buf \<noteq> []"
    and "cfu buf = (landed, left)" and "left \<noteq> 0"
    and "nat pos + length buf \<le> nat pos'" and "nat pos' < BUF_SIZE" and "buf' \<noteq> []"
    and "snd (cfu' (take (BUF_SIZE - nat pos') buf')) = 0"
  shows "let (s1, p1, c1, r1) = rw_write cfu buf pos s;
             (s2, p2, c2, r2) = rw_write cfu' buf' pos' s1
         in r1 = Inl EFAULT \<and> data_len s1 = data_len s \<and>
            take (length buf) (drop (nat pos) (contents s2)) = landed"
proof -
  let ?s1 = "s\<lparr>buffer := overwrite (nat pos) landed (buffer s)\<rparr>"
  have len: "length landed = length buf" by (rule cfu_length[OF assms(2,8)])
  have pb: "nat pos < BUF_SIZE" using assms(6,7) by (cases buf) simp_all
  have m: "min (length buf) (BUF_SIZE - nat pos) = length buf" using assms(6) by linarith
  have w1: "rw_write cfu buf pos s = (?s1, pos, [Lock buf_lock, Unlock buf_lock], Inl EFAULT)"
    using assms(4,8,9) pb by (simp add: rw_write_def Let_def m)
  have inv1: "rw_inv ?s1"
    using assms(1,6) len by (simp add: rw_inv_def length_overwrite)
  have p': "0 \<le> pos'" using assms(5-7,10) by (cases buf) auto
  obtain s2 p2 c2 r2 where w2: "rw_write cfu' buf' pos' ?s1 = (s2, p2, c2, r2)" by (metis prod_cases4)
  let ?k = "min (length buf') (BUF_SIZE - nat pos')"
  have k: "take ?k buf' = take (BUF_SIZE - nat pos') buf'"
    by (cases "length buf' \<le> BUF_SIZE - nat pos'") (simp_all add: min_absorb1 min_absorb2)
  have "r2 = Inr ?k"
    using w2 p' assms(11,13) k by (auto simp: rw_write_def Let_def split: prod.splits if_splits)
  note w = rw_write_success[OF assms(3) p' assms(11) w2[unfolded this]]
  let ?xs = "take (BUF_SIZE - nat pos') buf'"
  have d: "nat pos + length buf \<le> data_len s2" unfolding w(2) using assms(10) by linarith
  have "take (length buf) (drop (nat pos) (contents s2)) = take (length buf) (drop (nat pos) (buffer s2))"
    using d by (simp add: contents_def drop_take min_absorb1)
  also have "\<dots> = take (length buf) (drop (nat pos) (take (nat pos') (buffer s2)))"
    using assms(10) by (simp add: drop_take min_absorb1)
  also have "take (nat pos') (buffer s2) = take (nat pos') (buffer ?s1)"
    unfolding w(1) by (rule take_overwrite) (use inv1 assms(11) in \<open>simp add: rw_inv_def\<close>)
  also have "take (length buf) (drop (nat pos) (take (nat pos') (buffer ?s1)))
      = take (length buf) (drop (nat pos) (buffer ?s1))"
    using assms(10) by (simp add: drop_take min_absorb1)
  also have "\<dots> = landed"
    using mid_overwrite[of "nat pos" "buffer s" landed "length buf"] assms(1) pb len
    by (simp add: rw_inv_def)
  finally show ?thesis by (simp add: w1 w2)
qed

theorem rw_failed_write_shows_witness:
  "\<exists>s2. take 2 (drop 0 (contents s2)) = [9, 0] \<and>
     s2 = fst (rw_write ref_cfu [1] 5 (fst (rw_write (\<lambda>src. (9 # replicate (length src - 1) 0, 1)) [9, 8] 0 fresh)))"
proof -
  let ?bad = "\<lambda>src :: u8 list. if src = [9, 8] then ([9, 0], 1) else (src, 0 :: nat)"
  let ?bad' = "\<lambda>src :: u8 list. (9 # replicate (length src - 1) 0, 1 :: nat)"
  have b: "cfu_documented ?bad" by (auto simp: cfu_documented_def)
  have e: "rw_write ?bad' [9, 8] 0 fresh = rw_write ?bad [9, 8] 0 fresh"
    by (simp add: rw_write_def)
  have d: "data_len fresh = 0" by (simp add: fresh_def)
  show ?thesis
    using rw_failed_write_shows[OF fresh_simps(1) b ref_cfu_documented, of 0 "[9, 8]" "[9, 0]" 1 5 "[1]"]
    unfolding e by (auto simp: d ref_cfu_def numeral_2_eq_2 split: prod.splits)
qed

text \<open>Locks and registrations. Every path through the read and the write, error
  returns included, takes the mutex once and gives it back; an init that fails at any of
  its five steps releases exactly what it had acquired, and after any served operations
  the exit leaves nothing behind.\<close>

theorem rw_session_clean:
  "(\<forall>op s. lock_balanced (rw_calls s op)) \<and>
   (case read_write_cdev_init e of
      (s, t, Some x) \<Rightarrow> kruns quiet t = Some quiet
    | (s, t, None) \<Rightarrow>
        kruns quiet (t @ snd (serve_all (\<lambda>s p. (rw_step s p, rw_calls s p)) s ps) @
          read_write_cdev_exit) = Some quiet)"
proof -
  obtain s t r where i: "read_write_cdev_init e = (s, t, r)" by (metis prod_cases3)
  obtain s' t' where v: "serve_all (\<lambda>s p. (rw_step s p, rw_calls s p)) s ps = (s', t')" by fastforce
  show ?thesis
    using rw_session.load_fail[of e s t] rw_session.session_quiet[of e s t ps s' t'] i v
    by (cases r) (simp_all add: rw_calls_eq lock_balanced_def)
qed

end
