(* ===== verification/UserLib.thy ===== *)
theory UserLib
  imports KernelAPI
begin

text \<open>
  What the user-space test programs of \<^verbatim>\<open>08\<close>, \<^verbatim>\<open>10\<close> and \<^verbatim>\<open>11\<close> use of the C
  library: the text they print, and the reading of lines and decimal numbers. \<open>Perror\<close> is
  \<open>perror\<close> with the error number it reports.
\<close>

datatype test_out = Stdout string | Stderr string | Perror string errno

fun on_stdout :: "test_out \<Rightarrow> bool" where
  "on_stdout (Stdout t) = True"
| "on_stdout _ = False"

abbreviation EXIT_SUCCESS :: int where "EXIT_SUCCESS \<equiv> 0"
abbreviation EXIT_FAILURE :: int where "EXIT_FAILURE \<equiv> 1"

section \<open>Reading a number\<close>

abbreviation LONG_MAX :: int where "LONG_MAX \<equiv> 9223372036854775807"
abbreviation LONG_MIN :: int where "LONG_MIN \<equiv> - 9223372036854775808"

definition int64 :: "int \<Rightarrow> bool" where
  "int64 i \<longleftrightarrow> LONG_MIN \<le> i \<and> i \<le> LONG_MAX"

lemma int64_diff:
  "0 \<le> x \<Longrightarrow> x \<le> LONG_MAX \<Longrightarrow> 0 \<le> y \<Longrightarrow> y \<le> LONG_MAX \<Longrightarrow> int64 x \<and> int64 (x - y)"
  by (simp add: int64_def)

definition isdigit :: "char \<Rightarrow> bool" where
  "isdigit c \<longleftrightarrow> 48 \<le> (of_char c :: nat) \<and> (of_char c :: nat) \<le> 57"

definition strtol10 :: "string \<Rightarrow> int" where
  \<comment> \<open>\<open>strtol(s, NULL, 10)\<close>: white space, an optional sign, digits; out of range saturates\<close>
  "strtol10 s =
     (let t = dropWhile isspace s;
          neg = (take 1 t = ''-'');
          u = (if take 1 t = ''-'' \<or> take 1 t = ''+'' then drop 1 t else t);
          v = int (undec (takeWhile isdigit u))
      in max LONG_MIN (min LONG_MAX (if neg then - v else v)))"

definition atol :: "string \<Rightarrow> int" where
  "atol s = strtol10 s"

definition atoi :: "string \<Rightarrow> int" where
  \<comment> \<open>the conversion of the \<open>long\<close> to \<open>int\<close> keeps the low 32 bits\<close>
  "atoi s = sint (word_of_int (strtol10 s) :: s32)"

definition fgets :: "nat \<Rightarrow> string \<Rightarrow> string option" where
  \<comment> \<open>the next line, newline included, in at most \<open>n - 1\<close> bytes; nothing at the end of the file\<close>
  "fgets n s =
     (if s = [] then None
      else Some (take (n - 1) (takeWhile (\<lambda>c. c \<noteq> newline) s @
             take 1 (dropWhile (\<lambda>c. c \<noteq> newline) s))))"

lemma of_char_digit: "d < 10 \<Longrightarrow> of_char (digit d) = 48 + d"
  by (simp add: digit_def of_char_of)

lemma digit_props: "d < 10 \<Longrightarrow> isdigit (digit d) \<and> \<not> isspace (digit d) \<and> digit d \<noteq> newline \<and>
    digit d \<noteq> CHR ''-'' \<and> digit d \<noteq> CHR ''+''"
proof -
  assume d: "d < 10"
  then have n: "of_char (digit d) = 48 + d" by (rule of_char_digit)
  have "digit d \<noteq> c" if "of_char c < (48 :: nat)" for c
    using n that by auto
  moreover have "of_char newline < (48 :: nat)" "of_char CHR ''-'' < (48 :: nat)" "of_char CHR ''+'' < (48 :: nat)"
    by simp_all
  ultimately show ?thesis using d n by (auto simp: isdigit_def isspace_def)
qed

lemma dec_props: "c \<in> set (dec n) \<Longrightarrow> isdigit c \<and> \<not> isspace c \<and> c \<noteq> newline \<and> c \<noteq> CHR ''-'' \<and> c \<noteq> CHR ''+''"
  by (drule set_dec, elim exE conjE) (simp only: digit_props simp_thms)

lemma takeWhile_dec: "\<not> isdigit c \<Longrightarrow> takeWhile isdigit (dec n @ c # cs) = dec n"
  "takeWhile isdigit (dec n) = dec n"
  using dec_props by (simp_all add: takeWhile_append2 takeWhile_eq_all_conv)

lemma strtol10_dec:
  assumes "t = [] \<or> \<not> isdigit (hd t)"
  shows "strtol10 (dec n @ t) = min LONG_MAX (int n)"
proof -
  obtain c cs where d: "dec n = c # cs" using dec_nonempty[of n] by (cases "dec n") auto
  then have c: "\<not> isspace c" "c \<noteq> CHR ''-''" "c \<noteq> CHR ''+''" using dec_props[of c n] by simp_all
  have "dropWhile isspace (dec n @ t) = dec n @ t" using d c by simp
  moreover have "takeWhile isdigit (dec n @ t) = dec n"
    using assms takeWhile_dec by (cases t) simp_all
  moreover have "take 1 (dec n @ t) = [c]" using d by simp
  ultimately show ?thesis using c by (simp only: strtol10_def Let_def undec_dec) (simp add: min_def undec_dec)
qed

lemma atoi_dec: "n < 2 ^ 31 \<Longrightarrow> atoi (dec n) = int n"
proof -
  assume n: "n < 2 ^ 31"
  have s: "strtol10 (dec n) = int n" using strtol10_dec[of "[]" n] n by simp
  have "signed_take_bit 31 (int n) = int n" using n by (simp add: signed_take_bit_int_eq_self_iff)
  then show ?thesis by (simp only: atoi_def s sint_sbintrunc' len_num1 len_bit0) simp
qed

lemma atol_dec: "n < 2 ^ 63 \<Longrightarrow> atol (dec n) = int n"
  using strtol10_dec[of "[]" n] by (simp add: atol_def)

lemma fgets_line:
  assumes "newline \<notin> set s" "length s + 1 < n"
  shows "fgets n (s @ [newline]) = Some (s @ [newline])"
proof -
  have "takeWhile (\<lambda>c. c \<noteq> newline) (s @ [newline]) = s" "dropWhile (\<lambda>c. c \<noteq> newline) (s @ [newline]) = [newline]"
    using assms(1) by (induction s) auto
  then show ?thesis using assms(2) by (simp add: fgets_def)
qed

lemma fgets_dec: "length (dec v) + 1 < n \<Longrightarrow> fgets n (dec v @ [newline]) = Some (dec v @ [newline])"
  using dec_props by (intro fgets_line) auto

end
