(* ===== verification/IoctlBasics.thy ===== *)
theory IoctlBasics
  imports UserLib
begin

unbundle bit_operations_syntax

text \<open>
  \<^verbatim>\<open>10_ioctl_basics\<close>: the shared header (command numbers, payloads), the driver's
  \<open>unlocked_ioctl\<close> with its in-place text transforms, and the user-space test program that
  drives it.
\<close>

section \<open>The shared header\<close>

text \<open>
  The command macros come from the kernel's \<open>linux/ioctl.h\<close> and are parameters: type and
  number, and the size of the payload for those that have one. The documented encoding is
  the one the module's readme spells out, direction, size, type and number at bits 30, 16,
  8 and 0.
\<close>

record ioc_macros =
  IO :: "u8 \<Rightarrow> u8 \<Rightarrow> u32"
  IOR :: "u8 \<Rightarrow> u8 \<Rightarrow> nat \<Rightarrow> u32"
  IOW :: "u8 \<Rightarrow> u8 \<Rightarrow> nat \<Rightarrow> u32"
  IOWR :: "u8 \<Rightarrow> u8 \<Rightarrow> nat \<Rightarrow> u32"

definition ioc_encode :: "u32 \<Rightarrow> nat \<Rightarrow> u8 \<Rightarrow> u8 \<Rightarrow> u32" where
  "ioc_encode dir sz ty nr =
     push_bit 30 dir OR push_bit 16 (of_nat sz) OR push_bit 8 (ucast ty) OR ucast nr"

definition ioc_documented :: "ioc_macros \<Rightarrow> bool" where
  "ioc_documented M \<longleftrightarrow>
     (\<forall>t n. IO M t n = ioc_encode 0 0 t n) \<and>
     (\<forall>t n k. IOR M t n k = ioc_encode 2 k t n) \<and>
     (\<forall>t n k. IOW M t n k = ioc_encode 1 k t n) \<and>
     (\<forall>t n k. IOWR M t n k = ioc_encode 3 k t n)"

definition ref_ioc :: ioc_macros where
  "ref_ioc = \<lparr>IO = ioc_encode 0 0, IOR = (\<lambda>t n k. ioc_encode 2 k t n),
     IOW = (\<lambda>t n k. ioc_encode 1 k t n), IOWR = (\<lambda>t n k. ioc_encode 3 k t n)\<rparr>"

lemma ref_ioc_documented: "ioc_documented ref_ioc"
  by (simp add: ioc_documented_def ref_ioc_def)

abbreviation IOCTL_BASICS_MAGIC :: u8 where "IOCTL_BASICS_MAGIC \<equiv> 107"  \<comment> \<open>\<open>'k'\<close>\<close>

record stats =
  reads :: u64
  echoes :: u64
  resets :: u64
  mode :: u32

abbreviation MODE_IDENTITY :: u32 where "MODE_IDENTITY \<equiv> 0"
abbreviation MODE_UPPER :: u32 where "MODE_UPPER \<equiv> 1"
abbreviation MODE_REVERSE :: u32 where "MODE_REVERSE \<equiv> 2"

text \<open>\<open>sizeof\<close>: three \<open>u64\<close> and a \<open>u32\<close> padded to 32 bytes, a \<open>u32\<close>, 64 characters.\<close>

definition IOCTL_BASICS_RESET :: "ioc_macros \<Rightarrow> u32" where
  "IOCTL_BASICS_RESET M = IO M IOCTL_BASICS_MAGIC 1"

definition IOCTL_BASICS_GET_STATS :: "ioc_macros \<Rightarrow> u32" where
  "IOCTL_BASICS_GET_STATS M = IOR M IOCTL_BASICS_MAGIC 2 32"

definition IOCTL_BASICS_SET_MODE :: "ioc_macros \<Rightarrow> u32" where
  "IOCTL_BASICS_SET_MODE M = IOW M IOCTL_BASICS_MAGIC 3 4"

definition IOCTL_BASICS_ECHO :: "ioc_macros \<Rightarrow> u32" where
  "IOCTL_BASICS_ECHO M = IOWR M IOCTL_BASICS_MAGIC 4 64"

section \<open>The text transforms\<close>

text \<open>
  The echo buffer is an array of bytes. \<open>strlen\<close> of an array without a terminating zero
  reads past it: \<open>None\<close>.
\<close>

definition strlen :: "u8 list \<Rightarrow> nat option" where
  "strlen buf = (if 0 \<in> set buf then Some (length (takeWhile (\<lambda>b. b \<noteq> 0) buf)) else None)"

definition upper_body :: "nat \<Rightarrow> u8 list \<Rightarrow> u8 list" where
  "upper_body i buf =
     (if 97 \<le> buf ! i \<and> buf ! i \<le> 122 then buf[i := buf ! i - (97 - 65)] else buf)"

definition reverse_body :: "nat \<Rightarrow> nat \<Rightarrow> u8 list \<Rightarrow> u8 list" where
  "reverse_body len i buf =
     (let tmp = buf ! i;
          buf1 = buf[i := buf ! (len - 1 - i)]
      in buf1[len - 1 - i := tmp])"

definition apply_mode_transform :: "u8 list \<Rightarrow> u32 \<Rightarrow> u8 list option" where
  "apply_mode_transform buf m =
     (case strlen buf of
        None \<Rightarrow> None
      | Some len \<Rightarrow>
          if m = MODE_UPPER then Some (fold upper_body [0..<len] buf)
          else if m = MODE_REVERSE then Some (fold (reverse_body len) [0..<len div 2] buf)
          else Some buf)"

section \<open>The driver\<close>

datatype ioc_obj = state_lock | chrdev_region | ioctl_cdev | ioctl_class | ioctl_device

text \<open>
  What the copies across the boundary do in one call: the \<open>u32\<close> and the 64 bytes that land
  when the driver reads its argument, with the number of bytes that could not be copied,
  and the number that could not be copied back.
\<close>

record user_arg =
  u_mode :: "u32 \<times> nat"
  u_req :: "u8 list \<times> nat"
  u_back :: nat

datatype ioctl_out = Nothing | Stats stats | Echoed "u8 list"

definition ioctl_basics_open :: "stats \<Rightarrow> stats \<times> errno option" where
  "ioctl_basics_open s = (s, None)"

text \<open>The outer \<open>None\<close> is the out-of-bounds read of \<open>strlen\<close>.\<close>

definition ioctl_basics_ioctl ::
    "ioc_macros \<Rightarrow> u32 \<Rightarrow> user_arg \<Rightarrow> stats \<Rightarrow>
     (stats \<times> ioc_obj kcall list \<times> (errno + ioctl_out)) option" where
  "ioctl_basics_ioctl M cmd arg s =
     (if cmd = IOCTL_BASICS_RESET M then
        (let s1 = s\<lparr>reads := 0, echoes := 0, mode := MODE_IDENTITY, resets := resets s + 1\<rparr>
         in Some (s1, [Lock state_lock, Unlock state_lock], Inr Nothing))
      else if cmd = IOCTL_BASICS_GET_STATS M then
        (let s1 = s\<lparr>reads := reads s + 1\<rparr>; snapshot = s1
         in Some (s1, [Lock state_lock, Unlock state_lock],
                  if u_back arg \<noteq> 0 then Inl EFAULT else Inr (Stats snapshot)))
      else if cmd = IOCTL_BASICS_SET_MODE M then
        (let (m, left) = u_mode arg
         in if left \<noteq> 0 then Some (s, [], Inl EFAULT)
            else if m > MODE_REVERSE then Some (s, [], Inl EINVAL)
            else Some (s\<lparr>mode := m\<rparr>, [Lock state_lock, Unlock state_lock], Inr Nothing))
      else if cmd = IOCTL_BASICS_ECHO M then
        (let (req, left) = u_req arg
         in if left \<noteq> 0 then Some (s, [], Inl EFAULT)
            else
              (let req1 = req[63 := 0]
               in (case apply_mode_transform req1 (mode s) of
                     None \<Rightarrow> None
                   | Some req2 \<Rightarrow>
                       Some (s\<lparr>echoes := echoes s + 1\<rparr>, [Lock state_lock, Unlock state_lock],
                             if u_back arg \<noteq> 0 then Inl EFAULT else Inr (Echoed req2)))))
      else Some (s, [], Inl ENOTTY))"

record ioc_env =
  e_region :: "errno option"
  e_cdev_add :: "errno option"
  e_class :: "errno option"
  e_device :: "errno option"

definition ioctl_basics_init :: "ioc_env \<Rightarrow> ioc_obj kcall list \<times> errno option" where
  "ioctl_basics_init e =
     (let err_unregister_region = [Release chrdev_region];
          err_del_cdev = Release ioctl_cdev # err_unregister_region;
          err_destroy_class = Release ioctl_class # err_del_cdev
      in (case e_region e of
           Some x \<Rightarrow> ([], Some x)
         | None \<Rightarrow> (case e_cdev_add e of
           Some x \<Rightarrow> (Acquire chrdev_region # err_unregister_region, Some x)
         | None \<Rightarrow> (case e_class e of
           Some x \<Rightarrow> ([Acquire chrdev_region, Acquire ioctl_cdev] @ err_del_cdev, Some x)
         | None \<Rightarrow> (case e_device e of
           Some x \<Rightarrow> ([Acquire chrdev_region, Acquire ioctl_cdev, Acquire ioctl_class]
                     @ err_destroy_class, Some x)
         | None \<Rightarrow> ([Acquire chrdev_region, Acquire ioctl_cdev, Acquire ioctl_class,
                    Acquire ioctl_device], None))))))"

definition ioctl_basics_exit :: "ioc_obj kcall list" where
  "ioctl_basics_exit =
     [Release ioctl_device, Release ioctl_class, Release ioctl_cdev, Release chrdev_region]"

section \<open>The transforms as list functions\<close>

definition up :: "u8 \<Rightarrow> u8" where
  "up b = (if 97 \<le> b \<and> b \<le> 122 then b - 32 else b)"

definition transform_spec :: "u8 list \<Rightarrow> u32 \<Rightarrow> u8 list" where
  \<comment> \<open>on the text before the first zero; the bytes from there on stay\<close>
  "transform_spec buf m =
     (let text = takeWhile (\<lambda>b. b \<noteq> 0) buf; rest = dropWhile (\<lambda>b. b \<noteq> 0) buf
      in (if m = MODE_UPPER then map up text
          else if m = MODE_REVERSE then rev text else text) @ rest)"

lemma fold_upper:
  "len \<le> length buf \<Longrightarrow> fold upper_body [0..<len] buf = map up (take len buf) @ drop len buf"
proof (induction len)
  case 0
  then show ?case by simp
next
  case (Suc len)
  let ?b = "map up (take len buf) @ drop len buf"
  have n: "?b ! len = buf ! len" using Suc.prems by (simp add: nth_append)
  have "fold upper_body [0..<Suc len] buf = upper_body len ?b"
    using Suc by simp
  also have "\<dots> = ?b[len := up (buf ! len)]"
    using Suc.prems by (auto simp: upper_body_def n up_def list_update_id[of ?b len, unfolded n])
  also have "\<dots> = map up (take (Suc len) buf) @ drop (Suc len) buf"
    using Suc.prems
    by (simp add: take_Suc_conv_app_nth list_update_append Cons_nth_drop_Suc[symmetric])
  finally show ?case .
qed

lemma nth_fold_reverse:
  assumes "len \<le> length buf" "k \<le> len div 2"
  shows "length (fold (reverse_body len) [0..<k] buf) = length buf \<and>
    (\<forall>j < length buf. fold (reverse_body len) [0..<k] buf ! j =
       (if j < len \<and> (j < k \<or> len - 1 - j < k) then buf ! (len - 1 - j) else buf ! j))"
  using assms(2)
proof (induction k)
  case 0
  then show ?case by simp
next
  case (Suc k)
  let ?b = "fold (reverse_body len) [0..<k] buf"
  from Suc have l: "length ?b = length buf"
    and n: "\<And>j. j < length buf \<Longrightarrow> ?b ! j =
       (if j < len \<and> (j < k \<or> len - 1 - j < k) then buf ! (len - 1 - j) else buf ! j)" by auto
  define m where "m = len - 1 - k"
  have k: "k < len" "k \<le> m" "m < len" "len - 1 - m = k" "k < length buf" "m < length buf"
    using Suc.prems assms(1) by (auto simp: m_def)
  have b: "?b ! k = buf ! k" "?b ! m = buf ! m"
    using n[of k] n[of m] k by (auto simp: m_def)
  have step: "fold (reverse_body len) [0..<Suc k] buf = ?b[k := buf ! m, m := buf ! k]"
  proof -
    have "fold (reverse_body len) [0..<Suc k] buf = ?b[k := ?b ! m, m := ?b ! k]"
      by (simp add: reverse_body_def Let_def m_def)
    then show ?thesis by (simp only: b)
  qed
  have "?b[k := buf ! m, m := buf ! k] ! j =
      (if j < len \<and> (j < Suc k \<or> len - 1 - j < Suc k) then buf ! (len - 1 - j) else buf ! j)"
    if j: "j < length buf" for j
  proof -
    consider "j = m" | "j = k" "j \<noteq> m" | "j \<noteq> k" "j \<noteq> m" by blast
    then show ?thesis
    proof cases
      case 1
      then show ?thesis using k l by simp
    next
      case 2
      then have "?b[k := buf ! m, m := buf ! k] ! j = buf ! m" using k l by simp
      moreover have "len - 1 - j = m" using 2 by (simp add: m_def)
      ultimately show ?thesis using 2 k(1) by simp
    next
      case 3
      have "len - 1 - j < Suc k \<longleftrightarrow> len - 1 - j < k" if "j < len"
        using that 3 k by (auto simp: m_def)
      moreover have "j < Suc k \<longleftrightarrow> j < k" using 3 by auto
      ultimately show ?thesis using 3 n[OF j] by (cases "j < len") simp_all
    qed
  qed
  then show ?case unfolding step using l by simp
qed

lemma fold_reverse:
  assumes "len \<le> length buf"
  shows "fold (reverse_body len) [0..<len div 2] buf = rev (take len buf) @ drop len buf"
proof (rule nth_equalityI)
  note r = nth_fold_reverse[OF assms order_refl]
  show "length (fold (reverse_body len) [0..<len div 2] buf) = length (rev (take len buf) @ drop len buf)"
    using r assms by simp
  fix j assume "j < length (fold (reverse_body len) [0..<len div 2] buf)"
  then have j: "j < length buf" using r by simp
  show "fold (reverse_body len) [0..<len div 2] buf ! j = (rev (take len buf) @ drop len buf) ! j"
  proof (cases "j < len")
    case True
    have "\<not> (j < len div 2 \<or> len - 1 - j < len div 2) \<Longrightarrow> j = len - 1 - j" using True by auto
    moreover have "(rev (take len buf) @ drop len buf) ! j = buf ! (len - 1 - j)"
      using True assms by (simp add: nth_append rev_nth)
    ultimately show ?thesis using r j True by auto
  next
    case False
    then show ?thesis using r j assms by (simp add: nth_append)
  qed
qed

lemma strlen_split:
  "strlen buf = Some len \<Longrightarrow>
   len \<le> length buf \<and> take len buf = takeWhile (\<lambda>b. b \<noteq> 0) buf \<and>
   drop len buf = dropWhile (\<lambda>b. b \<noteq> 0) buf"
  unfolding strlen_def
  by (metis dropWhile_eq_drop length_takeWhile_le option.distinct(1) option.inject takeWhile_eq_take)

lemma transform_eq:
  assumes "0 \<in> set buf"
  shows "apply_mode_transform buf m = Some (transform_spec buf m)"
proof -
  obtain len where len: "strlen buf = Some len" using assms by (simp add: strlen_def)
  note s = strlen_split[OF len]
  show ?thesis
    using s fold_upper[of len buf] fold_reverse[of len buf]
    by (simp add: apply_mode_transform_def len transform_spec_def Let_def)
qed

section \<open>Command numbers\<close>

lemma ioctl_numbers:
  assumes "ioc_documented M"
  shows "IOCTL_BASICS_RESET M = 0x6B01" "IOCTL_BASICS_GET_STATS M = 0x80206B02"
    "IOCTL_BASICS_SET_MODE M = 0x40046B03" "IOCTL_BASICS_ECHO M = 0xC0406B04"
    "IO M IOCTL_BASICS_MAGIC 99 = 0x6B63"
  using assms
  by (simp_all add: ioc_documented_def ioc_encode_def IOCTL_BASICS_RESET_def
      IOCTL_BASICS_GET_STATS_def IOCTL_BASICS_SET_MODE_def IOCTL_BASICS_ECHO_def)

section \<open>The driver as a machine\<close>

definition ioc_step :: "ioc_macros \<Rightarrow> stats \<Rightarrow> u32 \<times> user_arg \<Rightarrow> stats" where
  "ioc_step M s p =
     (case ioctl_basics_ioctl M (fst p) (snd p) s of None \<Rightarrow> s | Some (s', cs, r) \<Rightarrow> s')"

text \<open>The copy fills the request, all 64 bytes of it.\<close>

definition ioc_ok :: "u32 \<times> user_arg \<Rightarrow> bool" where
  "ioc_ok p \<longleftrightarrow> length (fst (u_req (snd p))) = 64"

lemma ioc_mode_step: "mode s \<le> 2 \<Longrightarrow> mode (ioc_step M s p) \<le> 2"
  by (auto simp: ioc_step_def ioctl_basics_ioctl_def Let_def split: option.splits prod.splits if_splits)

interpretation ioc: invariant_machine "ioc_step M" "\<lambda>s. mode s \<le> 2" ioc_ok for M
  by unfold_locales (rule ioc_mode_step)

lemma echo_terminated: "length req = 64 \<Longrightarrow> 0 \<in> set (req[63 := 0 :: u8])"
  by (simp add: set_update_memI)

section \<open>The test program\<close>

text \<open>
  \<open>ioctl_test.c\<close> against the driver, with copies that succeed: what it prints and its exit
  status. The triple is the driver's state, the lines so far and the status once the program
  has returned; \<open>open_err\<close> is how its \<open>open\<close> turns out.
\<close>

type_synonym test_state = "stats \<times> test_out list \<times> int option"

definition user :: "u32 \<Rightarrow> u8 list \<Rightarrow> user_arg" where
  "user m req = \<lparr>u_mode = (m, 0), u_req = (req, 0), u_back = 0\<rparr>"

definition bytes :: "string \<Rightarrow> u8 list" where
  "bytes str = map (\<lambda>c. of_nat (of_char c)) str"

definition text_of :: "u8 list \<Rightarrow> string" where
  \<comment> \<open>the string at the start of an array of bytes\<close>
  "text_of bs = map (\<lambda>b. char_of (unat b)) (takeWhile (\<lambda>b. b \<noteq> 0) bs)"

definition print_stats :: "stats \<Rightarrow> string" where
  "print_stats s = ''  reads='' @ fmt_u (reads s) @ '' echoes='' @ fmt_u (echoes s) @
     '' resets='' @ fmt_u (resets s) @ '' mode='' @ fmt_u (mode s) @ [newline]"

fun stats_line :: "ioctl_out \<Rightarrow> test_out list" where
  "stats_line (Stats st) = [Stdout (print_stats st)]"
| "stats_line _ = []"

text \<open>The statements of \<open>main\<close>. Each does nothing once the program has returned.\<close>

definition say :: "string \<Rightarrow> test_state \<Rightarrow> test_state" where
  "say line t = (let (s, ls, ret) = t in if ret \<noteq> None then t else (s, ls @ [Stdout line], None))"

definition must :: "ioc_macros \<Rightarrow> string \<Rightarrow> u32 \<Rightarrow> user_arg \<Rightarrow> (ioctl_out \<Rightarrow> test_out list) \<Rightarrow>
    test_state \<Rightarrow> test_state option" where
  \<comment> \<open>\<open>if (ioctl(...) < 0) { perror; return EXIT_FAILURE; }\<close>\<close>
  "must M what cmd arg out t =
     (let (s, ls, ret) = t in
      if ret \<noteq> None then Some t
      else (case ioctl_basics_ioctl M cmd arg s of
              None \<Rightarrow> None
            | Some (s', cs, Inl e) \<Rightarrow> Some (s', ls @ [Perror what e], Some EXIT_FAILURE)
            | Some (s', cs, Inr r) \<Rightarrow> Some (s', ls @ out r, None)))"

definition attempt :: "ioc_macros \<Rightarrow> (errno \<Rightarrow> string) \<Rightarrow> u32 \<Rightarrow> user_arg \<Rightarrow> test_state \<Rightarrow> test_state option" where
  \<comment> \<open>a call that is expected to fail\<close>
  "attempt M strerror cmd arg t =
     (let (s, ls, ret) = t in
      if ret \<noteq> None then Some t
      else (case ioctl_basics_ioctl M cmd arg s of
              None \<Rightarrow> None
            | Some (s', cs, Inl e) \<Rightarrow>
                Some (s', ls @ [Stdout (''  failed as expected: '' @ strerror e @ [newline])], None)
            | Some (s', cs, Inr r) \<Rightarrow> Some (s', ls @ [Stdout ''  unexpectedly succeeded\<newline>''], None)))"

definition ignored :: "ioc_macros \<Rightarrow> u32 \<Rightarrow> user_arg \<Rightarrow> test_state \<Rightarrow> test_state option" where
  \<comment> \<open>a call whose result is not looked at\<close>
  "ignored M cmd arg t =
     (let (s, ls, ret) = t in
      if ret \<noteq> None then Some t
      else (case ioctl_basics_ioctl M cmd arg s of
              None \<Rightarrow> None | Some (s', cs, r) \<Rightarrow> Some (s', ls, None)))"

definition do_echo :: "ioc_macros \<Rightarrow> string \<Rightarrow> test_state \<Rightarrow> test_state option" where
  \<comment> \<open>\<open>strncpy\<close> into the zeroed request; \<open>main\<close> does not look at the result\<close>
  "do_echo M txt t =
     (let (s, ls, ret) = t;
          req = take 63 (bytes txt) @ replicate (64 - length (take 63 (bytes txt))) 0 in
      if ret \<noteq> None then Some t
      else (case ioctl_basics_ioctl M (IOCTL_BASICS_ECHO M) (user 0 req) s of
              None \<Rightarrow> None
            | Some (s', cs, Inl e) \<Rightarrow> Some (s', ls @ [Perror ''ioctl(ECHO)'' e], None)
            | Some (s', cs, Inr (Echoed b)) \<Rightarrow>
                Some (s', ls @ [Stdout (''  \"'' @ txt @ ''\" -> \"'' @ text_of b @ ''\"\<newline>'')], None)
            | Some (s', cs, Inr r) \<Rightarrow> Some (s', ls, None)))"

definition ioctl_test_main ::
    "ioc_macros \<Rightarrow> (errno \<Rightarrow> string) \<Rightarrow> string list \<Rightarrow> errno option \<Rightarrow> stats \<Rightarrow> test_state option" where
  "ioctl_test_main M strerror argv open_err s =
     (if length argv \<noteq> 2
      then Some (s, [Stderr (''usage: '' @ concat (take 1 argv) @ '' /dev/ioctl_basicsX\<newline>'')], Some EXIT_FAILURE)
      else
        (case open_err of
           Some e \<Rightarrow> Some (s, [Perror ''open'' e], Some EXIT_FAILURE)
         | None \<Rightarrow>
     Option.bind (must M ''ioctl(RESET)'' (IOCTL_BASICS_RESET M) (user 0 []) (\<lambda>_. [])
       (say ''=== RESET ===\<newline>'' (s, [], None))) (\<lambda>t.
     Option.bind (must M ''ioctl(GET_STATS)'' (IOCTL_BASICS_GET_STATS M) (user 0 []) stats_line
       (say ''=== GET_STATS (after reset) ===\<newline>'' t)) (\<lambda>t.
     Option.bind (do_echo M ''Hello, kernel!'' (say ''=== ECHO, identity mode ===\<newline>'' t)) (\<lambda>t.
     Option.bind (must M ''ioctl(SET_MODE)'' (IOCTL_BASICS_SET_MODE M) (user MODE_UPPER []) (\<lambda>_. [])
       (say ''=== SET_MODE upper ===\<newline>'' t)) (\<lambda>t.
     Option.bind (do_echo M ''Hello, kernel!'' t) (\<lambda>t.
     Option.bind (ignored M (IOCTL_BASICS_SET_MODE M) (user MODE_REVERSE [])
       (say ''=== SET_MODE reverse ===\<newline>'' t)) (\<lambda>t.
     Option.bind (do_echo M ''Hello, kernel!'' t) (\<lambda>t.
     Option.bind (attempt M strerror (IOCTL_BASICS_SET_MODE M) (user 99 [])
       (say ''=== SET_MODE invalid value (expect EINVAL) ===\<newline>'' t)) (\<lambda>t.
     Option.bind (attempt M strerror (IO M IOCTL_BASICS_MAGIC 99) (user 0 [])
       (say ''=== unknown command (expect ENOTTY) ===\<newline>'' t)) (\<lambda>t.
     Option.bind (must M ''ioctl(GET_STATS)'' (IOCTL_BASICS_GET_STATS M) (user 0 []) stats_line
       (say ''=== GET_STATS (final) ===\<newline>'' t)) (\<lambda>(s, ls, ret).
     Some (s, ls, Some (if ret = None then EXIT_SUCCESS else EXIT_FAILURE))))))))))))))"

lemma echo_result:
  assumes "ioc_documented M" "length txt \<le> 63"
  shows "do_echo M txt (s, ls, None) =
    Some (s\<lparr>echoes := echoes s + 1\<rparr>, ls @ [Stdout (''  \"'' @ txt @ ''\" -> \"'' @
      text_of (transform_spec (bytes txt @ replicate (64 - length txt) 0) (mode s)) @ ''\"\<newline>'')], None)"
proof -
  have l: "length (bytes txt) = length txt" by (simp add: bytes_def)
  let ?req = "bytes txt @ replicate (64 - length txt) 0"
  have z: "?req[63 := 0] = ?req"
    using assms(2) l by (simp add: list_update_append list_update_same_conv[THEN iffD2])
  have "0 \<in> set ?req" using assms(2) by simp
  from transform_eq[OF this] show ?thesis
    using assms(2)
    by (simp add: do_echo_def Let_def ioctl_basics_ioctl_def ioctl_numbers[OF assms(1)] user_def z l)
qed

section \<open>Properties\<close>

text \<open>C34: the in-place loops compute the transform they are named for. On a buffer with a
  terminator the text before it is uppercased or reversed and every byte from the
  terminator on is left alone, the length is kept, and the reverse transform undoes
  itself.\<close>

theorem apply_mode_transform_spec:
  assumes "0 \<in> set buf"
  shows "apply_mode_transform buf m = Some (transform_spec buf m) \<and>
    length (transform_spec buf m) = length buf \<and>
    apply_mode_transform (transform_spec buf MODE_REVERSE) MODE_REVERSE = Some buf"
proof -
  let ?t = "takeWhile (\<lambda>b. b \<noteq> 0) buf" and ?r = "dropWhile (\<lambda>b. b \<noteq> 0) buf"
  have len: "length ?t + length ?r = length buf"
    by (metis length_append takeWhile_dropWhile_id)
  obtain rs where r: "?r = 0 # rs"
    using assms by (metis (mono_tags, lifting) dropWhile_eq_Cons_conv dropWhile_eq_Nil_conv list.exhaust)
  have nz: "b \<noteq> 0" if "b \<in> set (rev ?t)" for b
    using that set_takeWhileD[of b "\<lambda>b. b \<noteq> 0" buf] by auto
  have rev: "transform_spec buf MODE_REVERSE = rev ?t @ 0 # rs"
    by (simp add: transform_spec_def Let_def r)
  have "takeWhile (\<lambda>b. b \<noteq> 0) (rev ?t @ 0 # rs) = rev ?t"
    and "dropWhile (\<lambda>b. b \<noteq> 0) (rev ?t @ 0 # rs) = 0 # rs"
    using takeWhile_append2[of "rev ?t" "\<lambda>b. b \<noteq> 0"] dropWhile_append2[of "rev ?t" "\<lambda>b. b \<noteq> 0"] nz
    by simp_all
  then have "transform_spec (rev ?t @ 0 # rs) MODE_REVERSE = ?t @ ?r"
    by (simp add: transform_spec_def Let_def r)
  moreover have "0 \<in> set (rev ?t @ 0 # rs)" by simp
  ultimately have "apply_mode_transform (transform_spec buf MODE_REVERSE) MODE_REVERSE = Some buf"
    by (simp add: rev transform_eq)
  moreover have "length (transform_spec buf m) = length buf"
    using len by (simp add: transform_spec_def Let_def)
  ultimately show ?thesis using transform_eq[OF assms] by simp
qed

theorem apply_mode_transform_spec_witness:
  "apply_mode_transform [72, 105, 33, 0, 104] MODE_REVERSE = Some [33, 105, 72, 0, 104] \<and>
   apply_mode_transform [72, 105, 33, 0, 104] MODE_UPPER = Some [72, 73, 33, 0, 104]"
  using apply_mode_transform_spec[of "[72, 105, 33, 0, 104]" MODE_REVERSE]
    apply_mode_transform_spec[of "[72, 105, 33, 0, 104]" MODE_UPPER]
  by (simp add: transform_spec_def up_def)

text \<open>No request makes the driver read outside its buffer.\<close>

lemma ioctl_returns:
  assumes "mode s \<le> MODE_REVERSE" "ioc_ok (cmd, arg)"
  shows "\<exists>s' cs r. ioctl_basics_ioctl M cmd arg s = Some (s', cs, r) \<and> lock_balanced cs \<and> mode s' \<le> MODE_REVERSE"
proof -
  have z: "0 \<in> set ((fst (u_req arg))[63 := 0])"
    using assms(2) by (simp add: ioc_ok_def set_update_memI)
  show ?thesis
    using assms(1) transform_eq[OF z, of "mode s"]
    by (auto simp: ioctl_basics_ioctl_def Let_def lock_balanced_def split: prod.split)
qed

lemma ioctl_error_codes:
  assumes "ioc_documented M" and "ioc_ok (cmd, arg)"
  shows "\<exists>s' cs r. ioctl_basics_ioctl M cmd arg s = Some (s', cs, r) \<and>
    (r = Inl ENOTTY \<longleftrightarrow> cmd \<notin> {0x6B01, 0x80206B02, 0x40046B03, 0xC0406B04}) \<and>
    (r = Inl EINVAL \<longleftrightarrow> cmd = 0x40046B03 \<and> snd (u_mode arg) = 0 \<and> 2 < fst (u_mode arg)) \<and>
    (r = Inl EFAULT \<longleftrightarrow>
       cmd = 0x80206B02 \<and> u_back arg \<noteq> 0 \<or> cmd = 0x40046B03 \<and> snd (u_mode arg) \<noteq> 0 \<or>
       cmd = 0xC0406B04 \<and> (snd (u_req arg) \<noteq> 0 \<or> u_back arg \<noteq> 0)) \<and>
    (\<forall>e. r = Inl e \<longrightarrow> s' =
       (if cmd = 0x80206B02 then s\<lparr>reads := reads s + 1\<rparr>
        else if cmd = 0xC0406B04 \<and> snd (u_req arg) = 0 then s\<lparr>echoes := echoes s + 1\<rparr>
        else s))"
proof -
  have z: "0 \<in> set ((fst (u_req arg))[63 := 0])"
    using assms(2) by (simp add: ioc_ok_def set_update_memI)
  consider "cmd = 0x6B01" | "cmd = 0x80206B02" | "cmd = 0x40046B03" | "cmd = 0xC0406B04"
    | "cmd \<notin> {0x6B01, 0x80206B02, 0x40046B03, 0xC0406B04}" by blast
  then show ?thesis
    by cases (auto simp: ioctl_basics_ioctl_def ioctl_numbers(1-4)[OF assms(1)] Let_def
        transform_eq[OF z] prod.case_eq_if)
qed

text \<open>C35: no request makes the driver read outside its buffer, and each failure has its error and
  leaves what it should. From the state of a loaded module and after any sequence of requests
  whose copies deliver 64 bytes, the next request returns with the lock dropped and the mode one of
  the three transforms. \<open>-ENOTTY\<close> is returned exactly for a
  command number that is none of the four, \<open>-EINVAL\<close> exactly for a mode above the last one
  that arrived whole, \<open>-EFAULT\<close> exactly when a copy the command makes falls short; a request
  that fails before its commit changes nothing, but a stats read or an echo whose copy back
  fails has already been counted.\<close>

theorem ioctl_errors:
  assumes "ioc_documented M" and "mode s0 \<le> MODE_REVERSE" and "\<forall>p \<in> set ps. ioc_ok p"
    and "ioc_ok (cmd, arg)"
  shows "let s = foldl (ioc_step M) s0 ps in
    \<exists>s' cs r. ioctl_basics_ioctl M cmd arg s = Some (s', cs, r) \<and>
    lock_balanced cs \<and> mode s \<le> MODE_REVERSE \<and> mode s' \<le> MODE_REVERSE \<and>
    (r = Inl ENOTTY \<longleftrightarrow> cmd \<notin> {0x6B01, 0x80206B02, 0x40046B03, 0xC0406B04}) \<and>
    (r = Inl EINVAL \<longleftrightarrow> cmd = 0x40046B03 \<and> snd (u_mode arg) = 0 \<and> 2 < fst (u_mode arg)) \<and>
    (r = Inl EFAULT \<longleftrightarrow>
       cmd = 0x80206B02 \<and> u_back arg \<noteq> 0 \<or> cmd = 0x40046B03 \<and> snd (u_mode arg) \<noteq> 0 \<or>
       cmd = 0xC0406B04 \<and> (snd (u_req arg) \<noteq> 0 \<or> u_back arg \<noteq> 0)) \<and>
    (\<forall>e. r = Inl e \<longrightarrow> s' =
       (if cmd = 0x80206B02 then s\<lparr>reads := reads s + 1\<rparr>
        else if cmd = 0xC0406B04 \<and> snd (u_req arg) = 0 then s\<lparr>echoes := echoes s + 1\<rparr>
        else s))"
proof -
  let ?s = "foldl (ioc_step M) s0 ps"
  have m: "mode ?s \<le> MODE_REVERSE" using ioc.run_inv[OF assms(2,3)] .
  obtain s' cs r where r: "ioctl_basics_ioctl M cmd arg ?s = Some (s', cs, r)"
    "lock_balanced cs \<and> mode s' \<le> MODE_REVERSE"
    using ioctl_returns[OF m assms(4), of M] by blast
  with ioctl_error_codes[OF assms(1,4), of ?s] m show ?thesis by (simp add: Let_def)
qed

theorem ioctl_errors_witness:
  "\<exists>s' cs. ioctl_basics_ioctl ref_ioc 0x40046B03 (user 99 (replicate 64 0))
     (foldl (ioc_step ref_ioc) \<lparr>reads = 0, echoes = 0, resets = 0, mode = 1\<rparr>
        [(0x40046B03, user 2 (replicate 64 0))]) = Some (s', cs, Inl EINVAL)"
proof -
  have "mode \<lparr>reads = 0, echoes = 0, resets = 0, mode = 1 :: u32\<rparr> \<le> MODE_REVERSE" by simp
  from ioctl_errors[OF ref_ioc_documented this, of "[(0x40046B03, user 2 (replicate 64 0))]"
      "0x40046B03" "user 99 (replicate 64 0)"]
  show ?thesis by (auto simp: ioc_ok_def user_def Let_def)
qed

text \<open>What the three echoes of the test program bring back.\<close>

lemma hello_echoes:
  assumes "ioc_documented M"
  shows "mode s = MODE_IDENTITY \<Longrightarrow> do_echo M ''Hello, kernel!'' (s, ls, None) =
      Some (s\<lparr>echoes := echoes s + 1\<rparr>, ls @ [Stdout ''  \"Hello, kernel!\" -> \"Hello, kernel!\"\<newline>''], None)"
    and "mode s = MODE_UPPER \<Longrightarrow> do_echo M ''Hello, kernel!'' (s, ls, None) =
      Some (s\<lparr>echoes := echoes s + 1\<rparr>, ls @ [Stdout ''  \"Hello, kernel!\" -> \"HELLO, KERNEL!\"\<newline>''], None)"
    and "mode s = MODE_REVERSE \<Longrightarrow> do_echo M ''Hello, kernel!'' (s, ls, None) =
      Some (s\<lparr>echoes := echoes s + 1\<rparr>, ls @ [Stdout ''  \"Hello, kernel!\" -> \"!lenrek ,olleH\"\<newline>''], None)"
  by (subst echo_result[OF assms(1)];
      simp add: bytes_def text_of_def transform_spec_def up_def Let_def char_of_def bit_iff_odd)+

text \<open>C36: the test program against the driver. From whatever state it finds the device in,
  it runs to its end with success and prints: the statistics right after the reset (one read,
  which is the read that fetched them, and no echo), the text as sent, in upper case and
  reversed, the two expected failures with their messages, and final statistics that count two
  reads and three echoes with the last accepted mode. Called otherwise, or when the device
  does not open, it fails and leaves the driver alone.\<close>

theorem ioctl_test_output:
  assumes "ioc_documented M"
  shows "ioctl_test_main M strerror [prog, path] None s =
    Some (\<lparr>reads = 2, echoes = 3, resets = resets s + 1, mode = MODE_REVERSE\<rparr>,
      map Stdout
       [''=== RESET ===\<newline>'',
        ''=== GET_STATS (after reset) ===\<newline>'',
        ''  reads=1 echoes=0 resets='' @ fmt_u (resets s + 1) @ '' mode=0\<newline>'',
        ''=== ECHO, identity mode ===\<newline>'', ''  \"Hello, kernel!\" -> \"Hello, kernel!\"\<newline>'',
        ''=== SET_MODE upper ===\<newline>'', ''  \"Hello, kernel!\" -> \"HELLO, KERNEL!\"\<newline>'',
        ''=== SET_MODE reverse ===\<newline>'', ''  \"Hello, kernel!\" -> \"!lenrek ,olleH\"\<newline>'',
        ''=== SET_MODE invalid value (expect EINVAL) ===\<newline>'',
        ''  failed as expected: '' @ strerror EINVAL @ [newline],
        ''=== unknown command (expect ENOTTY) ===\<newline>'',
        ''  failed as expected: '' @ strerror ENOTTY @ [newline],
        ''=== GET_STATS (final) ===\<newline>'',
        ''  reads=2 echoes=3 resets='' @ fmt_u (resets s + 1) @ '' mode=2\<newline>''],
      Some EXIT_SUCCESS) \<and>
    (if length argv = 2 \<and> open_err = None then True
     else \<exists>line. ioctl_test_main M strerror argv open_err s = Some (s, [line], Some EXIT_FAILURE))"
    (is "?run \<and> ?fails")
proof
  have d: "dec 0 = ''0''" "dec 1 = ''1''" "dec (Suc 0) = ''1''" "dec 2 = ''2''" "dec 3 = ''3''"
    by (simp_all add: print_eval)
  show ?run
    by (simp add: ioctl_test_main_def say_def must_def attempt_def ignored_def hello_echoes[OF assms]
        ioctl_basics_ioctl_def ioctl_numbers[OF assms] Let_def user_def print_stats_def fmt_u_def d)
  show ?fails by (auto simp: ioctl_test_main_def split: option.split)
qed

theorem ioctl_test_output_witness:
  "\<exists>s ls. ioctl_test_main ref_ioc (\<lambda>e. ''Invalid'') [''ioctl_test'', ''/dev/ioctl_basics0''] None
     \<lparr>reads = 7, echoes = 0, resets = 4, mode = 1\<rparr> = Some (s, ls, Some EXIT_SUCCESS) \<and> length ls = 15"
  using ioctl_test_output[OF ref_ioc_documented, of "\<lambda>e. ''Invalid''" "''ioctl_test''" "''/dev/ioctl_basics0''"
      "\<lparr>reads = 7, echoes = 0, resets = 4, mode = 1\<rparr>"]
  by simp

section \<open>Loading and unloading\<close>

definition ioc_live :: "stats \<Rightarrow> ioc_obj kworld \<Rightarrow> bool" where
  "ioc_live s w \<longleftrightarrow> locked w = {} \<and> armed w = {} \<and>
     held w = {chrdev_region, ioctl_cdev, ioctl_class, ioctl_device}"

definition ioc_calls :: "ioc_macros \<Rightarrow> stats \<Rightarrow> u32 \<times> user_arg \<Rightarrow> ioc_obj kcall list" where
  "ioc_calls M s p =
     (case ioctl_basics_ioctl M (fst p) (snd p) s of None \<Rightarrow> [] | Some (s', cs, r) \<Rightarrow> cs)"

lemma ioc_calls_cases:
  "ioc_calls M s p = [] \<or> ioc_calls M s p = [Lock state_lock, Unlock state_lock]"
  by (auto simp: ioc_calls_def ioctl_basics_ioctl_def Let_def split: option.split prod.split)

interpretation ioc_session: module_session
    "\<lambda>e. (\<lparr>reads = 0, echoes = 0, resets = 0, mode = MODE_IDENTITY\<rparr>, ioctl_basics_init e)"
    "\<lambda>s p. (ioc_step M s p, ioc_calls M s p)" "\<lambda>s. ioctl_basics_exit" ioc_live for M
proof
  fix s w p s' t
  assume w: "ioc_live s w" and t: "(ioc_step M s p, ioc_calls M s p) = (s', t)"
  from t have "t = ioc_calls M s p" by simp
  with ioc_calls_cases[of M s p] have "t = [] \<or> t = [Lock state_lock, Unlock state_lock]" by simp
  with w show "\<exists>w'. kruns w t = Some w' \<and> ioc_live s' w'" by (auto simp: ioc_live_def)
qed (auto simp: ioctl_basics_init_def ioctl_basics_exit_def ioc_live_def quiet_iff insert_Diff_if Let_def
      split: option.splits)

end
