(* ===== verification/GpioCtrl.thy ===== *)
theory GpioCtrl
  imports KernelAPI
begin

text \<open>
  \<^verbatim>\<open>03_gpio_sim/gpioctrl.c\<close>: a driver that polls a button line from a delayed work
  item and keeps an LED line in step with it, with its state shown and changed through
  sysfs and through \<open>/dev/gpioctrl\<close>. Both writers parse text, both end in the same
  lock-protected operations.
\<close>

section \<open>State\<close>

datatype gpio_obj = state_lock | state_mem | gdev_ref | gpioctrl_miscdev | gpioctrl_attr_group | gpio_work

text \<open>\<open>int\<close> fields are only stored and printed, never computed with.\<close>

record gpioctrl_state =
  button :: int
  led :: int
  invert :: bool
  poll_ms :: u32
  samples :: u64
  changes :: u64
  output_updates :: u64
  loaded_at_ns :: u64
  init_pid :: int
  init_comm :: string
  last_sample_pid :: int
  last_sample_comm :: string

text \<open>
  The state together with the value last handed to the GPIO subsystem for the LED line
  (by \<open>gpiod_set_value_cansleep\<close> or \<open>gpiod_direction_output\<close>).
\<close>

record gpio = gpioctrl_state +
  led_line :: int

record gpio_params =
  gpio_label :: string
  button_offset :: int
  led_offset :: int
  initial_poll_ms :: u32
  initial_invert :: bool

text \<open>
  What one call finds: the task it runs in, what \<open>gpiod_get_value_cansleep(button)\<close>
  returns (negative for an error), the clock, and whether the kernel's rate limit lets an
  error line through.
\<close>

record gpio_ctx =
  cur_pid :: int
  cur_comm :: string
  button_in :: int
  now_ns :: u64
  log_allowed :: bool

abbreviation MIN_POLL_MS :: u32 where "MIN_POLL_MS \<equiv> 10"
abbreviation MAX_POLL_MS :: u32 where "MAX_POLL_MS \<equiv> 60000"

text \<open>A handler returns the new state, its trace, the kernel log lines and its result.\<close>

type_synonym 'a gpio_result = "gpio \<times> gpio_obj kcall list \<times> string list \<times> (errno + 'a)"

abbreviation locked_section :: "gpio_obj kcall list" where
  "locked_section \<equiv> [Lock state_lock, Unlock state_lock]"

section \<open>Sampling\<close>

definition gpioctrl_get_poll_ms :: "gpio \<Rightarrow> u32 \<times> gpio_obj kcall list" where
  "gpioctrl_get_poll_ms s = (poll_ms s, locked_section)"

definition ctx_text :: "string \<Rightarrow> int \<Rightarrow> string" where
  \<comment> \<open>\<open>%s[%d]\<close>\<close>
  "ctx_text comm pid = comm @ ''['' @ fmt_d pid @ '']''"

definition sample_log :: "gpio_ctx \<Rightarrow> gpio \<Rightarrow> string" where
  "sample_log c s =
     ''gpioctrl: state: button='' @ fmt_d (button_in c) @ '' led='' @ fmt_d (led s)
       @ '' samples='' @ fmt_u (samples s) @ '' changes='' @ fmt_u (changes s)
       @ '' updates='' @ fmt_u (output_updates s)
       @ '' ctx='' @ ctx_text (cur_comm c) (cur_pid c) @ [newline]"

definition desired_led :: "bool \<Rightarrow> int \<Rightarrow> int" where
  "desired_led inverted button_value =
     (if inverted then (if button_value = 0 then 1 else 0) else button_value)"

text \<open>The section under the mutex, for a button value that was read, and the whole routine.\<close>

definition button_changed :: "int \<Rightarrow> gpio \<Rightarrow> bool" where
  "button_changed button_value s \<longleftrightarrow> button s \<noteq> -1 \<and> button_value \<noteq> button s"

definition sample_locked :: "gpio_ctx \<Rightarrow> gpio \<Rightarrow> gpio" where
  "sample_locked c s =
     (let button_value = button_in c;
          desired = desired_led (invert s) button_value;
          s1 = s\<lparr>samples := samples s + 1\<rparr>;
          s2 = (if button_changed button_value s then s1\<lparr>changes := changes s1 + 1\<rparr> else s1);
          s3 = (if desired \<noteq> led s2
                then s2\<lparr>led_line := desired, led := desired,
                        output_updates := output_updates s2 + 1\<rparr>
                else s2)
      in s3\<lparr>button := button_value, last_sample_pid := cur_pid c,
            last_sample_comm := strscpy (cur_comm c) TASK_COMM_LEN\<rparr>)"

definition gpioctrl_sample_once :: "gpio_ctx \<Rightarrow> bool \<Rightarrow> gpio \<Rightarrow> unit gpio_result" where
  "gpioctrl_sample_once c force_log s =
     (if button_in c < 0 then (s, [], [], Inl (Passed (button_in c)))
      else
        (let changed = button_changed (button_in c) s; s1 = sample_locked c s
         in (s1, locked_section, if changed \<or> force_log then [sample_log c s1] else [], Inr ())))"

text \<open>\<open>J\<close> is \<open>msecs_to_jiffies\<close>.\<close>

definition gpioctrl_work_fn ::
    "(u32 \<Rightarrow> nat) \<Rightarrow> gpio_ctx \<Rightarrow> gpio \<Rightarrow> gpio \<times> gpio_obj kcall list \<times> string list" where
  "gpioctrl_work_fn J c s =
     (let (s1, cs1, log1, ret) = gpioctrl_sample_once c False s;
          log2 = (case ret of
                    Inl e \<Rightarrow> if log_allowed c
                             then [''gpioctrl: poll: GPIO read failed err='' @ fmt_d (button_in c) @ [newline]]
                             else []
                  | Inr u \<Rightarrow> []);
          (delay, cs2) = gpioctrl_get_poll_ms s1
      in (s1, cs1 @ cs2 @ [Arm gpio_work (J delay)], log1 @ log2))"

section \<open>sysfs\<close>

definition button_show :: "gpio \<Rightarrow> string \<times> gpio_obj kcall list" where
  "button_show s = (sysfs_emit (fmt_d (button s) @ [newline]), locked_section)"

definition led_show :: "gpio \<Rightarrow> string \<times> gpio_obj kcall list" where
  "led_show s = (sysfs_emit (fmt_d (led s) @ [newline]), locked_section)"

definition samples_show :: "gpio \<Rightarrow> string \<times> gpio_obj kcall list" where
  "samples_show s = (sysfs_emit (fmt_u (samples s) @ [newline]), locked_section)"

definition changes_show :: "gpio \<Rightarrow> string \<times> gpio_obj kcall list" where
  "changes_show s = (sysfs_emit (fmt_u (changes s) @ [newline]), locked_section)"

definition output_updates_show :: "gpio \<Rightarrow> string \<times> gpio_obj kcall list" where
  "output_updates_show s = (sysfs_emit (fmt_u (output_updates s) @ [newline]), locked_section)"

definition uptime_ms_show :: "gpio_ctx \<Rightarrow> gpio \<Rightarrow> string \<times> gpio_obj kcall list" where
  "uptime_ms_show c s =
     (let uptime = now_ns c - loaded_at_ns s
      in (sysfs_emit (fmt_u (uptime div 1000000) @ [newline]), locked_section))"

definition invert_show :: "gpio \<Rightarrow> string \<times> gpio_obj kcall list" where
  "invert_show s = (sysfs_emit (fmt_b (invert s) @ [newline]), locked_section)"

definition poll_ms_show :: "gpio \<Rightarrow> string \<times> gpio_obj kcall list" where
  "poll_ms_show s = (sysfs_emit (fmt_u (poll_ms s) @ [newline]), locked_section)"

definition invert_log :: "gpio_ctx \<Rightarrow> bool \<Rightarrow> string" where
  "invert_log c v =
     ''gpioctrl: control: invert='' @ fmt_b v @ '' ctx='' @ ctx_text (cur_comm c) (cur_pid c) @ [newline]"

definition poll_ms_log :: "gpio_ctx \<Rightarrow> u32 \<Rightarrow> string" where
  "poll_ms_log c v =
     ''gpioctrl: control: poll_ms='' @ fmt_u v @ '' ctx='' @ ctx_text (cur_comm c) (cur_pid c) @ [newline]"

text \<open>The written text is \<open>buf\<close>, \<open>count\<close> its length; the result of the sample is ignored.\<close>

definition invert_store :: "kstr \<Rightarrow> gpio_ctx \<Rightarrow> string \<Rightarrow> gpio \<Rightarrow> nat gpio_result" where
  "invert_store K c buf s =
     (case kstrtobool K buf of
        Inl e \<Rightarrow> (s, [], [], Inl e)
      | Inr value \<Rightarrow>
          (let s1 = s\<lparr>invert := value\<rparr>;
               (s2, cs2, log2, ret) = gpioctrl_sample_once c True s1
           in (s2, locked_section @ cs2, invert_log c value # log2, Inr (length buf))))"

definition poll_ms_store :: "kstr \<Rightarrow> (u32 \<Rightarrow> nat) \<Rightarrow> gpio_ctx \<Rightarrow> string \<Rightarrow> gpio \<Rightarrow> nat gpio_result" where
  "poll_ms_store K J c buf s =
     (case kstrtouint K buf 0 of
        Inl e \<Rightarrow> (s, [], [], Inl e)
      | Inr value \<Rightarrow>
          if value < MIN_POLL_MS \<or> value > MAX_POLL_MS then (s, [], [], Inl ERANGE)
          else (s\<lparr>poll_ms := value\<rparr>, locked_section @ [Arm gpio_work (J value)],
                [poll_ms_log c value], Inr (length buf)))"

text \<open>The attribute group: which file shows what.\<close>

datatype gpio_attr =
    A_button | A_led | A_samples | A_changes | A_output_updates | A_uptime_ms | A_invert | A_poll_ms

definition gpioctrl_attrs :: "gpio_attr list" where
  "gpioctrl_attrs = [A_button, A_led, A_samples, A_changes, A_output_updates, A_uptime_ms,
     A_invert, A_poll_ms]"

fun attr_show :: "gpio_attr \<Rightarrow> gpio_ctx \<Rightarrow> gpio \<Rightarrow> string \<times> gpio_obj kcall list" where
  "attr_show A_button c s = button_show s"
| "attr_show A_led c s = led_show s"
| "attr_show A_samples c s = samples_show s"
| "attr_show A_changes c s = changes_show s"
| "attr_show A_output_updates c s = output_updates_show s"
| "attr_show A_uptime_ms c s = uptime_ms_show c s"
| "attr_show A_invert c s = invert_show s"
| "attr_show A_poll_ms c s = poll_ms_show s"

section \<open>The character device\<close>

definition gpioctrl_open :: "gpio_ctx \<Rightarrow> gpio \<Rightarrow> unit gpio_result" where
  "gpioctrl_open c s =
     (s, [], [''gpioctrl: ctl: open ctx='' @ ctx_text (cur_comm c) (cur_pid c) @ [newline]], Inr ())"

definition gpioctrl_release :: "gpio_ctx \<Rightarrow> gpio \<Rightarrow> unit gpio_result" where
  "gpioctrl_release c s =
     (s, [], [''gpioctrl: ctl: close ctx='' @ ctx_text (cur_comm c) (cur_pid c) @ [newline]], Inr ())"

text \<open>The report a read builds in its 512-byte buffer.\<close>

definition report_text :: "gpio_params \<Rightarrow> gpio_ctx \<Rightarrow> gpio \<Rightarrow> string" where
  "report_text P c s =
     (let uptime = now_ns c - loaded_at_ns s in
      ''driver=gpioctrl\<newline>'' @ ''gpiochip='' @ gpio_label P @ [newline]
      @ ''button_offset='' @ fmt_d (button_offset P) @ [newline]
      @ ''led_offset='' @ fmt_d (led_offset P) @ [newline]
      @ ''button='' @ fmt_d (button s) @ [newline]
      @ ''led='' @ fmt_d (led s) @ [newline]
      @ ''invert='' @ fmt_b (invert s) @ [newline]
      @ ''poll_ms='' @ fmt_u (poll_ms s) @ [newline]
      @ ''samples='' @ fmt_u (samples s) @ [newline]
      @ ''changes='' @ fmt_u (changes s) @ [newline]
      @ ''output_updates='' @ fmt_u (output_updates s) @ [newline]
      @ ''uptime_ms='' @ fmt_u (uptime div 1000000) @ [newline]
      @ ''init_ctx='' @ ctx_text (strscpy (init_comm s) TASK_COMM_LEN) (init_pid s) @ [newline]
      @ ''last_sample_ctx='' @ ctx_text (strscpy (last_sample_comm s) TASK_COMM_LEN)
          (last_sample_pid s) @ [newline])"

definition gpioctrl_read ::
    "srfb \<Rightarrow> gpio_params \<Rightarrow> gpio_ctx \<Rightarrow> nat \<Rightarrow> int \<Rightarrow> gpio \<Rightarrow>
     gpio_obj kcall list \<times> (errno + (string \<times> int))" where
  "gpioctrl_read srfb P c count pos s =
     (locked_section, srfb count pos (scnprintf 512 (report_text P c s)))"

text \<open>
  The branches of the write for the commands \<open>invert=\<close> and \<open>poll_ms=\<close>, for a command \<open>cmd\<close> of
  a write of \<open>count\<close> bytes.
\<close>

definition invert_command :: "kstr \<Rightarrow> gpio_ctx \<Rightarrow> string \<Rightarrow> nat \<Rightarrow> gpio \<Rightarrow> nat gpio_result" where
  "invert_command K c cmd count s =
     (case kstrtobool K (drop 7 cmd) of
        Inl e \<Rightarrow> (s, [], [], Inl e)
      | Inr bool_value \<Rightarrow>
          (let s1 = s\<lparr>invert := bool_value\<rparr>;
               (s2, cs2, log2, ret) = gpioctrl_sample_once c True s1
           in (s2, locked_section @ cs2, invert_log c bool_value # log2, Inr count)))"

definition poll_ms_command ::
    "kstr \<Rightarrow> (u32 \<Rightarrow> nat) \<Rightarrow> gpio_ctx \<Rightarrow> string \<Rightarrow> nat \<Rightarrow> gpio \<Rightarrow> nat gpio_result" where
  "poll_ms_command K J c cmd count s =
     (case kstrtouint K (drop 8 cmd) 0 of
        Inl e \<Rightarrow> (s, [], [], Inl e)
      | Inr poll_value \<Rightarrow>
          if poll_value < MIN_POLL_MS \<or> poll_value > MAX_POLL_MS then (s, [], [], Inl ERANGE)
          else (s\<lparr>poll_ms := poll_value\<rparr>, locked_section @ [Arm gpio_work (J poll_value)],
                [poll_ms_log c poll_value], Inr count))"

text \<open>
  The bytes the user passed are \<open>buf\<close>; \<open>cfu\<close> copies them. The buffer is terminated at
  \<open>count\<close>, so the command ends there or at an earlier NUL the user sent.
\<close>

definition gpioctrl_write ::
    "kstr \<Rightarrow> (string \<Rightarrow> string \<times> nat) \<Rightarrow> (u32 \<Rightarrow> nat) \<Rightarrow> gpio_ctx \<Rightarrow> string \<Rightarrow> gpio \<Rightarrow>
     nat gpio_result" where
  "gpioctrl_write K cfu J c buf s =
     (if length buf = 0 \<or> length buf \<ge> 64 then (s, [], [], Inl E2BIG)
      else
        (let (kbuf, left) = cfu buf; cmd = strim K (cstr kbuf) in
         if left \<noteq> 0 then (s, [], [], Inl EFAULT)
         else if sysfs_streq K cmd ''sync'' then
           (let (s1, cs, log, ret) = gpioctrl_sample_once c True s
            in (s1, cs, log, case ret of Inl e \<Rightarrow> Inl e | Inr u \<Rightarrow> Inr (length buf)))
         else if sysfs_streq K cmd ''reset_stats'' then
           (s\<lparr>samples := 0, changes := 0, output_updates := 0\<rparr>, locked_section,
            [''gpioctrl: control: statistics reset ctx='' @ ctx_text (cur_comm c) (cur_pid c) @ [newline]],
            Inr (length buf))
         else if strncmp_eq cmd ''invert='' 7 then invert_command K c cmd (length buf) s
         else if strncmp_eq cmd ''poll_ms='' 8 then poll_ms_command K J c cmd (length buf) s
         else (s, [], [], Inl EINVAL)))"

lemmas gpio_write_defs = gpioctrl_write_def invert_command_def poll_ms_command_def

section \<open>Loading and unloading\<close>

text \<open>
  What the log lines say of the allocation, and the clock at the end of the init and the exit
  function.
\<close>

record gpio_mem =
  state_ptr :: string  \<comment> \<open>\<open>%p\<close>\<close>
  state_size :: nat
  done_ns :: u64

text \<open>
  The outcomes of the kernel calls the init function makes: the allocation, the lookup of
  the GPIO chip, the two descriptors, the two directions, the registrations.
\<close>

record gpio_env =
  e_mem :: gpio_mem
  e_kzalloc :: bool
  e_gdev :: bool
  e_button :: "errno option"
  e_led :: "errno option"
  e_input :: "errno option"
  e_output :: "errno option"
  e_misc :: "errno option"
  e_group :: "errno option"

text \<open>
  The result: the new \<open>state\<close> pointer (\<open>None\<close> is \<open>NULL\<close>), the LED line, the trace,
  the log and the error. \<open>line\<close> is the line before; \<open>start_ns\<close> is the clock of the context.
\<close>

definition initial_state :: "gpio_params \<Rightarrow> gpio_ctx \<Rightarrow> int \<Rightarrow> gpio" where
  "initial_state P c line =
     \<lparr>button = -1, led = -1, invert = initial_invert P, poll_ms = initial_poll_ms P,
      samples = 0, changes = 0, output_updates = 0, loaded_at_ns = now_ns c,
      init_pid = cur_pid c, init_comm = strscpy (cur_comm c) TASK_COMM_LEN,
      last_sample_pid = 0, last_sample_comm = [], led_line = line\<rparr>"

definition first_sample :: "gpio_ctx \<Rightarrow> int \<Rightarrow> gpio \<Rightarrow> gpio" where
  \<comment> \<open>the section under the mutex, after the line was made an output with value \<open>initial_led\<close>\<close>
  "first_sample c initial_led s =
     s\<lparr>led_line := initial_led, button := button_in c, led := initial_led, samples := 1,
       last_sample_pid := cur_pid c,
       last_sample_comm := strscpy (cur_comm c) TASK_COMM_LEN\<rparr>"

text \<open>The unwinding labels; from \<open>err_led_off\<close> on the LED line is set to 0.\<close>

definition err_free_state :: "gpio_obj kcall list" where
  "err_free_state = [Release state_mem]"

definition err_put_gpio :: "gpio_obj kcall list" where
  "err_put_gpio = Release gdev_ref # err_free_state"

definition err_led_off :: "gpio_obj kcall list" where
  "err_led_off = err_put_gpio"

definition err_misc :: "gpio_obj kcall list" where
  "err_misc = Release gpioctrl_miscdev # err_led_off"

definition init_log :: "gpio_params \<Rightarrow> gpio_mem \<Rightarrow> gpio_ctx \<Rightarrow> gpio \<Rightarrow> string" where
  "init_log P m c s =
     ''gpioctrl: init: ctx='' @ ctx_text (cur_comm c) (cur_pid c)
       @ '' state='' @ state_ptr m @ '' size='' @ dec (state_size m)
       @ '' gpiochip='' @ gpio_label P @ '' button='' @ fmt_d (button_offset P)
       @ '' led='' @ fmt_d (led_offset P) @ '' poll='' @ fmt_u (poll_ms s)
       @ ''ms invert='' @ fmt_b (invert s) @ [newline]"

definition failed_log :: "errno \<Rightarrow> string" where
  "failed_log ret = ''gpioctrl: init: failed err='' @ fmt_d (errno_int ret) @ [newline]"

definition ready_log :: "gpio_mem \<Rightarrow> gpio_ctx \<Rightarrow> int \<Rightarrow> string list" where
  "ready_log m c initial_led =
     [''gpioctrl: state: button='' @ fmt_d (button_in c) @ '' led='' @ fmt_d initial_led @ [newline],
      ''gpioctrl: init: completed in '' @ fmt_u ((done_ns m - now_ns c) div 1000) @ '' us\<newline>'']"

text \<open>The end of the init function: from the first sample in the state to the registered driver.\<close>

definition init_register ::
    "(u32 \<Rightarrow> nat) \<Rightarrow> gpio_env \<Rightarrow> gpio_ctx \<Rightarrow> int \<Rightarrow> gpio \<Rightarrow>
     gpio option \<times> int \<times> gpio_obj kcall list \<times> string list \<times> errno option" where
  "init_register J e c initial_led s =
     (case e_misc e of
        Some x \<Rightarrow> (None, 0, err_led_off, [failed_log x], Some x)
      | None \<Rightarrow>
          (case e_group e of
             Some x \<Rightarrow> (None, 0, Acquire gpioctrl_miscdev # err_misc, [failed_log x], Some x)
           | None \<Rightarrow>
               (Some s, initial_led,
                [Acquire gpioctrl_miscdev, Acquire gpioctrl_attr_group, Arm gpio_work (J (poll_ms s))],
                ready_log (e_mem e) c initial_led, None)))"

definition gpioctrl_init ::
    "gpio_params \<Rightarrow> (u32 \<Rightarrow> nat) \<Rightarrow> gpio_env \<Rightarrow> gpio_ctx \<Rightarrow> int \<Rightarrow>
     gpio option \<times> int \<times> gpio_obj kcall list \<times> string list \<times> errno option" where
  "gpioctrl_init P J e c line =
     (if \<not> e_kzalloc e then (None, line, [], [], Some ENOMEM)
      else
        (let s = initial_state P c line;
             log = init_log P (e_mem e) c s;
             got = [Acquire state_mem, Acquire gdev_ref];
             fail = (\<lambda>x. (None, line, got @ err_put_gpio, [log, failed_log x], Some x))
         in if \<not> e_gdev e
            then (None, line, Acquire state_mem # err_free_state, [log, failed_log ENODEV], Some ENODEV)
            else (case e_button e of Some x \<Rightarrow> fail x | None \<Rightarrow>
                 (case e_led e of Some x \<Rightarrow> fail x | None \<Rightarrow>
                 (case e_input e of Some x \<Rightarrow> fail x | None \<Rightarrow>
                  if button_in c < 0 then fail (Passed (button_in c))
                  else
                    (let initial_led = desired_led (invert s) (button_in c)
                     in case e_output e of Some x \<Rightarrow> fail x | None \<Rightarrow>
                       (let s1 = first_sample c initial_led s;
                            (so, l, cs, log2, r) = init_register J e c initial_led s1
                        in (so, l, got @ locked_section @ cs, log # log2, r))))))))"

lemmas gpio_init_defs = gpioctrl_init_def init_register_def initial_state_def first_sample_def
  err_free_state_def err_put_gpio_def err_led_off_def err_misc_def

text \<open>
  The exit function after its first statement; \<open>led_in\<close> is what reading the LED line
  back gives. The result: the LED line it leaves, the trace and the log.
\<close>

definition gpioctrl_exit_rest ::
    "gpio_mem \<Rightarrow> gpio_ctx \<Rightarrow> int \<Rightarrow> gpio \<Rightarrow> int \<times> gpio_obj kcall list \<times> string list" where
  "gpioctrl_exit_rest m c led_in s =
     (let s1 = s\<lparr>led_line := 0, led := 0\<rparr>;
          uptime = now_ns c - loaded_at_ns s1
      in (led_line s1,
          [Release gpioctrl_attr_group, Release gpioctrl_miscdev] @ locked_section
            @ [Release gdev_ref, Release state_mem],
          [''gpioctrl: exit: ctx='' @ ctx_text (cur_comm c) (cur_pid c)
             @ '' button='' @ fmt_d (button_in c) @ '' led='' @ fmt_d led_in
             @ '' samples='' @ fmt_u (samples s1) @ '' changes='' @ fmt_u (changes s1)
             @ '' updates='' @ fmt_u (output_updates s1)
             @ '' uptime='' @ fmt_u (uptime div 1000000) @ '' ms\<newline>'',
           ''gpioctrl: memory: freeing state='' @ state_ptr m @ '' size='' @ dec (state_size m) @ [newline],
           ''gpioctrl: exit: completed in '' @ fmt_u ((done_ns m - now_ns c) div 1000) @ '' us\<newline>'']))"

definition gpioctrl_exit ::
    "gpio_mem \<Rightarrow> gpio_ctx \<Rightarrow> int \<Rightarrow> gpio \<Rightarrow> int \<times> gpio_obj kcall list \<times> string list" where
  "gpioctrl_exit m c led_in s =
     (let (line, cs, log) = gpioctrl_exit_rest m c led_in s
      in (line, Cancel gpio_work # cs, log))"

section \<open>The driver as a machine\<close>

datatype gpio_op =
    Work | Invert_store string | Poll_ms_store string
  | Dev_open | Dev_release | Dev_read nat int
  | Dev_write "string \<Rightarrow> string \<times> nat" string | Show gpio_attr

fun gpio_serve ::
    "kstr \<Rightarrow> (u32 \<Rightarrow> nat) \<Rightarrow> srfb \<Rightarrow> gpio_params \<Rightarrow> gpio \<Rightarrow> gpio_ctx \<times> gpio_op \<Rightarrow> gpio \<times> gpio_obj kcall list" where
  "gpio_serve K J srfb P s (c, Work) =
     (let (s1, cs, log) = gpioctrl_work_fn J c s in (s1, cs))"
| "gpio_serve K J srfb P s (c, Invert_store b) =
     (let (s1, cs, log, r) = invert_store K c b s in (s1, cs))"
| "gpio_serve K J srfb P s (c, Poll_ms_store b) =
     (let (s1, cs, log, r) = poll_ms_store K J c b s in (s1, cs))"
| "gpio_serve K J srfb P s (c, Dev_open) = (let (s1, cs, log, r) = gpioctrl_open c s in (s1, cs))"
| "gpio_serve K J srfb P s (c, Dev_release) = (let (s1, cs, log, r) = gpioctrl_release c s in (s1, cs))"
| "gpio_serve K J srfb P s (c, Dev_read n pos) = (s, fst (gpioctrl_read srfb P c n pos s))"
| "gpio_serve K J srfb P s (c, Dev_write cfu b) =
     (let (s1, cs, log, r) = gpioctrl_write K cfu J c b s in (s1, cs))"
| "gpio_serve K J srfb P s (c, Show a) = (s, snd (attr_show a c s))"

definition gpio_step ::
    "kstr \<Rightarrow> (u32 \<Rightarrow> nat) \<Rightarrow> srfb \<Rightarrow> gpio_params \<Rightarrow> gpio \<Rightarrow> gpio_ctx \<times> gpio_op \<Rightarrow> gpio" where
  "gpio_step K J srfb P s p = fst (gpio_serve K J srfb P s p)"

text \<open>
  Every operation is one of a few changes to the state with a matching trace: nothing, a
  sample (possibly after a new \<open>invert\<close>), a reset of the counters, a new interval in
  range, or the work function. The invariants below are each proved over these cases only.
\<close>

definition sampled :: "gpio_ctx \<Rightarrow> gpio \<Rightarrow> gpio" where
  "sampled c s = (if button_in c < 0 then s else sample_locked c s)"

definition sample_calls :: "gpio_ctx \<Rightarrow> gpio_obj kcall list" where
  "sample_calls c = (if button_in c < 0 then [] else locked_section)"

definition sample_logs :: "gpio_ctx \<Rightarrow> bool \<Rightarrow> gpio \<Rightarrow> string list" where
  "sample_logs c force_log s = fst (snd (snd (gpioctrl_sample_once c force_log s)))"

lemma sample_once_eq:
  "gpioctrl_sample_once c f s =
     (sampled c s, sample_calls c, sample_logs c f s,
      if button_in c < 0 then Inl (Passed (button_in c)) else Inr ())"
  by (simp add: sampled_def sample_calls_def sample_logs_def gpioctrl_sample_once_def Let_def)

text \<open>What a sample does to each field.\<close>

lemma sample_locked_fields [simp]:
  "poll_ms (sample_locked c s) = poll_ms s" "invert (sample_locked c s) = invert s"
  "button (sample_locked c s) = button_in c"
  "led (sample_locked c s) = desired_led (invert s) (button_in c)"
  "samples (sample_locked c s) = samples s + 1"
  "changes (sample_locked c s) = changes s + (if button_changed (button_in c) s then 1 else 0)"
  "output_updates (sample_locked c s) =
     output_updates s + (if desired_led (invert s) (button_in c) \<noteq> led s then 1 else 0)"
  "last_sample_pid (sample_locked c s) = cur_pid c"
  "last_sample_comm (sample_locked c s) = strscpy (cur_comm c) TASK_COMM_LEN"
  by (simp_all add: sample_locked_def Let_def)

lemma sample_locked_line:
  "led_line s = led s \<Longrightarrow> led_line (sample_locked c s) = led (sample_locked c s)"
  by (simp add: sample_locked_def Let_def)

lemma sampled_fields:
  "poll_ms (sampled c s) = poll_ms s" "invert (sampled c s) = invert s"
  by (simp_all add: sampled_def)

inductive gpio_change ::
    "(u32 \<Rightarrow> nat) \<Rightarrow> gpio_ctx \<Rightarrow> gpio \<Rightarrow> gpio \<Rightarrow> gpio_obj kcall list \<Rightarrow> bool" for J c s where
  no_change: "gpio_change J c s s []"
| looked: "gpio_change J c s s locked_section"
| sample: "gpio_change J c s (sampled c s) (sample_calls c)"
| inverted: "gpio_change J c s (sampled c (s\<lparr>invert := v\<rparr>)) (locked_section @ sample_calls c)"
| reset: "gpio_change J c s (s\<lparr>samples := 0, changes := 0, output_updates := 0\<rparr>) locked_section"
| interval: "MIN_POLL_MS \<le> v \<Longrightarrow> v \<le> MAX_POLL_MS \<Longrightarrow>
    gpio_change J c s (s\<lparr>poll_ms := v\<rparr>) (locked_section @ [Arm gpio_work (J v)])"
| worked: "gpio_change J c s (sampled c s)
    (sample_calls c @ locked_section @ [Arm gpio_work (J (poll_ms s))])"

lemmas gpio_change_intros = gpio_change.intros gpio_change.intros[simplified]

lemma work_fn_eq:
  "fst (gpioctrl_work_fn J c s) = sampled c s"
  "fst (snd (gpioctrl_work_fn J c s)) =
     sample_calls c @ locked_section @ [Arm gpio_work (J (poll_ms s))]"
  by (simp_all add: gpioctrl_work_fn_def gpioctrl_get_poll_ms_def sampled_fields sample_once_eq Let_def)

lemma invert_store_change:
  "invert_store K c b s = (s', cs, log, r) \<Longrightarrow> gpio_change J c s s' cs"
  by (auto simp: invert_store_def Let_def sample_once_eq intro: gpio_change_intros split: sum.splits)

lemma poll_ms_store_change:
  "poll_ms_store K J c b s = (s', cs, log, r) \<Longrightarrow> gpio_change J c s s' cs"
  by (auto simp: poll_ms_store_def not_less intro: gpio_change_intros
      split: sum.splits if_splits)

lemma gpioctrl_write_change:
  "gpioctrl_write K cfu J c b s = (s', cs, log, r) \<Longrightarrow> gpio_change J c s s' cs"
  by (auto simp: gpio_write_defs Let_def sample_once_eq not_less intro: gpio_change_intros
      split: sum.splits if_splits prod.splits)

lemma attr_show_calls: "snd (attr_show a c s) = locked_section"
  by (cases a)
    (simp_all add: button_show_def led_show_def samples_show_def changes_show_def
      output_updates_show_def uptime_ms_show_def invert_show_def poll_ms_show_def Let_def)

lemma gpio_serve_change:
  assumes "gpio_serve K J srfb P s (c, op) = (s', cs)"
  shows "gpio_change J c s s' cs"
proof (cases op)
  case Work
  then show ?thesis
    using assms worked[of J c s] work_fn_eq[of J c s] by (simp split: prod.splits)
next
  case (Invert_store b)
  then show ?thesis using assms invert_store_change by (fastforce split: prod.splits)
next
  case (Poll_ms_store b)
  then show ?thesis using assms poll_ms_store_change by (fastforce split: prod.splits)
next
  case (Dev_write cfu b)
  then show ?thesis using assms gpioctrl_write_change by (fastforce split: prod.splits)
qed (use assms in \<open>auto simp: gpioctrl_open_def gpioctrl_release_def gpioctrl_read_def
        attr_show_calls intro: gpio_change_intros\<close>)

lemma gpio_step_change: "\<exists>cs. gpio_change J (fst p) s (gpio_step K J srfb P s p) cs"
proof -
  obtain c op where p: "p = (c, op)" by fastforce
  obtain s' cs where "gpio_serve K J srfb P s (c, op) = (s', cs)" by fastforce
  from gpio_serve_change[OF this] this show ?thesis by (auto simp: p gpio_step_def)
qed

section \<open>Invariants\<close>

definition poll_in_range :: "gpio \<Rightarrow> bool" where
  "poll_in_range s \<longleftrightarrow> MIN_POLL_MS \<le> poll_ms s \<and> poll_ms s \<le> MAX_POLL_MS"

lemma change_line: "gpio_change J c s s' cs \<Longrightarrow> led_line s = led s \<Longrightarrow> led_line s' = led s'"
  by (cases rule: gpio_change.cases) (auto simp: sampled_def sample_locked_line)

lemma change_poll: "gpio_change J c s s' cs \<Longrightarrow> poll_in_range s \<Longrightarrow> poll_in_range s'"
  by (cases rule: gpio_change.cases) (auto simp: poll_in_range_def sampled_fields)

interpretation line: invariant_machine "gpio_step K J srfb P" "\<lambda>s. led_line s = led s" "\<lambda>_. True"
  for K J srfb P
  by unfold_locales (metis change_line gpio_step_change)

interpretation poll: invariant_machine "gpio_step K J srfb P" poll_in_range "\<lambda>_. True"
  for K J srfb P
  by unfold_locales (metis change_poll gpio_step_change)

text \<open>
  The counters: at most \<open>k\<close> samples since they were reset, and no more changes or
  updates than samples, as long as fewer than \<open>2 ^ 64\<close> operations have run.
\<close>

definition counters_inv :: "gpio \<times> nat \<Rightarrow> bool" where
  "counters_inv x \<longleftrightarrow> (case x of (s, k) \<Rightarrow>
     k < 2 ^ 64 \<longrightarrow> unat (samples s) \<le> k \<and> unat (changes s) \<le> unat (samples s) \<and>
       unat (output_updates s) \<le> unat (samples s))"

lemma unat_plus1_u64: "unat (w :: u64) < 18446744073709551615 \<Longrightarrow> unat (w + 1) = Suc (unat w)"
  by (simp add: unat_plus_if')

lemma counters_sampled:
  assumes "counters_inv (s, k)"
  shows "counters_inv (sampled c s, Suc k)"
  using assms by (auto simp: counters_inv_def sampled_def unat_plus1_u64)

lemma counters_change:
  assumes "gpio_change J c s s' cs" "counters_inv (s, k)"
  shows "counters_inv (s', Suc k)"
proof -
  have upd: "counters_inv (s\<lparr>invert := v\<rparr>, k)" "counters_inv (s\<lparr>poll_ms := w\<rparr>, Suc k)"
    "counters_inv (s\<lparr>samples := 0, changes := 0, output_updates := 0\<rparr>, Suc k)"
    "counters_inv (s, Suc k)" for v w
    using assms(2) by (auto simp: counters_inv_def)
  show ?thesis
    using assms(1)
    by (cases rule: gpio_change.cases) (use assms(2) in \<open>simp_all add: upd counters_sampled\<close>)
qed

interpretation counters: invariant_machine "\<lambda>(s, k) p. (gpio_step K J srfb P s p, Suc k)"
    counters_inv "\<lambda>_. True" for K J srfb P
proof
  fix x p assume x: "counters_inv x"
  obtain s k where sk: "x = (s, k)" by fastforce
  obtain cs where "gpio_change J (fst p) s (gpio_step K J srfb P s p) cs"
    using gpio_step_change by blast
  from counters_change[OF this] x
  show "counters_inv ((\<lambda>(s, k) p. (gpio_step K J srfb P s p, Suc k)) x p)" by (simp add: sk)
qed

lemma counted_run:
  "foldl (\<lambda>(s, k) p. (step s p, Suc k)) (s, k) ps = (foldl step s ps, k + length ps)"
  by (induction ps arbitrary: s k) auto

text \<open>What a successful load leaves.\<close>

lemma init_ok:
  assumes "gpioctrl_init P J e c line = (Some s, l, t, lg, None)"
  shows "led_line s = led s" "poll_ms s = initial_poll_ms P" "invert s = initial_invert P"
    "counters_inv (s, 1)" "button s = button_in c" "led s = desired_led (invert s) (button s)"
    "last t = Arm gpio_work (J (poll_ms s))" "l = led s" "0 \<le> button_in c"
  using assms
  by (auto simp: gpio_init_defs Let_def counters_inv_def split: if_splits option.splits)

text \<open>Every arming of the work item asks for an interval in range.\<close>

lemma change_arms:
  "gpio_change J c s s' cs \<Longrightarrow> poll_in_range s \<Longrightarrow> Arm gpio_work d \<in> set cs \<Longrightarrow>
   \<exists>v. MIN_POLL_MS \<le> v \<and> v \<le> MAX_POLL_MS \<and> d = J v"
  by (cases rule: gpio_change.cases) (auto simp: sample_calls_def poll_in_range_def split: if_splits)

lemma serve_all_arms:
  "serve_all (gpio_serve K J srfb P) s ps = (s', t) \<Longrightarrow> poll_in_range s \<Longrightarrow>
   poll_in_range s' \<and>
   (\<forall>d. Arm gpio_work d \<in> set t \<longrightarrow> (\<exists>v. MIN_POLL_MS \<le> v \<and> v \<le> MAX_POLL_MS \<and> d = J v))"
proof (induction ps arbitrary: s s' t)
  case Nil
  then show ?case by simp
next
  case (Cons p ps)
  obtain c op where p: "p = (c, op)" by fastforce
  obtain s1 t1 where 1: "gpio_serve K J srfb P s (c, op) = (s1, t1)" by fastforce
  obtain s2 t2 where 2: "serve_all (gpio_serve K J srfb P) s1 ps = (s2, t2)" by fastforce
  note ch = gpio_serve_change[OF 1]
  from Cons.IH[OF 2 change_poll[OF ch Cons.prems(2)]] change_arms[OF ch Cons.prems(2)]
  show ?case using Cons.prems(1) 1 2 by (auto simp: p)
qed

lemma strip_prefixed:
  assumes "kstr_documented K" "ascii p" "p \<noteq> []" "\<not> isspace (hd p)" "tight v" "ascii v"
    "NUL \<notin> set p" "NUL \<notin> set v"
  shows "strim K (cstr (p @ v @ [newline])) = p @ v" "strim K (cstr (p @ v)) = p @ v"
proof -
  have "tight (p @ v)" using assms by (simp add: tight_append)
  moreover have "ascii (p @ v @ [newline])" "ascii (p @ v)"
    using assms(2,6) by (auto simp: ascii_def)
  ultimately show "strim K (cstr (p @ v @ [newline])) = p @ v" "strim K (cstr (p @ v)) = p @ v"
    using kstrip_newline[of "p @ v"] kstrip_tight[of "p @ v"] assms(7,8)
      strimD[OF assms(1), of "p @ v @ [newline]"] strimD[OF assms(1), of "p @ v"]
    by (simp_all add: cstr_id)
qed

lemma poll_ms_written:
  assumes "kstr_documented K" and "n < 2 ^ 32" and "\<And>b. cfu b = (b, 0)"
  shows "gpioctrl_write K cfu J c (''poll_ms='' @ dec n @ [newline]) s =
      (case poll_ms_store K J c (dec n @ [newline]) s of
         (s2, cs2, log2, r2) \<Rightarrow> (s2, cs2, log2, map_sum id (\<lambda>k. k + 8) r2))"
proof -
  have p: "strim K (cstr (''poll_ms='' @ dec n @ [newline])) = ''poll_ms='' @ dec n"
    by (rule strip_prefixed) (use assms in \<open>auto simp: ascii_def[of "''poll_ms=''"] isspace_def\<close>)
  have n: "length (dec n) \<le> 10" using assms(2) by (intro length_dec) auto
  show ?thesis
    using n p kstrtouintD[OF assms(1,2)]
    by (simp add: gpio_write_defs poll_ms_store_def assms(3) streqD[OF assms(1)] strncmp_eq_def
        Let_def)
qed

text \<open>A blank behind the number: the device strips it, the sysfs file hands it to \<open>kstrtouint\<close>.\<close>

lemma kstrip_blank: "tight s \<Longrightarrow> kstrip (s @ '' '' @ [newline]) = s"
proof -
  assume t: "tight s"
  then have "dropWhile isspace (s @ '' '' @ [newline]) = s @ '' '' @ [newline]"
    by (intro dropWhile_head) (auto simp: tight_def)
  moreover have "isspace CHR '' ''" by (simp add: isspace_def)
  moreover have "dropWhile isspace (rev s) = rev s"
    using t by (intro dropWhile_head) (auto simp: tight_def hd_rev)
  ultimately show ?thesis by (simp add: kstrip_def)
qed

lemma poll_ms_blank:
  assumes "kstr_documented K" and "n < 2 ^ 32" and "\<And>b. cfu b = (b, 0)"
  shows "gpioctrl_write K cfu J c (''poll_ms='' @ dec n @ '' '' @ [newline]) s =
      (case poll_ms_store K J c (dec n @ [newline]) s of
         (s2, cs2, log2, r2) \<Rightarrow> (s2, cs2, log2, map_sum id (\<lambda>k. k + 9) r2))"
proof -
  have t: "tight (''poll_ms='' @ dec n)" by (rule tight_append) (simp_all add: isspace_def)
  have "ascii (''poll_ms='' @ dec n @ '' '' @ [newline])" using ascii_dec[of n] by (simp add: ascii_def)
  moreover have "cstr (''poll_ms='' @ dec n @ '' '' @ [newline]) = ''poll_ms='' @ dec n @ '' '' @ [newline]"
    by (rule cstr_id) simp
  ultimately have p: "strim K (cstr (''poll_ms='' @ dec n @ '' '' @ [newline])) = ''poll_ms='' @ dec n"
    using strimD[OF assms(1)] kstrip_blank[OF t] by simp
  have n: "length (dec n) \<le> 10" using assms(2) by (intro length_dec) auto
  show ?thesis
    using n p kstrtouintD[OF assms(1,2)]
    by (simp add: gpio_write_defs poll_ms_store_def assms(3) streqD[OF assms(1)] strncmp_eq_def
        Let_def)
qed

lemma poll_ms_stored:
  assumes "kstr_documented K" and "10 \<le> n" and "n \<le> 60000"
  shows "poll_ms_store K J c (dec n @ [newline]) s = (s\<lparr>poll_ms := of_nat n\<rparr>,
      locked_section @ [Arm gpio_work (J (of_nat n))], [poll_ms_log c (of_nat n)],
      Inr (length (dec n @ [newline])))"
proof -
  have n: "n < 2 ^ 32" using assms(3) by simp
  have u: "unat (of_nat n :: u32) = n" using n by (simp add: unat_of_nat)
  have "\<not> (of_nat n :: u32) < MIN_POLL_MS" "\<not> (of_nat n :: u32) > MAX_POLL_MS"
    using assms(2,3) u by (simp_all add: word_less_nat_alt)
  then show ?thesis using kstrtouintD(2)[OF assms(1) n] by (simp add: poll_ms_store_def)
qed

lemma cfu_always: "cfu_documented cfu \<Longrightarrow> \<forall>b. snd (cfu b) = 0 \<Longrightarrow> cfu b = (b, 0)"
  by (metis cfu_documented_def prod.collapse)

lemma bool_word_newline: "v \<noteq> [] \<Longrightarrow> bool_word (v @ [newline]) = bool_word v"
  by (cases v; cases "tl v") (auto simp: bool_word_def split: list.splits)

lemma map_sum_unit: "map_sum id (\<lambda>_. ()) (map_sum id g x) = map_sum id (\<lambda>_. ()) x"
  by (cases x) simp_all

lemma sample_failed:
  "button_in c < 0 \<Longrightarrow> sampled c s = s \<and> sample_calls c = [] \<and> sample_logs c f s = []"
  by (simp add: sampled_def sample_calls_def sample_logs_def gpioctrl_sample_once_def)

section \<open>Properties\<close>

text \<open>Concrete inputs for the witnesses.\<close>

definition ref_ctx :: "int \<Rightarrow> gpio_ctx" where
  "ref_ctx v = \<lparr>cur_pid = 1, cur_comm = ''sh'', button_in = v, now_ns = 5000000, log_allowed = True\<rparr>"

definition ref_params :: "u32 \<Rightarrow> gpio_params" where
  "ref_params poll = \<lparr>gpio_label = ''gpio-sim.0:node0'', button_offset = 20, led_offset = 21,
     initial_poll_ms = poll, initial_invert = False\<rparr>"

definition ref_mem :: gpio_mem where
  "ref_mem = \<lparr>state_ptr = ''0000abcd'', state_size = 112, done_ns = 9000000\<rparr>"

definition ref_env :: gpio_env where
  "ref_env = \<lparr>e_mem = ref_mem, e_kzalloc = True, e_gdev = True, e_button = None, e_led = None, e_input = None,
     e_output = None, e_misc = None, e_group = None\<rparr>"

definition ref_loaded :: "u32 \<Rightarrow> int \<Rightarrow> gpio" where
  "ref_loaded poll v = \<lparr>button = v, led = v, invert = False, poll_ms = poll, samples = 1,
     changes = 0, output_updates = 0, loaded_at_ns = 5000000, init_pid = 1, init_comm = ''sh'',
     last_sample_pid = 1, last_sample_comm = ''sh'', led_line = v\<rparr>"

lemma ref_init:
  "0 \<le> v \<Longrightarrow> gpioctrl_init (ref_params poll) unat ref_env (ref_ctx v) 0 =
     (Some (ref_loaded poll v), v,
      [Acquire state_mem, Acquire gdev_ref, Lock state_lock, Unlock state_lock,
       Acquire gpioctrl_miscdev, Acquire gpioctrl_attr_group, Arm gpio_work (unat poll)],
      init_log (ref_params poll) ref_mem (ref_ctx v) (initial_state (ref_params poll) (ref_ctx v) 0)
        # ready_log ref_mem (ref_ctx v) v, None)"
  by (simp add: gpio_init_defs ref_params_def ref_env_def ref_ctx_def ref_loaded_def
      desired_led_def strscpy_def Let_def)

text \<open>C1: the LED follows the button. After a successful load and any sequence of
  operations, a sample that reads the button drives the LED line to the button's value,
  inverted when \<open>invert\<close> is set; the recorded LED, button and task are those of this sample,
  and the line was written, and the write counted, exactly when its value had to change.\<close>

theorem led_follows_button:
  assumes "gpioctrl_init P J e c0 line0 = (Some s, l, t, lg, None)" and "0 \<le> button_in c"
  shows "let s1 = foldl (gpio_step K J srfb P) s ps;
             (s2, cs, log, r) = gpioctrl_sample_once c f s1
         in r = Inr () \<and> led_line s2 = desired_led (invert s1) (button_in c) \<and>
            led s2 = led_line s2 \<and> button s2 = button_in c \<and> invert s2 = invert s1 \<and>
            last_sample_pid s2 = cur_pid c \<and>
            output_updates s2 = output_updates s1 + (if led_line s2 = led_line s1 then 0 else 1) \<and>
            samples s2 = samples s1 + 1 \<and> lock_balanced cs"
proof -
  let ?s1 = "foldl (gpio_step K J srfb P) s ps"
  have line: "led_line ?s1 = led ?s1"
    using line.run_inv[OF init_ok(1)[OF assms(1)], of ps] by simp
  have "sampled c ?s1 = sample_locked c ?s1" using assms(2) by (simp add: sampled_def)
  then show ?thesis
    using assms(2) line sample_locked_line[OF line, of c]
    by (simp add: sample_once_eq sample_calls_def lock_balanced_def Let_def)
qed

theorem led_follows_button_witness:
  "led_line (fst (gpioctrl_sample_once (ref_ctx 1) False
     (foldl (gpio_step ref_kstr unat ref_srfb (ref_params 500)) (ref_loaded 500 0)
        [(ref_ctx 0, Invert_store ''1'')]))) = 0"
proof -
  have "invert (foldl (gpio_step ref_kstr unat ref_srfb (ref_params 500)) (ref_loaded 500 0)
        [(ref_ctx 0, Invert_store ''1'')])"
    by (simp add: gpio_step_def invert_store_def ref_kstr_def bool_word_def sample_once_eq
        sampled_fields Let_def)
  then show ?thesis
    using led_follows_button[OF ref_init[of 0 500], of "ref_ctx 1" ref_kstr ref_srfb
        "[(ref_ctx 0, Invert_store ''1'')]" False]
    by (simp add: ref_ctx_def desired_led_def Let_def split: prod.splits)
qed

text \<open>The polling interval. From a state with an interval between 10 and 60000
  milliseconds, no sequence of operations leaves that range or arms the work item with an
  interval outside it; and the work function always arms itself again with the interval in
  force, also when reading the button failed, so polling never stops by itself.\<close>

theorem poll_interval_kept:
  assumes "poll_in_range s" and "serve_all (gpio_serve K J srfb P) s ps = (s', t)"
  shows "poll_in_range s' \<and>
    (\<forall>d. Arm gpio_work d \<in> set t \<longrightarrow> (\<exists>v. MIN_POLL_MS \<le> v \<and> v \<le> MAX_POLL_MS \<and> d = J v)) \<and>
    last (fst (snd (gpioctrl_work_fn J c s'))) = Arm gpio_work (J (poll_ms s'))"
  using serve_all_arms[OF assms(2,1)] by (simp add: work_fn_eq)

theorem poll_interval_kept_witness:
  "poll_in_range (fst (serve_all (gpio_serve ref_kstr unat ref_srfb (ref_params 500))
     (ref_loaded 500 0) [(ref_ctx 0, Poll_ms_store ''9''), (ref_ctx 1, Work)]))"
proof -
  obtain s' t where s: "serve_all (gpio_serve ref_kstr unat ref_srfb (ref_params 500))
     (ref_loaded 500 0) [(ref_ctx 0, Poll_ms_store ''9''), (ref_ctx 1, Work)] = (s', t)" by fastforce
  have "poll_in_range (ref_loaded 500 0)" by (simp add: poll_in_range_def ref_loaded_def)
  from poll_interval_kept[OF this s] s show ?thesis by simp
qed

text \<open>The load-time interval is not checked. A number outside the range is refused
  with \<open>-ERANGE\<close> and no effect when it is written to \<open>poll_ms\<close>, but loading the module
  with the same number as \<open>initial_poll_ms\<close> succeeds, keeps it and arms the work item with
  it (0 makes the work item requeue itself without a pause).\<close>

theorem initial_poll_unchecked:
  assumes "kstr_documented K" and "n < 2 ^ 32" and "n < 10 \<or> 60000 < n"
    and "gpioctrl_init P J e c line = (Some s, l, t, lg, None)"
    and "initial_poll_ms P = of_nat n"
  shows "poll_ms_store K J c' (dec n) s = (s, [], [], Inl ERANGE) \<and>
    unat (poll_ms s) = n \<and> last t = Arm gpio_work (J (of_nat n)) \<and>
    last (fst (snd (gpioctrl_work_fn J c' s))) = Arm gpio_work (J (of_nat n))"
proof -
  have n: "unat (of_nat n :: u32) = n" using assms(2) by (simp add: unat_of_nat)
  have "(of_nat n :: u32) < MIN_POLL_MS \<or> (of_nat n :: u32) > MAX_POLL_MS"
    using assms(3) n by (simp add: word_less_nat_alt)
  with kstrtouintD(1)[OF assms(1,2)]
  have "poll_ms_store K J c' (dec n) s = (s, [], [], Inl ERANGE)"
    by (auto simp: poll_ms_store_def)
  then show ?thesis
    using init_ok(2,7)[OF assms(4)] assms(5) n by (simp add: work_fn_eq)
qed

theorem initial_poll_unchecked_witness:
  "poll_ms_store ref_kstr unat (ref_ctx 0) (dec 0) (ref_loaded 0 0) = (ref_loaded 0 0, [], [], Inl ERANGE)"
  using initial_poll_unchecked[OF ref_kstr_documented _ _ ref_init[of 0 0], of 0]
  by (simp add: ref_params_def)

text \<open>The statistics. After a successful load and fewer than \<open>2 ^ 64 - 1\<close> operations,
  resets among them, there were no more changes and no more output updates than samples,
  and no more samples than the load and the operations can account for.\<close>

theorem statistics_bounded:
  assumes "gpioctrl_init P J e c line = (Some s, l, t, lg, None)" and "length ps < 2 ^ 64 - 1"
  shows "let s' = foldl (gpio_step K J srfb P) s ps in
    unat (changes s') \<le> unat (samples s') \<and> unat (output_updates s') \<le> unat (samples s') \<and>
    unat (samples s') \<le> 1 + length ps"
proof -
  have "counters_inv (foldl (gpio_step K J srfb P) s ps, 1 + length ps)"
    using counters.run_inv[OF init_ok(4)[OF assms(1)], where ps = ps and K = K and J = J
        and srfb = srfb and P = P]
    by (simp add: counted_run)
  with assms(2) show ?thesis by (simp add: counters_inv_def Let_def)
qed

theorem statistics_bounded_witness:
  "unat (samples (foldl (gpio_step ref_kstr unat ref_srfb (ref_params 500)) (ref_loaded 500 0)
     [(ref_ctx 1, Work), (ref_ctx 0, Work)])) \<le> 3"
  using statistics_bounded[OF ref_init[of 0 500], of "[(ref_ctx 1, Work), (ref_ctx 0, Work)]"
      ref_kstr ref_srfb]
  by (simp add: Let_def)

text \<open>The errors of a device write. A failing write changes nothing, makes no kernel
  call and logs nothing; it is \<open>-E2BIG\<close> exactly for an empty text or one of 64 bytes and
  more, \<open>-EFAULT\<close> for a failed copy, the error of the button for a failed \<open>sync\<close>, and
  otherwise \<open>-EINVAL\<close> or \<open>-ERANGE\<close>. A write that succeeds reports its whole length.\<close>

theorem gpioctrl_write_errors:
  assumes "kstr_documented K" and "gpioctrl_write K cfu J c buf s = (s', cs, log, r)"
  shows "case r of
      Inr n \<Rightarrow> n = length buf \<and> 0 < n \<and> n < 64 \<and> snd (cfu buf) = 0 \<and> lock_balanced cs
    | Inl e \<Rightarrow> s' = s \<and> cs = [] \<and> log = [] \<and>
        (e = E2BIG \<longleftrightarrow> buf = [] \<or> 64 \<le> length buf) \<and>
        (e = EFAULT \<longleftrightarrow> buf \<noteq> [] \<and> length buf < 64 \<and> snd (cfu buf) \<noteq> 0) \<and>
        (e \<in> {E2BIG, EFAULT, EINVAL, ERANGE} \<or> e = Passed (button_in c) \<and> button_in c < 0)"
proof -
  have b: "kstrtobool K v = Inl e \<Longrightarrow> e = EINVAL" for v e
    by (simp add: kstrtoboolD[OF assms(1)] split: option.splits)
  have u: "kstrtouint K v 0 = Inl e \<Longrightarrow> e = EINVAL \<or> e = ERANGE" for v e
    using assms(1) by (simp add: kstr_documented_def number_documented_def)
  note p = gpio_change.cases[OF gpioctrl_write_change[OF assms(2)]]
  have "lock_balanced cs" by (rule p) (simp_all add: sample_calls_def lock_balanced_def)
  then show ?thesis
    using assms(2)
    by (auto simp: gpio_write_defs Let_def sample_once_eq sample_failed
        split: if_splits sum.splits prod.splits dest: b u)
qed

theorem gpioctrl_write_errors_witness:
  "gpioctrl_write ref_kstr ref_cfu unat (ref_ctx 0) [] (ref_loaded 500 0) = (ref_loaded 500 0, [], [], Inl E2BIG)"
proof -
  obtain s' cs log r where w: "gpioctrl_write ref_kstr ref_cfu unat (ref_ctx 0) [] (ref_loaded 500 0)
      = (s', cs, log, r)" by (metis prod_cases4)
  from gpioctrl_write_errors[OF ref_kstr_documented w] w show ?thesis
    by (cases r) auto
qed

text \<open>C19: the two control surfaces agree on clean text. When the copies from the user succeed, writing
  \<open>invert=\<close> and a text to the device does what writing the text to the sysfs file does, for an ASCII text of at
  most 55 bytes without blanks at its ends, and likewise \<open>poll_ms=\<close> and a number in plain decimal: the same
  new state, the same kernel calls, the same log, and success or the same error. They do not agree
  on blanks: the device strips those behind the number, so it takes the number, while the sysfs file hands
  the text to \<open>kstrtouint\<close> and fails, with nothing changed, when that does not take it.\<close>

theorem device_equals_sysfs:
  assumes "kstr_documented K" and "cfu_documented cfu" and "\<forall>b. snd (cfu b) = 0"
    and "tight v" and "ascii v" and "NUL \<notin> set v" and "length v \<le> 55" and "n < 2 ^ 32"
  shows "let (s1, cs1, log1, r1) = gpioctrl_write K cfu J c (''invert='' @ v @ [newline]) s;
             (s2, cs2, log2, r2) = invert_store K c (v @ [newline]) s;
             (s3, cs3, log3, r3) = gpioctrl_write K cfu J c (''poll_ms='' @ dec n @ [newline]) s;
             (s4, cs4, log4, r4) = poll_ms_store K J c (dec n @ [newline]) s;
             (s5, cs5, log5, r5) = gpioctrl_write K cfu J c (''poll_ms='' @ dec n @ '' '' @ [newline]) s
         in s1 = s2 \<and> cs1 = cs2 \<and> log1 = log2 \<and> map_sum id (\<lambda>_. ()) r1 = map_sum id (\<lambda>_. ()) r2 \<and>
            s3 = s4 \<and> cs3 = cs4 \<and> log3 = log4 \<and> map_sum id (\<lambda>_. ()) r3 = map_sum id (\<lambda>_. ()) r4 \<and>
            s5 = s4 \<and> cs5 = cs4 \<and> log5 = log4 \<and> map_sum id (\<lambda>_. ()) r5 = map_sum id (\<lambda>_. ()) r4 \<and>
            (case kstrtouint K (dec n @ '' '' @ [newline]) 0 of
               Inl e \<Rightarrow> poll_ms_store K J c (dec n @ '' '' @ [newline]) s = (s, [], [], Inl e)
             | Inr x \<Rightarrow> True)"
proof -
  note cfu = cfu_always[OF assms(2,3)]
  have i: "strim K (cstr (''invert='' @ v @ [newline])) = ''invert='' @ v"
    by (rule strip_prefixed) (use assms in \<open>auto simp: ascii_def isspace_def\<close>)
  have v: "v \<noteq> []" using assms(4) by (simp add: tight_def)
  have "kstrtobool K (v @ [newline]) = kstrtobool K v"
    by (simp add: kstrtoboolD[OF assms(1)] bool_word_newline[OF v])
  then have a: "gpioctrl_write K cfu J c (''invert='' @ v @ [newline]) s =
      (case invert_store K c (v @ [newline]) s of
         (s2, cs2, log2, r2) \<Rightarrow> (s2, cs2, log2, map_sum id (\<lambda>k. k + 7) r2))"
    using assms(7) i
    by (simp add: gpio_write_defs invert_store_def cfu streqD[OF assms(1)] strncmp_eq_def
        sample_once_eq Let_def split: sum.split)
  note b = poll_ms_written[OF assms(1,8) cfu] and d = poll_ms_blank[OF assms(1,8) cfu]
  have e: "case kstrtouint K (dec n @ '' '' @ [newline]) 0 of
      Inl e \<Rightarrow> poll_ms_store K J c (dec n @ '' '' @ [newline]) s = (s, [], [], Inl e) | Inr x \<Rightarrow> True"
    by (simp add: poll_ms_store_def split: sum.split)
  show ?thesis
    unfolding a b d using e by (simp add: map_sum_unit Let_def split: prod.split)
qed

theorem device_equals_sysfs_witness:
  "poll_ms (fst (gpioctrl_write ref_kstr ref_cfu unat (ref_ctx 0) (''poll_ms='' @ dec 250 @ '' '' @ [newline])
     (ref_loaded 500 0))) = 250 \<and>
   fst (poll_ms_store ref_kstr unat (ref_ctx 0) (dec 250 @ '' '' @ [newline]) (ref_loaded 500 0)) = ref_loaded 500 0"
proof -
  have "tight ''1''" "ascii ''1''" by (simp_all add: tight_def isspace_def ascii_def)
  note t = device_equals_sysfs[OF ref_kstr_documented ref_cfu_documented _ this, of 250 unat "ref_ctx 0"
      "ref_loaded 500 0"]
  have "kstrtouint ref_kstr (dec 250 @ '' '' @ [newline]) 0 = (Inl EINVAL :: errno + u32)"
    by (simp add: ref_kstr_def ref_number_def Let_def butlast_append)
  with t show ?thesis
    by (simp add: ref_cfu_def poll_ms_store_def kstrtouintD[OF ref_kstr_documented, of 250]
        split: prod.splits)
qed

section \<open>Loading and unloading\<close>

definition gpio_live :: "gpio option \<Rightarrow> gpio_obj kworld \<Rightarrow> bool" where
  "gpio_live s w \<longleftrightarrow> s \<noteq> None \<and> locked w = {} \<and> armed w \<subseteq> {gpio_work} \<and>
     held w = {state_mem, gdev_ref, gpioctrl_miscdev, gpioctrl_attr_group}"

lemma gpio_liveI: "gpio_live (Some s) w \<Longrightarrow> gpio_live (Some s') w"
  by (simp add: gpio_live_def)

lemma change_live:
  "gpio_change J c s s' cs \<Longrightarrow> gpio_live (Some s) w \<Longrightarrow>
   \<exists>w'. kruns w cs = Some w' \<and> gpio_live (Some s') w'"
  by (cases rule: gpio_change.cases) (auto simp: sample_calls_def gpio_live_def)

lemma init_cases:
  assumes "gpioctrl_init P J e c line = (so, l, t, lg, r)"
  shows "(case r of
      Some x \<Rightarrow> so = None \<and> (l = line \<or> l = 0) \<and> kruns quiet t = Some quiet \<and>
        (if e_kzalloc e then last lg = failed_log x else lg = [])
    | None \<Rightarrow> so \<noteq> None \<and> (\<exists>w. kruns quiet t = Some w \<and> gpio_live so w))"
  using assms
  by (cases r) (auto simp: gpio_init_defs Let_def quiet_iff gpio_live_def split: if_splits option.splits)

lemma exit_parts: "fst (snd (gpioctrl_exit m c v s)) =
    [Cancel gpio_work, Release gpioctrl_attr_group, Release gpioctrl_miscdev, Lock state_lock,
     Unlock state_lock, Release gdev_ref, Release state_mem]"
  "fst (gpioctrl_exit m c v s) = 0"
  by (simp_all add: gpioctrl_exit_def gpioctrl_exit_rest_def Let_def)

lemma exit_quiet:
  assumes "gpio_live (Some s) w"
  shows "kruns w (fst (snd (gpioctrl_exit m c v s))) = Some quiet"
proof -
  have "armed w - {gpio_work} = {}" using assms by (auto simp: gpio_live_def)
  then show ?thesis
    using assms unfolding exit_parts(1) by (auto simp: gpio_live_def quiet_iff)
qed

definition gpio_serve_opt ::
    "kstr \<Rightarrow> (u32 \<Rightarrow> nat) \<Rightarrow> srfb \<Rightarrow> gpio_params \<Rightarrow> gpio option \<Rightarrow> gpio_ctx \<times> gpio_op \<Rightarrow>
     gpio option \<times> gpio_obj kcall list" where
  \<comment> \<open>through the \<open>state\<close> pointer\<close>
  "gpio_serve_opt K J srfb P so p =
     (case so of None \<Rightarrow> (None, [])
      | Some s \<Rightarrow> (let (s', cs) = gpio_serve K J srfb P s p in (Some s', cs)))"

interpretation gpio_session: module_session
    "\<lambda>(e, c, line). let (so, l, t, lg, r) = gpioctrl_init P J e c line in (so, t, r)"
    "gpio_serve_opt K J srfb P"
    "\<lambda>so. case so of None \<Rightarrow> [] | Some s \<Rightarrow> fst (snd (gpioctrl_exit m c v s))" gpio_live
  for K J srfb P c v
proof
  fix x so t y
  assume "(case x of (e, c, line) \<Rightarrow>
    let (so, l, t, lg, r) = gpioctrl_init P J e c line in (so, t, r)) = (so, t, Some y)"
  then show "kruns quiet t = Some quiet"
    using init_cases by (fastforce split: prod.splits)
next
  fix x so t
  assume "(case x of (e, c, line) \<Rightarrow>
    let (so, l, t, lg, r) = gpioctrl_init P J e c line in (so, t, r)) = (so, t, None)"
  then show "\<exists>w. kruns quiet t = Some w \<and> gpio_live so w"
    using init_cases by (fastforce split: prod.splits)
next
  fix so w p so' t
  assume live: "gpio_live so w" and v: "gpio_serve_opt K J srfb P so p = (so', t)"
  from live obtain s where s: "so = Some s" by (auto simp: gpio_live_def)
  obtain c op where p: "p = (c, op)" by fastforce
  obtain s' cs where "gpio_serve K J srfb P s (c, op) = (s', cs)" by fastforce
  with v s p gpio_serve_change[OF this] live
  show "\<exists>w'. kruns w t = Some w' \<and> gpio_live so' w'"
    by (auto simp: gpio_serve_opt_def intro: change_live)
next
  fix so w
  assume live: "gpio_live so w"
  then obtain s where "so = Some s" by (auto simp: gpio_live_def)
  with live show "kruns w (case so of None \<Rightarrow> [] | Some s \<Rightarrow> fst (snd (gpioctrl_exit m c v s))) = Some quiet"
    by (simp add: exit_quiet)
qed

lemma serve_all_opt:
  "serve_all (gpio_serve_opt K J srfb P) (Some s) ps =
     (let (s', t) = serve_all (gpio_serve K J srfb P) s ps in (Some s', t))"
  by (induction ps arbitrary: s) (auto simp: gpio_serve_opt_def split: prod.splits)

text \<open>Pending work can outlive an unload. The exit function cancels the work item
  before it removes the files that arm it: a valid interval written to \<open>poll_ms\<close> between
  the two leaves the work item armed after the state it uses has been freed.\<close>

theorem exit_work_outlives_state:
  assumes "gpio_live (Some s) w" and "kstr_documented K" and "10 \<le> n" and "n \<le> 60000"
  shows "let (s', cs, log, r) = poll_ms_store K J c' (dec n @ [newline]) s;
             (l, rest, log') = gpioctrl_exit_rest m c v s'
         in fst (snd (gpioctrl_exit m c v s')) = Cancel gpio_work # rest \<and>
            (case kruns w (Cancel gpio_work # cs @ rest) of
               None \<Rightarrow> False
             | Some w' \<Rightarrow> gpio_work \<in> armed w' \<and> state_mem \<notin> held w')"
  unfolding poll_ms_stored[OF assms(2-4)] using assms(1)
  by (simp add: gpioctrl_exit_rest_def gpioctrl_exit_def gpio_live_def Let_def)

definition ref_world :: "gpio_obj kworld" where
  "ref_world = \<lparr>locked = {}, held = {state_mem, gdev_ref, gpioctrl_miscdev, gpioctrl_attr_group},
     armed = {gpio_work}\<rparr>"

theorem exit_work_outlives_state_witness:
  "\<exists>w'. kruns ref_world ([Cancel gpio_work, Lock state_lock, Unlock state_lock, Arm gpio_work 100]
      @ fst (snd (gpioctrl_exit_rest ref_mem (ref_ctx 0) 0 (ref_loaded 100 0)))) = Some w' \<and>
    gpio_work \<in> armed w' \<and> state_mem \<notin> held w'"
proof -
  have "gpio_live (Some (ref_loaded 500 0)) ref_world" by (simp add: gpio_live_def ref_world_def)
  from exit_work_outlives_state[OF this ref_kstr_documented, of 100 unat "ref_ctx 0" ref_mem "ref_ctx 0" 0]
  show ?thesis
    unfolding poll_ms_stored[OF ref_kstr_documented, of 100, simplified]
    by (auto simp: gpioctrl_exit_rest_def ref_world_def Let_def split: option.splits)
qed

text \<open>Pending work can outlive a failed load. The device exists before the sysfs group
  does; a valid interval written to the device in that window arms the work item, and when
  creating the group then fails the state is freed with the work item still armed.\<close>

theorem init_work_outlives_state:
  assumes "kstr_documented K" and "10 \<le> n" and "n \<le> 60000"
    and "0 \<le> button_in c" and "cfu_documented cfu" and "\<forall>b. snd (cfu b) = 0"
  shows "let cs = fst (snd (gpioctrl_write K cfu J c' (''poll_ms='' @ dec n @ [newline]) s));
             start = [Acquire state_mem, Acquire gdev_ref, Lock state_lock, Unlock state_lock,
                      Acquire gpioctrl_miscdev];
             unwind = [Release gpioctrl_miscdev, Release gdev_ref, Release state_mem]
         in gpioctrl_init P J (ref_env\<lparr>e_group := Some x\<rparr>) c line = (None, 0, start @ unwind,
              [init_log P ref_mem c (initial_state P c line), failed_log x], Some x) \<and>
            (case kruns quiet (start @ cs @ unwind) of
               None \<Rightarrow> False
             | Some w' \<Rightarrow> gpio_work \<in> armed w' \<and> state_mem \<notin> held w')"
proof -
  have n: "n < 2 ^ 32" using assms(3) by simp
  have w: "fst (snd (gpioctrl_write K cfu J c' (''poll_ms='' @ dec n @ [newline]) s)) =
      locked_section @ [Arm gpio_work (J (of_nat n))]"
    unfolding poll_ms_written[OF assms(1) n cfu_always[OF assms(5,6)]] poll_ms_stored[OF assms(1-3)]
    by simp
  show ?thesis
    unfolding w using assms(4) by (simp add: gpio_init_defs ref_env_def Let_def)
qed

theorem init_work_outlives_state_witness:
  "fst (gpioctrl_init (ref_params 500) unat (ref_env\<lparr>e_group := Some ENOMEM\<rparr>) (ref_ctx 1) 0) = None"
  using init_work_outlives_state[OF ref_kstr_documented, of 100 "ref_ctx 1" ref_cfu unat "ref_ctx 1"
      "ref_loaded 500 0" "ref_params 500" ENOMEM 0]
  by (simp add: ref_ctx_def ref_cfu_documented ref_cfu_def Let_def)

section \<open>The report\<close>

text \<open>The report is never cut off. With the ints in their 32-bit range and a chip label of
  at most 165 bytes, the 512-byte buffer holds the whole report: a read of 512 bytes from
  offset zero that does not fault delivers every field, and the read after it, at the offset
  reached and with nothing changed in between, delivers nothing.\<close>

theorem report_complete:
  assumes "srfb_documented srfb" and "length (gpio_label P) \<le> 165"
    and "int32 (button_offset P)" and "int32 (led_offset P)" and "int32 (button s)"
    and "int32 (led s)" and "int32 (init_pid s)" and "int32 (last_sample_pid s)"
    and "snd (gpioctrl_read srfb P c 512 0 s) = Inr (out, pos)"
  shows "out = report_text P c s \<and> pos = int (length out) \<and>
    snd (gpioctrl_read srfb P c 512 pos s) = Inr ([], pos)"
proof -
  note d = assms(3-8)[THEN length_fmt_d]
  note u = length_fmt_u64[of "samples s"] length_fmt_u64[of "changes s"]
    length_fmt_u64[of "output_updates s"] length_fmt_u64[of "(now_ns c - loaded_at_ns s) div 1000000"]
    length_fmt_u32[of "poll_ms s"]
  note t = length_strscpy[of "init_comm s" 16] length_strscpy[of "last_sample_comm s" 16]
  have len: "length (report_text P c s) \<le> 511"
    using d u t assms(2) by (simp add: report_text_def ctx_text_def Let_def)
  then have r: "scnprintf 512 (report_text P c s) = report_text P c s" by (simp add: scnprintf_id)
  have "out = report_text P c s \<and> pos = int (length (report_text P c s))"
    using srfbD[OF assms(1), of 0 512 "report_text P c s"] assms(9) len
    by (auto simp: gpioctrl_read_def r)
  then show ?thesis by (simp add: gpioctrl_read_def r srfb_end[OF assms(1)])
qed

theorem report_complete_witness:
  "snd (gpioctrl_read ref_srfb (ref_params 500) (ref_ctx 0) 512 0 (ref_loaded 500 0)) =
     Inr (report_text (ref_params 500) (ref_ctx 0) (ref_loaded 500 0),
       int (length (report_text (ref_params 500) (ref_ctx 0) (ref_loaded 500 0))))"
proof -
  obtain out pos where r: "snd (gpioctrl_read ref_srfb (ref_params 500) (ref_ctx 0) 512 0
      (ref_loaded 500 0)) = Inr (out, pos)"
    by (simp add: gpioctrl_read_def ref_srfb_def Let_def)
  show ?thesis
    using report_complete[OF ref_srfb_documented _ _ _ _ _ _ _ r] r
    by (simp add: ref_params_def ref_loaded_def int32_def)
qed

end
