(* ===== verification/KernelMemory.thy ===== *)
theory KernelMemory
  imports KernelAPI
begin

text \<open>
  \<^verbatim>\<open>13_kernel_memory/kernel_memory.c\<close>: one allocation slot served by three
  allocators, driven through sysfs. The trace names each piece of memory by its allocator
  and address, so that the discipline of the prelude is that every allocation is freed
  once, by the matching function.
\<close>

section \<open>State\<close>

datatype alloc_type = ALLOC_NONE | ALLOC_KMALLOC | ALLOC_VMALLOC | ALLOC_CACHE

fun type_name :: "alloc_type \<Rightarrow> string" where
  "type_name ALLOC_KMALLOC = ''kmalloc''"
| "type_name ALLOC_VMALLOC = ''vmalloc''"
| "type_name ALLOC_CACHE = ''cache''"
| "type_name ALLOC_NONE = ''none''"

datatype km_obj = state_lock | demo_cache | km_kobj | km_group | Mem alloc_type u64

abbreviation CACHE_OBJ_SIZE :: u64 where "CACHE_OBJ_SIZE \<equiv> 128"

text \<open>A pointer is its address, 0 for \<open>NULL\<close>.\<close>

record km_state =
  cur_type :: alloc_type
  cur_ptr :: u64
  cur_requested_size :: u64
  cur_actual_size :: u64
  cur_alloc_ns :: u64
  cur_free_ns :: u64
  stats_alloc_ok :: u64
  stats_alloc_fail :: u64
  stats_free_count :: u64

definition km_static :: km_state where
  "km_static = \<lparr>cur_type = ALLOC_NONE, cur_ptr = 0, cur_requested_size = 0, cur_actual_size = 0,
     cur_alloc_ns = 0, cur_free_ns = 0, stats_alloc_ok = 0, stats_alloc_fail = 0,
     stats_free_count = 0\<rparr>"

section \<open>Operations\<close>

text \<open>
  The kernel's side of one call: what each allocator returns for a size, \<open>ksize\<close>, and
  the two clock readings around the call.
\<close>

record km_call =
  kmalloc :: "u64 \<Rightarrow> u64"
  vmalloc :: "u64 \<Rightarrow> u64"
  kmem_cache_alloc :: u64
  ksize :: "u64 \<Rightarrow> u64"
  t0 :: u64
  t1 :: u64

definition do_allocate ::
    "km_call \<Rightarrow> alloc_type \<Rightarrow> u64 \<Rightarrow> km_state \<Rightarrow> km_state \<times> km_obj kcall list \<times> errno option" where
  "do_allocate e type sz s =
     (if cur_type s \<noteq> ALLOC_NONE then (s, [Lock state_lock, Unlock state_lock], Some EBUSY)
      else
        (let sz1 = (if type = ALLOC_CACHE then CACHE_OBJ_SIZE else sz);
             got = (case type of
                      ALLOC_KMALLOC \<Rightarrow> Some (kmalloc e sz1)
                    | ALLOC_VMALLOC \<Rightarrow> Some (vmalloc e sz1)
                    | ALLOC_CACHE \<Rightarrow> Some (kmem_cache_alloc e)
                    | ALLOC_NONE \<Rightarrow> None)
         in (case got of
               None \<Rightarrow> (s, [Lock state_lock, Unlock state_lock], Some EINVAL)
             | Some ptr \<Rightarrow>
                 if ptr = 0 then
                   (s\<lparr>stats_alloc_fail := stats_alloc_fail s + 1\<rparr>,
                    [Lock state_lock, Unlock state_lock], Some ENOMEM)
                 else
                   (s\<lparr>cur_type := type, cur_ptr := ptr, cur_requested_size := sz1,
                      cur_actual_size := (if type = ALLOC_KMALLOC then ksize e ptr else sz1),
                      cur_alloc_ns := t1 e - t0 e, stats_alloc_ok := stats_alloc_ok s + 1\<rparr>,
                    [Lock state_lock, Acquire (Mem type ptr), Unlock state_lock], None))))"

definition do_free :: "km_call \<Rightarrow> km_state \<Rightarrow> km_state \<times> km_obj kcall list \<times> errno option" where
  "do_free e s =
     (if cur_type s = ALLOC_NONE then (s, [Lock state_lock, Unlock state_lock], Some ENOENT)
      else
        (let type = cur_type s; ptr = cur_ptr s;
             freed = (case type of
                        ALLOC_KMALLOC \<Rightarrow> [Release (Mem ALLOC_KMALLOC ptr)]
                      | ALLOC_VMALLOC \<Rightarrow> [Release (Mem ALLOC_VMALLOC ptr)]
                      | ALLOC_CACHE \<Rightarrow> [Release (Mem ALLOC_CACHE ptr)]
                      | ALLOC_NONE \<Rightarrow> [])
         in (s\<lparr>cur_free_ns := t1 e - t0 e, stats_free_count := stats_free_count s + 1,
               cur_type := ALLOC_NONE, cur_ptr := 0\<rparr>,
             [Lock state_lock] @ freed @ [Unlock state_lock], None)))"

text \<open>\<open>strchr\<close> with the cut it is used for: the text before the first blank and the text after.\<close>

definition split_blank :: "string \<Rightarrow> (string \<times> string) option" where
  "split_blank cmd =
     (if CHR '' '' \<in> set cmd
      then Some (takeWhile (\<lambda>x. x \<noteq> CHR '' '') cmd, tl (dropWhile (\<lambda>x. x \<noteq> CHR '' '') cmd))
      else None)"

text \<open>
  The written text is \<open>buf\<close>, \<open>count\<close> its length; the part of the store up to the call of
  \<open>do_allocate\<close>, and the whole store.
\<close>

definition parse_request :: "kstr \<Rightarrow> string \<Rightarrow> errno + (alloc_type \<times> u64)" where
  "parse_request K buf =
     (if length buf = 0 \<or> length buf \<ge> 32 then Inl E2BIG
      else
        (case split_blank (strim K (cstr buf)) of
           None \<Rightarrow> Inl EINVAL
         | Some (cmd, size_str) \<Rightarrow>
             (case (if sysfs_streq K cmd ''kmalloc'' then Some ALLOC_KMALLOC
                    else if sysfs_streq K cmd ''vmalloc'' then Some ALLOC_VMALLOC
                    else if sysfs_streq K cmd ''cache'' then Some ALLOC_CACHE
                    else None) of
                None \<Rightarrow> Inl EINVAL
              | Some type \<Rightarrow>
                  (case kstrtoul K (strim K size_str) 0 of
                     Inl x \<Rightarrow> Inl x
                   | Inr sz \<Rightarrow> Inr (type, sz)))))"

definition allocate_store ::
    "kstr \<Rightarrow> km_call \<Rightarrow> string \<Rightarrow> km_state \<Rightarrow> km_state \<times> km_obj kcall list \<times> (errno + nat)" where
  "allocate_store K e buf s =
     (case parse_request K buf of
        Inl x \<Rightarrow> (s, [], Inl x)
      | Inr (type, sz) \<Rightarrow>
          (let (s1, cs, ret) = do_allocate e type sz s
           in (s1, cs, case ret of Some x \<Rightarrow> Inl x | None \<Rightarrow> Inr (length buf))))"

definition free_store ::
    "km_call \<Rightarrow> string \<Rightarrow> km_state \<Rightarrow> km_state \<times> km_obj kcall list \<times> (errno + nat)" where
  "free_store e buf s =
     (let (s1, cs, ret) = do_free e s
      in (s1, cs, case ret of Some x \<Rightarrow> Inl x | None \<Rightarrow> Inr (length buf)))"

definition info_show :: "km_state \<Rightarrow> string \<times> km_obj kcall list" where
  "info_show s =
     (sysfs_emit (''type='' @ type_name (cur_type s) @ [newline]
        @ ''requested_bytes='' @ fmt_u (cur_requested_size s) @ [newline]
        @ ''actual_bytes='' @ fmt_u (cur_actual_size s) @ [newline]
        @ ''last_alloc_ns='' @ fmt_u (cur_alloc_ns s) @ [newline]
        @ ''last_free_ns='' @ fmt_u (cur_free_ns s) @ [newline]),
      [Lock state_lock, Unlock state_lock])"

text \<open>\<open>max_size\<close> is \<open>KMALLOC_MAX_SIZE\<close>.\<close>

definition stats_show :: "u64 \<Rightarrow> km_state \<Rightarrow> string \<times> km_obj kcall list" where
  "stats_show max_size s =
     (sysfs_emit (''alloc_ok='' @ fmt_u (stats_alloc_ok s) @ [newline]
        @ ''alloc_fail='' @ fmt_u (stats_alloc_fail s) @ [newline]
        @ ''free_count='' @ fmt_u (stats_free_count s) @ [newline]
        @ ''cache_obj_size='' @ fmt_u CACHE_OBJ_SIZE @ [newline]
        @ ''kmalloc_max_size='' @ fmt_u max_size @ [newline]), [])"

section \<open>Loading and unloading\<close>

record km_env =
  e_cache :: bool
  e_kobj :: bool
  e_group :: "errno option"

definition kernel_memory_init :: "km_env \<Rightarrow> km_obj kcall list \<times> errno option" where
  "kernel_memory_init e =
     (if \<not> e_cache e then ([], Some ENOMEM)
      else if \<not> e_kobj e then ([Acquire demo_cache, Release demo_cache], Some ENOMEM)
      else
        (case e_group e of
           Some x \<Rightarrow> ([Acquire demo_cache, Acquire km_kobj, Release km_kobj, Release demo_cache], Some x)
         | None \<Rightarrow> ([Acquire demo_cache, Acquire km_kobj, Acquire km_group], None)))"

text \<open>The exit function in the two parts between which a writer can still get in.\<close>

definition kernel_memory_exit_free :: "km_call \<Rightarrow> km_state \<Rightarrow> km_state \<times> km_obj kcall list" where
  "kernel_memory_exit_free e s =
     (if cur_type s \<noteq> ALLOC_NONE then (let (s1, cs, ret) = do_free e s in (s1, cs)) else (s, []))"

definition kernel_memory_exit_rest :: "km_obj kcall list" where
  "kernel_memory_exit_rest = [Release km_group, Release km_kobj, Release demo_cache]"

definition kernel_memory_exit :: "km_call \<Rightarrow> km_state \<Rightarrow> km_state \<times> km_obj kcall list" where
  "kernel_memory_exit e s =
     (let (s1, cs) = kernel_memory_exit_free e s in (s1, cs @ kernel_memory_exit_rest))"

section \<open>The slot as a machine\<close>

datatype km_op = Allocate string | Free string | Show_info | Show_stats u64

fun km_serve :: "kstr \<Rightarrow> km_state \<Rightarrow> km_call \<times> km_op \<Rightarrow> km_state \<times> km_obj kcall list" where
  "km_serve K s (e, Allocate b) = (let (s1, cs, r) = allocate_store K e b s in (s1, cs))"
| "km_serve K s (e, Free b) = (let (s1, cs, r) = free_store e b s in (s1, cs))"
| "km_serve K s (e, Show_info) = (s, snd (info_show s))"
| "km_serve K s (e, Show_stats m) = (s, snd (stats_show m s))"

definition km_step :: "kstr \<Rightarrow> km_state \<Rightarrow> km_call \<times> km_op \<Rightarrow> km_state" where
  "km_step K s p = fst (km_serve K s p)"

text \<open>
  The invariant: there is memory exactly when the slot names an allocator, the successes
  and the frees differ by the allocation in the slot, and a cache object has its one size.
\<close>

definition km_inv :: "km_state \<Rightarrow> bool" where
  "km_inv s \<longleftrightarrow>
     (cur_ptr s = 0 \<longleftrightarrow> cur_type s = ALLOC_NONE) \<and>
     stats_alloc_ok s = stats_free_count s + (if cur_type s = ALLOC_NONE then 0 else 1) \<and>
     (cur_type s = ALLOC_CACHE \<longrightarrow> cur_requested_size s = 128 \<and> cur_actual_size s = 128)"

lemma km_static_inv: "km_inv km_static"
  by (simp add: km_inv_def km_static_def)

lemma do_allocate_inv: "km_inv s \<Longrightarrow> km_inv (fst (do_allocate e ty sz s))"
  by (cases ty) (auto simp: km_inv_def do_allocate_def Let_def)

lemma do_free_inv: "km_inv s \<Longrightarrow> km_inv (fst (do_free e s))"
  by (auto simp: km_inv_def do_free_def Let_def)

lemma allocate_store_step:
  "fst (allocate_store K e b s) = s \<and> fst (snd (allocate_store K e b s)) = [] \<or>
   (\<exists>ty sz. fst (allocate_store K e b s) = fst (do_allocate e ty sz s) \<and>
      fst (snd (allocate_store K e b s)) = fst (snd (do_allocate e ty sz s)))"
  by (auto simp: allocate_store_def Let_def prod.case_eq_if split: sum.split)

lemma free_store_step:
  "fst (free_store e b s) = fst (do_free e s)"
  "fst (snd (free_store e b s)) = fst (snd (do_free e s))"
  by (simp_all add: free_store_def Let_def prod.case_eq_if)

text \<open>Every operation leaves the slot alone, or is an allocation or a free of it.\<close>

lemma km_serve_cases:
  "km_serve K s p = (s, []) \<or> km_serve K s p = (s, [Lock state_lock, Unlock state_lock]) \<or>
   (\<exists>ty sz. km_serve K s p =
      (fst (do_allocate (fst p) ty sz s), fst (snd (do_allocate (fst p) ty sz s)))) \<or>
   km_serve K s p = (fst (do_free (fst p) s), fst (snd (do_free (fst p) s)))"
proof -
  obtain e op where p: "p = (e, op)" by fastforce
  show ?thesis
  proof (cases op)
    case (Allocate b)
    then show ?thesis using allocate_store_step[of K e b s] by (auto simp: p prod.case_eq_if)
  next
    case (Free b)
    then show ?thesis using free_store_step[of e b s] by (simp add: p prod.case_eq_if)
  qed (simp_all add: p info_show_def stats_show_def)
qed

lemma km_step_inv: "km_inv s \<Longrightarrow> km_inv (km_step K s p)"
  using km_serve_cases[of K s p] do_allocate_inv do_free_inv by (auto simp: km_step_def)

interpretation km: invariant_machine "km_step K" km_inv "\<lambda>_. True" for K
  by unfold_locales (rule km_step_inv)

section \<open>Memory is released once and by the right function\<close>

definition slot_mem :: "km_state \<Rightarrow> km_obj set" where
  "slot_mem s = (if cur_type s = ALLOC_NONE then {} else {Mem (cur_type s) (cur_ptr s)})"

definition km_live :: "km_state \<Rightarrow> km_obj kworld \<Rightarrow> bool" where
  "km_live s w \<longleftrightarrow> locked w = {} \<and> armed w = {} \<and>
     held w = {demo_cache, km_kobj, km_group} \<union> slot_mem s"

lemma do_allocate_live:
  "km_live s w \<Longrightarrow> \<exists>w'. kruns w (fst (snd (do_allocate e ty sz s))) = Some w' \<and>
     km_live (fst (do_allocate e ty sz s)) w'"
  by (cases ty) (auto simp: do_allocate_def km_live_def slot_mem_def Let_def)

lemma do_free_live:
  "km_live s w \<Longrightarrow> \<exists>w'. kruns w (fst (snd (do_free e s))) = Some w' \<and> km_live (fst (do_free e s)) w'"
  by (cases "cur_type s") (auto simp: do_free_def km_live_def slot_mem_def Let_def)

lemma exit_free_live:
  assumes "km_live s w"
  shows "\<exists>w'. kruns w (snd (kernel_memory_exit_free e s)) = Some w' \<and>
    km_live (fst (kernel_memory_exit_free e s)) w' \<and>
    cur_type (fst (kernel_memory_exit_free e s)) = ALLOC_NONE"
  using do_free_live[OF assms, of e] assms
  by (auto simp: kernel_memory_exit_free_def Let_def prod.case_eq_if) (simp add: do_free_def Let_def)

interpretation km_session: module_session "\<lambda>e. (km_static, kernel_memory_init e)" "km_serve K"
    "\<lambda>s. snd (kernel_memory_exit e' s)" km_live for K e'
proof
  fix e s t x
  assume "(km_static, kernel_memory_init e) = (s, t, Some x)"
  then show "kruns quiet t = Some quiet"
    by (auto simp: kernel_memory_init_def quiet_iff split: if_splits option.splits)
next
  fix e s t
  assume "(km_static, kernel_memory_init e) = (s, t, None)"
  then show "\<exists>w. kruns quiet t = Some w \<and> km_live s w"
    by (auto simp: kernel_memory_init_def km_live_def km_static_def slot_mem_def
        split: if_splits option.splits)
next
  fix s w p s' t
  assume "km_live s w" "km_serve K s p = (s', t)"
  then show "\<exists>w'. kruns w t = Some w' \<and> km_live s' w'"
    using km_serve_cases[of K s p] do_allocate_live[of s w "fst p"] do_free_live[of s w "fst p"]
    by (elim disjE exE) (auto simp: km_live_def)
next
  fix s w
  assume "km_live s w"
  then show "kruns w (snd (kernel_memory_exit e' s)) = Some quiet"
    using exit_free_live[of s w e']
    by (auto simp: kernel_memory_exit_def kernel_memory_exit_rest_def Let_def prod.case_eq_if
        km_live_def slot_mem_def quiet_iff kruns_append_Some)
qed

section \<open>Parsing a request\<close>

definition alloc_names :: "(string \<times> alloc_type) list" where
  "alloc_names = [(''kmalloc'', ALLOC_KMALLOC), (''vmalloc'', ALLOC_VMALLOC), (''cache'', ALLOC_CACHE)]"

lemma length_dec_u64: "n < 2 ^ 64 \<Longrightarrow> length (dec n) \<le> 20"
  by (rule length_dec) (rule order_less_trans, auto)

lemma split_blank_word: "CHR '' '' \<notin> set a \<Longrightarrow> split_blank (a @ CHR '' '' # b) = Some (a, b)"
  by (induction a) (auto simp: split_blank_def)

lemma parse_request_named:
  assumes "kstr_documented K" and "n < 2 ^ 64" and "(name, ty) \<in> set alloc_names"
  shows "parse_request K (name @ CHR '' '' # dec n @ [newline]) = Inr (ty, of_nat n)"
proof -
  have nm: "name = ''kmalloc'' \<or> name = ''vmalloc'' \<or> name = ''cache''"
    using assms(3) by (auto simp: alloc_names_def)
  let ?t = "name @ CHR '' '' # dec n"
  have tt: "tight ?t" and asc: "ascii (?t @ [newline])" and nul: "NUL \<notin> set (?t @ [newline])"
    using nm tight_append[of "name @ '' ''" "dec n"] ascii_dec[of n, unfolded ascii_def]
    by (auto simp: isspace_def ascii_def)
  have t: "strim K (cstr (?t @ [newline])) = ?t"
    by (simp only: cstr_id[OF nul] strimD[OF assms(1) asc] kstrip_newline[OF tt])
  have d: "strim K (dec n) = dec n"
    by (simp add: strimD[OF assms(1)] kstrip_tight)
  have "CHR '' '' \<notin> set name" using nm by auto
  then have sp: "split_blank ?t = Some (name, dec n)" by (rule split_blank_word)
  have len: "length (?t @ [newline]) < 32" using nm length_dec_u64[OF assms(2)] by auto
  show ?thesis
    using assms(3) t sp d len kstrtoulD[OF assms(1,2)]
    by (auto simp: parse_request_def alloc_names_def streqD[OF assms(1)])
qed

section \<open>Properties\<close>

text \<open>The accounting. In every state reached from the initial one, there is memory exactly
  when the slot names an allocator, the successful allocations are the frees plus the one in
  the slot, and an object from the cache is recorded with the cache's size.\<close>

theorem slot_accounting:
  "let s = foldl (km_step K) km_static ps in
     (cur_ptr s = 0 \<longleftrightarrow> cur_type s = ALLOC_NONE) \<and>
     stats_alloc_ok s = stats_free_count s + (if cur_type s = ALLOC_NONE then 0 else 1) \<and>
     (if cur_type s = ALLOC_CACHE then cur_requested_size s = 128 \<and> cur_actual_size s = 128 else True)"
  using km.run_inv[OF km_static_inv, of ps K] by (auto simp: km_inv_def Let_def)

text \<open>An allocation request on every branch. The text "<name> <decimal>" with the newline
  a shell adds is understood for each of the three names and every 64-bit number; it is
  refused with \<open>-EBUSY\<close> and no effect while the slot is taken, counted as a failure when the
  allocator returns \<open>NULL\<close>, and otherwise fills the slot with the allocator's pointer, the
  requested size (128 for the cache, whatever was asked) and the usable size.\<close>

theorem allocate_store_spec:
  assumes "kstr_documented K" and "n < 2 ^ 64" and "(name, ty) \<in> set alloc_names"
  shows "let buf = name @ CHR '' '' # dec n @ [newline];
             (s', cs, r) = allocate_store K e buf s;
             p = (if ty = ALLOC_KMALLOC then kmalloc e (of_nat n)
                  else if ty = ALLOC_VMALLOC then vmalloc e (of_nat n) else kmem_cache_alloc e);
             req = (if ty = ALLOC_CACHE then 128 else of_nat n)
         in lock_balanced cs \<and>
            (if cur_type s \<noteq> ALLOC_NONE then r = Inl EBUSY \<and> s' = s
             else if p = 0 then r = Inl ENOMEM \<and> s' = s\<lparr>stats_alloc_fail := stats_alloc_fail s + 1\<rparr>
             else r = Inr (length buf) \<and>
               s' = s\<lparr>cur_type := ty, cur_ptr := p, cur_requested_size := req,
                      cur_actual_size := (if ty = ALLOC_KMALLOC then ksize e p else req),
                      cur_alloc_ns := t1 e - t0 e, stats_alloc_ok := stats_alloc_ok s + 1\<rparr>)"
proof -
  have "ty = ALLOC_KMALLOC \<or> ty = ALLOC_VMALLOC \<or> ty = ALLOC_CACHE"
    using assms(3) by (auto simp: alloc_names_def)
  then show ?thesis
    using parse_request_named[OF assms]
    by (elim disjE)
      (simp_all add: allocate_store_def do_allocate_def lock_balanced_def Let_def)
qed

definition ref_call :: km_call where
  "ref_call = \<lparr>kmalloc = (\<lambda>n. 4096), vmalloc = (\<lambda>n. 8192), kmem_cache_alloc = 12288,
     ksize = (\<lambda>p. 128), t0 = 10, t1 = 17\<rparr>"

theorem allocate_store_spec_witness:
  "cur_actual_size (fst (allocate_store ref_kstr ref_call (''kmalloc '' @ dec 100 @ [newline]) km_static)) = 128"
  using allocate_store_spec[OF ref_kstr_documented, of 100 "''kmalloc''" ALLOC_KMALLOC ref_call km_static]
  by (simp add: alloc_names_def km_static_def ref_call_def Let_def split: prod.splits)

text \<open>An allocation can outlive the module. The exit function frees the slot before it
  removes the files: an allocation that succeeds between the two is still held after the
  last of the exit function's calls, and for a cache object the cache is destroyed under it.\<close>

theorem exit_leaks_allocation:
  assumes "km_live s w" and "kernel_memory_exit_free e s = (s1, cs1)"
    and "do_allocate e' ty sz s1 = (s2, cs2, None)"
  shows "snd (kernel_memory_exit e s) = cs1 @ kernel_memory_exit_rest \<and>
    (case kruns w (cs1 @ cs2 @ kernel_memory_exit_rest) of
       None \<Rightarrow> False
     | Some w' \<Rightarrow> held w' = {Mem ty (cur_ptr s2)} \<and> cur_ptr s2 \<noteq> 0)"
proof -
  obtain w1 where w1: "kruns w cs1 = Some w1" "km_live s1 w1"
    using exit_free_live[OF assms(1), of e] assms(2) by auto
  obtain w2 where w2: "kruns w1 cs2 = Some w2" "km_live s2 w2"
    using do_allocate_live[OF w1(2), of e' ty sz] assms(3) by auto
  have "cur_type s2 = ty" "ty \<noteq> ALLOC_NONE" "cur_ptr s2 \<noteq> 0"
    using assms(3)
    by (auto simp: do_allocate_def Let_def split: if_splits alloc_type.splits)
  then have "held w2 = {demo_cache, km_kobj, km_group, Mem ty (cur_ptr s2)}" "cur_ptr s2 \<noteq> 0"
    using w2(2) by (auto simp: km_live_def slot_mem_def)
  then show ?thesis
    using w1(1) w2(1) assms(2)
    by (auto simp: kernel_memory_exit_def kernel_memory_exit_rest_def)
qed

theorem exit_leaks_allocation_witness:
  "(case kruns \<lparr>locked = {}, held = {demo_cache, km_kobj, km_group}, armed = {}\<rparr>
      (fst (snd (do_allocate ref_call ALLOC_CACHE 0 km_static)) @ kernel_memory_exit_rest) of
      None \<Rightarrow> False
    | Some w' \<Rightarrow> held w' = {Mem ALLOC_CACHE 12288})"
proof -
  let ?w = "\<lparr>locked = {}, held = {demo_cache, km_kobj, km_group}, armed = {} :: km_obj set\<rparr>"
  have l: "km_live km_static ?w" by (simp add: km_live_def km_static_def slot_mem_def)
  have f: "kernel_memory_exit_free ref_call km_static = (km_static, [])"
    by (simp add: kernel_memory_exit_free_def km_static_def)
  obtain s2 cs2 where a: "do_allocate ref_call ALLOC_CACHE 0 km_static = (s2, cs2, None)" "cur_ptr s2 = 12288"
    by (simp add: do_allocate_def km_static_def ref_call_def Let_def)
  from exit_leaks_allocation[OF l f a(1)] show ?thesis
    by (simp add: a split: option.splits)
qed

end
