(* ===== verification/WaitQueues.thy ===== *)
theory WaitQueues
  imports KernelAPI
begin

text \<open>
  \<^verbatim>\<open>12_wait_queues_blocking/wait_queues_blocking.c\<close>: a timer and a trigger file
  produce events, readers block until one is there. Producers and readers run concurrently
  and share three atomic variables, so the module is a step relation whose steps are the
  atomic accesses; any interleaving of any number of readers and producers is a run.
\<close>

section \<open>State\<close>

datatype bq_obj = event_wq | producer_timer | bq_miscdev | bq_attr_group

text \<open>
  Where a reader stands in \<open>bq_read\<close>: before the exchange of the flag (with its
  \<open>O_NONBLOCK\<close> bit), before it enters the wait, in the wait, past the wait with the
  condition seen true or with a signal, past the exchange that gave it the event, and
  returned from the loop with the id it read or an error.
\<close>

datatype reader =
    Xchg bool | Enter | Waiting | Woken | Signalled | Claimed | Result u64 | Failed errno

text \<open>
  \<open>pending\<close> counts the producers between their two statements, \<open>produced\<close> the events
  so far (the number \<open>event_id\<close> counts modulo \<open>2 ^ 64\<close>); neither is a variable of the code.
\<close>

record bq =
  data_ready :: bool
  event_id :: u64
  waiter_count :: s32
  readers :: "reader list"
  pending :: nat
  produced :: nat

definition bq_static :: bq where
  "bq_static = \<lparr>data_ready = False, event_id = 0, waiter_count = 0, readers = [],
     pending = 0, produced = 0\<rparr>"

section \<open>Steps\<close>

definition at :: "bq \<Rightarrow> nat \<Rightarrow> reader \<Rightarrow> bool" where
  "at s i r \<longleftrightarrow> i < length (readers s) \<and> readers s ! i = r"

definition move :: "nat \<Rightarrow> reader \<Rightarrow> bq \<Rightarrow> bq" where
  "move i r s = s\<lparr>readers := (readers s)[i := r]\<rparr>"

text \<open>The steps of \<open>bq_read\<close>, made by reader \<open>i\<close>.\<close>

inductive reader_step :: "nat \<Rightarrow> bq \<Rightarrow> bq \<Rightarrow> bool" for i where
  claim: "at s i (Xchg nonblock) \<Longrightarrow> data_ready s \<Longrightarrow>
    reader_step i s (move i Claimed (s\<lparr>data_ready := False\<rparr>))"
| again: "at s i (Xchg True) \<Longrightarrow> \<not> data_ready s \<Longrightarrow> reader_step i s (move i (Failed EAGAIN) s)"
| miss: "at s i (Xchg False) \<Longrightarrow> \<not> data_ready s \<Longrightarrow> reader_step i s (move i Enter s)"
| enter: "at s i Enter \<Longrightarrow>
    reader_step i s (move i Waiting (s\<lparr>waiter_count := waiter_count s + 1\<rparr>))"
| wake: "at s i Waiting \<Longrightarrow> data_ready s \<Longrightarrow> reader_step i s (move i Woken s)"
| signal: "at s i Waiting \<Longrightarrow> reader_step i s (move i Signalled s)"
| leave: "at s i Woken \<Longrightarrow>
    reader_step i s (move i (Xchg False) (s\<lparr>waiter_count := waiter_count s - 1\<rparr>))"
| abort: "at s i Signalled \<Longrightarrow>
    reader_step i s (move i (Failed ERESTARTSYS) (s\<lparr>waiter_count := waiter_count s - 1\<rparr>))"
| fetch: "at s i Claimed \<Longrightarrow> reader_step i s (move i (Result (event_id s)) s)"

text \<open>
  Those, the two statements \<open>producer_fn\<close> and \<open>trigger_store\<close> share (count the event,
  set the flag), and the arrival of a reader.
\<close>

inductive bq_step :: "bq \<Rightarrow> bq \<Rightarrow> bool" where
  arrive: "bq_step s (s\<lparr>readers := readers s @ [Xchg nonblock]\<rparr>)"
| reads: "reader_step i s s' \<Longrightarrow> bq_step s s'"
| count_event: "bq_step s (s\<lparr>event_id := event_id s + 1, produced := Suc (produced s),
    pending := Suc (pending s)\<rparr>)"
| set_flag: "pending s = Suc n \<Longrightarrow> bq_step s (s\<lparr>data_ready := True, pending := n\<rparr>)"

inductive bq_reach :: "bq \<Rightarrow> bool" where
  start: "bq_reach bq_static"
| step: "bq_reach s \<Longrightarrow> bq_step s s' \<Longrightarrow> bq_reach s'"

text \<open>What a reader that left the loop with event \<open>i\<close> returns.\<close>

definition event_text :: "u64 \<Rightarrow> string" where
  "event_text i = scnprintf 64 (''event #'' @ fmt_u i @ [newline])"

definition bq_read_return :: "srfb \<Rightarrow> u64 \<Rightarrow> nat \<Rightarrow> int \<Rightarrow> errno + (string \<times> int)" where
  "bq_read_return srfb i count pos = srfb count pos (event_text i)"

definition bq_poll :: "bq \<Rightarrow> u32" where
  \<comment> \<open>\<open>EPOLLIN\<close> is 1 and \<open>EPOLLRDNORM\<close> 64\<close>
  "bq_poll s = (if data_ready s then or 1 64 else 0)"

definition event_id_show :: "bq \<Rightarrow> string" where
  "event_id_show s = sysfs_emit (fmt_u (event_id s) @ [newline])"

definition waiters_show :: "bq \<Rightarrow> string" where
  "waiters_show s = sysfs_emit (fmt_d (sint (waiter_count s)) @ [newline])"

text \<open>
  The two producers run to their end; each also wakes the queue, and the timer arms itself
  again (at \<open>jiffies + msecs_to_jiffies(interval_ms)\<close>).
\<close>

definition publish :: "bq \<Rightarrow> bq" where
  "publish s = s\<lparr>event_id := event_id s + 1, produced := Suc (produced s), data_ready := True\<rparr>"

definition producer_fn :: "u64 \<Rightarrow> (u32 \<Rightarrow> u64) \<Rightarrow> u32 \<Rightarrow> bq \<Rightarrow> bq \<times> bq_obj kcall list" where
  "producer_fn j J interval_ms s =
     (publish s, [Wake event_wq, Arm producer_timer (unat (j + J interval_ms))])"

definition trigger_store :: "string \<Rightarrow> bq \<Rightarrow> bq \<times> bq_obj kcall list \<times> nat" where
  "trigger_store buf s = (publish s, [Wake event_wq], length buf)"

lemma publish_steps: "bq_step\<^sup>*\<^sup>* s (publish s)"
proof -
  let ?m = "s\<lparr>event_id := event_id s + 1, produced := Suc (produced s), pending := Suc (pending s)\<rparr>"
  have "bq_step s ?m" by (rule count_event)
  moreover have "bq_step ?m (?m\<lparr>data_ready := True, pending := pending s\<rparr>)" by (rule set_flag) simp
  moreover have "?m\<lparr>data_ready := True, pending := pending s\<rparr> = publish s" by (simp add: publish_def)
  ultimately show ?thesis by (metis rtranclp.rtrancl_refl rtranclp.rtrancl_into_rtrancl)
qed

section \<open>Loading and unloading\<close>

record bq_env =
  e_misc :: "errno option"
  e_group :: "errno option"

definition wait_queues_blocking_init ::
    "u64 \<Rightarrow> (u32 \<Rightarrow> u64) \<Rightarrow> u32 \<Rightarrow> bq_env \<Rightarrow> bq_obj kcall list \<times> errno option" where
  "wait_queues_blocking_init j J interval_ms e =
     (case e_misc e of
        Some x \<Rightarrow> ([], Some x)
      | None \<Rightarrow>
          (case e_group e of
             Some x \<Rightarrow> ([Acquire bq_miscdev, Release bq_miscdev], Some x)
           | None \<Rightarrow> ([Acquire bq_miscdev, Acquire bq_attr_group,
                      Arm producer_timer (unat (j + J interval_ms))], None)))"

definition wait_queues_blocking_exit :: "bq \<Rightarrow> bq \<times> bq_obj kcall list" where
  "wait_queues_blocking_exit s =
     (s\<lparr>data_ready := True\<rparr>,
      [Cancel producer_timer, Wake event_wq, Release bq_attr_group, Release bq_miscdev])"

section \<open>Counting readers\<close>

definition number :: "(reader \<Rightarrow> bool) \<Rightarrow> bq \<Rightarrow> nat" where
  "number P s = length (filter P (readers s))"

abbreviation has_event :: "reader \<Rightarrow> bool" where
  "has_event r \<equiv> (case r of Claimed \<Rightarrow> True | Result i \<Rightarrow> True | _ \<Rightarrow> False)"

abbreviation in_wait :: "reader \<Rightarrow> bool" where
  "in_wait r \<equiv> r \<in> {Waiting, Woken, Signalled}"

lemma length_filter_update:
  "i < length xs \<Longrightarrow>
   length (filter P (xs[i := y])) + (if P (xs ! i) then 1 else 0)
     = length (filter P xs) + (if P y then 1 else 0)"
proof (induction xs arbitrary: i)
  case Nil
  then show ?case by simp
next
  case (Cons x xs)
  then show ?case by (cases i) auto
qed

lemma number_move:
  assumes "at s i r" "readers s' = readers s"
  shows "number P (move i r' s') + (if P r then 1 else 0) = number P s + (if P r' then 1 else 0)"
  using assms length_filter_update[of i "readers s" P r']
  by (simp add: number_def move_def at_def)

lemma number_move_keep:
  "at s i r \<Longrightarrow> readers s' = readers s \<Longrightarrow> P r = P r' \<Longrightarrow> number P (move i r' s') = number P s"
  using number_move[of s i r s' P r'] by (simp split: if_splits)

lemma number_move_in:
  "at s i r \<Longrightarrow> readers s' = readers s \<Longrightarrow> \<not> P r \<Longrightarrow> P r' \<Longrightarrow>
   number P (move i r' s') = Suc (number P s)"
  using number_move[of s i r s' P r'] by simp

lemma number_move_out:
  "at s i r \<Longrightarrow> readers s' = readers s \<Longrightarrow> P r \<Longrightarrow> \<not> P r' \<Longrightarrow>
   Suc (number P (move i r' s')) = number P s"
  using number_move[of s i r s' P r'] by simp

lemma move_simps [simp]:
  "data_ready (move i r s) = data_ready s" "event_id (move i r s) = event_id s"
  "waiter_count (move i r s) = waiter_count s" "pending (move i r s) = pending s"
  "produced (move i r s) = produced s"
  by (simp_all add: move_def)

section \<open>Invariant\<close>

text \<open>
  Every event in the hands of a reader, waiting in the flag or about to be put there was
  produced; the waiter count is the number of readers in the wait; an id that was read is
  that of an event produced so far.
\<close>

definition bq_inv :: "bq \<Rightarrow> bool" where
  "bq_inv s \<longleftrightarrow>
     number has_event s + (if data_ready s then 1 else 0) + pending s \<le> produced s \<and>
     waiter_count s = of_nat (number in_wait s) \<and>
     event_id s = of_nat (produced s) \<and>
     (\<forall>r \<in> set (readers s). case r of Result i \<Rightarrow> (\<exists>k. 0 < k \<and> k \<le> produced s \<and> i = of_nat k) | _ \<Rightarrow> True)"

lemma bq_static_inv: "bq_inv bq_static"
  by (simp add: bq_inv_def bq_static_def number_def)

definition valid_result :: "nat \<Rightarrow> reader \<Rightarrow> bool" where
  "valid_result n r \<longleftrightarrow>
     (case r of Result i \<Rightarrow> (\<exists>k. 0 < k \<and> k \<le> n \<and> i = of_nat k) | _ \<Rightarrow> True)"

lemma valid_result_mono: "valid_result n r \<Longrightarrow> n \<le> m \<Longrightarrow> valid_result m r"
  by (cases r) (auto simp: valid_result_def intro: le_trans)

lemma bq_inv_alt:
  "bq_inv s \<longleftrightarrow>
     number has_event s + (if data_ready s then 1 else 0) + pending s \<le> produced s \<and>
     waiter_count s = of_nat (number in_wait s) \<and> event_id s = of_nat (produced s) \<and>
     (\<forall>r \<in> set (readers s). valid_result (produced s) r)"
  by (simp add: bq_inv_def valid_result_def)

lemma valid_move:
  "\<forall>r \<in> set (readers s). valid_result n r \<Longrightarrow> valid_result n r' \<Longrightarrow> readers s' = readers s \<Longrightarrow>
   \<forall>r \<in> set (readers (move i r' s')). valid_result n r"
  by (auto simp: move_def dest!: subsetD[OF set_update_subset_insert])

lemma valid_others [simp]:
  "valid_result n (Xchg b)" "valid_result n Enter" "valid_result n Waiting" "valid_result n Woken"
  "valid_result n Signalled" "valid_result n Claimed" "valid_result n (Failed e)"
  by (simp_all add: valid_result_def)

lemma number_pos: "at s i r \<Longrightarrow> P r \<Longrightarrow> 0 < number P s"
  by (auto simp: at_def number_def length_greater_0_conv filter_empty_conv intro: nth_mem)

lemma of_nat_pred: "Suc m = n \<Longrightarrow> of_nat n - 1 = (of_nat m :: 'a::len word)"
  by auto

lemmas number_moves = number_move_keep number_move_in number_move_out

lemma keep_inv:
  assumes "bq_inv s" "at s i r" "has_event r = has_event r'" "in_wait r = in_wait r'"
    "\<And>n. valid_result n r'"
  shows "bq_inv (move i r' s)"
  using assms(1) number_move_keep[of s i r s has_event r'] number_move_keep[of s i r s in_wait r']
    valid_move[of s "produced s" r' s i] assms(2-5)
  by (simp add: bq_inv_alt)

lemma reader_step_inv:
  assumes "reader_step i s s'" "bq_inv s"
  shows "bq_inv s'"
proof -
  have wc: "waiter_count s = of_nat (number in_wait s)" using assms(2) by (simp add: bq_inv_alt)
  show ?thesis
    using assms(1)
  proof (cases rule: reader_step.cases)
    case (claim nonblock)
    have "number has_event (move i Claimed (s\<lparr>data_ready := False\<rparr>)) = Suc (number has_event s)"
      using claim(2) by (rule number_move_in) simp_all
    moreover have "number in_wait (move i Claimed (s\<lparr>data_ready := False\<rparr>)) = number in_wait s"
      using claim(2) by (rule number_move_keep) simp_all
    ultimately show ?thesis
      using claim assms(2) valid_move[of s "produced s" Claimed "s\<lparr>data_ready := False\<rparr>" i]
      by (simp add: bq_inv_alt)
  next
    case fetch
    have 0: "number has_event (move i (Result (event_id s)) s) = number has_event s"
      "number in_wait (move i (Result (event_id s)) s) = number in_wait s"
      by (rule number_move_keep[OF fetch(2)]; simp)+
    have "0 < produced s"
      using number_pos[OF fetch(2), of has_event] assms(2) by (simp add: bq_inv_alt)
    then have "valid_result (produced s) (Result (event_id s))"
      using assms(2) by (auto simp: bq_inv_alt valid_result_def)
    with 0 show ?thesis
      using fetch assms(2) valid_move[of s "produced s" "Result (event_id s)" s i]
      by (simp add: bq_inv_alt)
  next
    case enter
    let ?s = "s\<lparr>waiter_count := waiter_count s + 1\<rparr>"
    have "number has_event (move i Waiting ?s) = number has_event s"
      using enter(2) by (rule number_move_keep) simp_all
    moreover have "number in_wait (move i Waiting ?s) = Suc (number in_wait s)"
      using enter(2) by (rule number_move_in) simp_all
    ultimately show ?thesis
      using enter assms(2) valid_move[of s "produced s" Waiting ?s i] by (simp add: bq_inv_alt)
  next
    case leave
    let ?s = "s\<lparr>waiter_count := waiter_count s - 1\<rparr>"
    have "number has_event (move i (Xchg False) ?s) = number has_event s"
      using leave(2) by (rule number_move_keep) simp_all
    moreover have "Suc (number in_wait (move i (Xchg False) ?s)) = number in_wait s"
      using leave(2) by (rule number_move_out) simp_all
    then have "waiter_count s - 1 = of_nat (number in_wait (move i (Xchg False) ?s))"
      unfolding wc by (rule of_nat_pred)
    ultimately show ?thesis
      using leave assms(2) valid_move[of s "produced s" "Xchg False" ?s i]
      by (simp add: bq_inv_alt)
  next
    case abort
    let ?s = "s\<lparr>waiter_count := waiter_count s - 1\<rparr>"
    have "number has_event (move i (Failed ERESTARTSYS) ?s) = number has_event s"
      using abort(2) by (rule number_move_keep) simp_all
    moreover have "Suc (number in_wait (move i (Failed ERESTARTSYS) ?s)) = number in_wait s"
      using abort(2) by (rule number_move_out) simp_all
    then have "waiter_count s - 1 = of_nat (number in_wait (move i (Failed ERESTARTSYS) ?s))"
      unfolding wc by (rule of_nat_pred)
    ultimately show ?thesis
      using abort assms(2) valid_move[of s "produced s" "Failed ERESTARTSYS" ?s i]
      by (simp add: bq_inv_alt)
  qed (use keep_inv[OF assms(2)] in simp)+
qed

lemma bq_step_inv:
  assumes "bq_step s s'" "bq_inv s"
  shows "bq_inv s'"
  using assms(1)
proof (cases rule: bq_step.cases)
  case (arrive nonblock)
  then show ?thesis using assms(2) by (simp add: bq_inv_alt number_def)
next
  case (reads i)
  then show ?thesis using assms(2) by (rule reader_step_inv)
next
  case count_event
  then show ?thesis
    using assms(2) by (auto simp: bq_inv_alt number_def intro: valid_result_mono)
next
  case (set_flag n)
  then show ?thesis using assms(2) by (auto simp: bq_inv_alt number_def)
qed

lemma bq_reach_inv: "bq_reach s \<Longrightarrow> bq_inv s"
  by (induction rule: bq_reach.induct) (auto simp: bq_static_inv intro: bq_step_inv)

lemma bq_reach_steps: "bq_reach s \<Longrightarrow> bq_step\<^sup>*\<^sup>* s s' \<Longrightarrow> bq_reach s'"
  by (rotate_tac, induction rule: rtranclp_induct) (auto intro: bq_reach.step)

section \<open>Progress of a reader\<close>

lemma at_move [simp]: "at s i r \<Longrightarrow> at (move i r' s') i r'' \<longleftrightarrow> r' = r''" if "readers s' = readers s"
  using that by (auto simp: at_def move_def)

lemma at_moved: "at s i r \<Longrightarrow> readers s' = readers s \<Longrightarrow> at (move i r' s') i r'"
  by (simp add: at_def move_def)

lemma reader_steps: "(reader_step i)\<^sup>*\<^sup>* s s' \<Longrightarrow> bq_step\<^sup>*\<^sup>* s s'"
  by (induction rule: rtranclp_induct) (auto intro: rtranclp.rtrancl_into_rtrancl reads)

lemma claimed_served:
  assumes "at s i (Xchg nonblock)" "data_ready s"
  shows "\<exists>s'. (reader_step i)\<^sup>*\<^sup>* s s' \<and> at s' i (Result (event_id s)) \<and> \<not> data_ready s' \<and> produced s' = produced s"
proof -
  let ?c = "move i Claimed (s\<lparr>data_ready := False\<rparr>)"
  have c: "at ?c i Claimed" using assms(1) by (rule at_moved) simp
  have "reader_step i s ?c" using assms by (rule claim)
  moreover have "reader_step i ?c (move i (Result (event_id ?c)) ?c)" using c by (rule fetch)
  moreover have "at (move i (Result (event_id ?c)) ?c) i (Result (event_id s))"
    using at_moved[OF c refl, of "Result (event_id s)"] by simp
  ultimately show ?thesis
    by (intro exI[of _ "move i (Result (event_id ?c)) ?c"])
      (auto intro: rtranclp.rtrancl_into_rtrancl)
qed

text \<open>A reader anywhere before the exchange gets a flag that is up by its own steps alone.\<close>

lemma reader_served:
  assumes "at s i r" "data_ready s" "r \<in> {Xchg nonblock, Enter, Waiting, Woken}"
  shows "\<exists>s'. (reader_step i)\<^sup>*\<^sup>* s s' \<and> at s' i (Result (event_id s)) \<and> \<not> data_ready s' \<and> produced s' = produced s"
proof -
  have woken: ?thesis if "(reader_step i)\<^sup>*\<^sup>* s u" "at u i Woken" "data_ready u" "event_id u = event_id s"
    "produced u = produced s" for u
  proof -
    let ?v = "move i (Xchg False) (u\<lparr>waiter_count := waiter_count u - 1\<rparr>)"
    have "reader_step i u ?v" using that(2) by (rule leave)
    moreover have "at ?v i (Xchg False)" using that(2) by (rule at_moved) simp
    ultimately show ?thesis
      using claimed_served[of ?v i False] that(1,3-5)
      by (auto intro: rtranclp_trans converse_rtranclp_into_rtranclp)
  qed
  have waiting: ?thesis if "(reader_step i)\<^sup>*\<^sup>* s u" "at u i Waiting" "data_ready u" "event_id u = event_id s"
    "produced u = produced s" for u
    using woken[of "move i Woken u"] wake[OF that(2,3)] at_moved[OF that(2) refl] that
    by (auto intro: rtranclp.rtrancl_into_rtrancl)
  show ?thesis
  proof (cases r)
    case (Xchg b)
    with assms show ?thesis by (auto intro: claimed_served)
  next
    case Enter
    with assms(1) have e: "at s i Enter" by simp
    show ?thesis
      using waiting[of "move i Waiting (s\<lparr>waiter_count := waiter_count s + 1\<rparr>)"] enter[OF e]
        at_moved[OF e, of "s\<lparr>waiter_count := waiter_count s + 1\<rparr>" Waiting] assms(2)
      by auto
  next
    case Waiting
    with assms show ?thesis by (auto intro: waiting)
  next
    case Woken
    with assms show ?thesis by (auto intro: woken)
  qed (use assms(3) in auto)
qed

section \<open>Properties\<close>

text \<open>C7: each event is consumed at most once. In every state that any interleaving of readers,
  timers and triggers reaches, the events held by readers, the one the flag announces and
  those about to be announced are together no more than the events produced; the
  waiter count is the number of readers in the wait; and every id a reader got is that of an
  event that had been produced.\<close>

theorem events_consumed_once:
  assumes "bq_reach s"
  shows "number has_event s + (if data_ready s then 1 else 0) + pending s \<le> produced s \<and>
    waiter_count s = of_nat (number in_wait s) \<and> event_id s = of_nat (produced s) \<and>
    (\<forall>i \<in> {i. Result i \<in> set (readers s)}. \<exists>k. 0 < k \<and> k \<le> produced s \<and> i = of_nat k)"
  using bq_reach_inv[OF assms] by (force simp: bq_inv_def)

theorem events_consumed_once_witness:
  "number has_event (publish bq_static) \<le> 1"
  using events_consumed_once[OF bq_reach_steps[OF bq_reach.start publish_steps]]
  by (simp add: publish_def bq_static_def)

text \<open>A reader that is waiting when the flag goes up is not stuck. Wherever it stands
  before the exchange, its own steps alone lead it to return the current event and take the
  flag down again. (\<open>WaitSleep\<close> has the sleep, and the wake-up it needs.)\<close>

theorem waiting_reader_served:
  assumes "at s i r" and "r \<in> {Xchg nonblock, Enter, Waiting, Woken}"
  shows "\<exists>s'. bq_step\<^sup>*\<^sup>* (publish s) s' \<and> at s' i (Result (event_id s + 1)) \<and> \<not> data_ready s'"
proof -
  have "at (publish s) i r" "data_ready (publish s)" using assms(1) by (simp_all add: at_def publish_def)
  from reader_served[OF this assms(2)] show ?thesis by (auto simp: publish_def dest: reader_steps)
qed

theorem waiting_reader_served_witness:
  "\<exists>s'. bq_step\<^sup>*\<^sup>* (publish (bq_static\<lparr>readers := [Waiting]\<rparr>)) s' \<and> at s' 0 (Result 1)"
  using waiting_reader_served[of "bq_static\<lparr>readers := [Waiting]\<rparr>" 0 Waiting False]
  by (auto simp: at_def bq_static_def)

text \<open>C37: two readers can return the same event number. The exchange and the read of
  \<open>event_id\<close> are two steps: when a second event comes between them for the first reader,
  and a second reader takes it, both return the second event's number; both events are then
  spent, and the first event's number was reported to nobody.\<close>

theorem duplicate_event_number:
  "\<exists>s. bq_reach s \<and> readers s = [Result 2, Result 2] \<and> produced s = 2 \<and>
     \<not> data_ready s \<and> pending s = 0"
proof -
  define s0 where "s0 = bq_static\<lparr>readers := [Xchg False, Xchg False]\<rparr>"
  define s1 where "s1 = move 0 Claimed ((publish s0)\<lparr>data_ready := False\<rparr>)"
  define s2 where "s2 = move 1 Claimed ((publish s1)\<lparr>data_ready := False\<rparr>)"
  define s3 where "s3 = move 0 (Result (event_id s2)) s2"
  define s4 where "s4 = move 1 (Result (event_id s3)) s3"
  have "bq_reach bq_static" by (rule bq_reach.start)
  then have "bq_reach (bq_static\<lparr>readers := readers bq_static @ [Xchg False]\<rparr>)"
    by (rule bq_reach.step) (rule arrive)
  then have "bq_reach s0"
    by (rule bq_reach.step) (use arrive[of "bq_static\<lparr>readers := [Xchg False]\<rparr>" False] in
        \<open>simp add: s0_def bq_static_def\<close>)
  then have "bq_reach (publish s0)" by (rule bq_reach_steps) (rule publish_steps)
  then have "bq_reach s1" unfolding s1_def
    by (rule bq_reach.step) (rule reads, rule claim[of _ _ False]; simp add: at_def publish_def s0_def)
  then have "bq_reach (publish s1)" by (rule bq_reach_steps) (rule publish_steps)
  then have "bq_reach s2" unfolding s2_def
    by (rule bq_reach.step)
      (rule reads, rule claim[of _ _ False]; simp add: at_def publish_def s1_def s0_def move_def)
  then have "bq_reach s3" unfolding s3_def
    by (rule bq_reach.step)
      (rule reads, rule fetch; simp add: at_def publish_def s2_def s1_def s0_def move_def)
  then have "bq_reach s4" unfolding s4_def
    by (rule bq_reach.step)
      (rule reads, rule fetch; simp add: at_def publish_def s3_def s2_def s1_def s0_def move_def)
  moreover have r: "readers s4 = [Result 2, Result 2]" and "produced s4 = 2"
    by (simp_all add: s4_def s3_def s2_def s1_def s0_def publish_def move_def bq_static_def)
  moreover have "\<not> data_ready s4" "pending s4 = 0"
    by (simp_all add: s4_def s3_def s2_def s1_def s0_def publish_def bq_static_def)
  ultimately show ?thesis by (intro exI[of _ s4]) simp
qed

text \<open>A second read of an open file consumes an event and returns nothing. The loop does not
  look at the file position: a reader whose position is at or past the end of the event text
  waits for the next event like any other and takes it down, but the copy that follows
  delivers no byte, which a program such as \<open>cat\<close> takes for the end of the file.\<close>

theorem second_read_swallows_event:
  assumes "srfb_documented srfb" and "at s i (Xchg nonblock)" and "data_ready s"
    and "int (length (event_text (event_id s))) \<le> pos"
  shows "(\<exists>s'. bq_step\<^sup>*\<^sup>* s s' \<and> at s' i (Result (event_id s)) \<and> \<not> data_ready s') \<and>
    bq_read_return srfb (event_id s) n pos = Inr ([], pos)"
proof -
  have p: "0 \<le> pos" "length (event_text (event_id s)) \<le> nat pos" using assms(4) by simp_all
  have "bq_read_return srfb (event_id s) n pos = Inr ([], pos)"
    using assms(1)[unfolded srfb_documented_def Let_def, rule_format, OF p(1), of n
        "event_text (event_id s)"] p(2)
    by (simp add: bq_read_return_def)
  with claimed_served[OF assms(2,3)] show ?thesis by (blast dest: reader_steps)
qed

theorem second_read_swallows_event_witness:
  "bq_read_return ref_srfb 2 100 10 = Inr ([], 10) \<and>
   bq_read_return ref_srfb 1 100 0 = Inr (''event #1\<newline>'', 9)"
proof -
  let ?s = "bq_static\<lparr>readers := [Xchg False], event_id := 2, data_ready := True\<rparr>"
  have "dec 2 = ''2''" "dec 1 = ''1''" by (simp_all add: dec.simps digit_def char_of_def bit_0)
  moreover from this have "bq_read_return ref_srfb (event_id ?s) 100 10 = Inr ([], 10)"
    using second_read_swallows_event[OF ref_srfb_documented, of ?s 0 False 10 100]
    by (simp add: at_def event_text_def scnprintf_def fmt_u_def)
  ultimately show ?thesis
    by (simp add: bq_read_return_def ref_srfb_def event_text_def scnprintf_def fmt_u_def Let_def)
qed

section \<open>Loading and unloading\<close>

datatype bq_op = Producer u64 u32 | Trigger string | Show_event_id | Show_waiters

fun bq_serve :: "(u32 \<Rightarrow> u64) \<Rightarrow> bq \<Rightarrow> bq_op \<Rightarrow> bq \<times> bq_obj kcall list" where
  "bq_serve J s (Producer j ms) = producer_fn j J ms s"
| "bq_serve J s (Trigger b) = (let (s1, cs, n) = trigger_store b s in (s1, cs))"
| "bq_serve J s Show_event_id = (s, [])"
| "bq_serve J s Show_waiters = (s, [])"

definition bq_live :: "bq \<Rightarrow> bq_obj kworld \<Rightarrow> bool" where
  "bq_live s w \<longleftrightarrow> locked w = {} \<and> armed w \<subseteq> {producer_timer} \<and> held w = {bq_miscdev, bq_attr_group}"

interpretation bq_session: module_session
    "\<lambda>(j, ms, e). let (t, r) = wait_queues_blocking_init j J ms e in (bq_static, t, r)"
    "bq_serve J" "\<lambda>s. snd (wait_queues_blocking_exit s)" bq_live for J
proof
  fix s w p s' t
  assume "bq_live s w" "bq_serve J s p = (s', t)"
  then show "\<exists>w'. kruns w t = Some w' \<and> bq_live s' w'"
    by (cases p) (auto simp: producer_fn_def trigger_store_def bq_live_def)
next
  fix s w
  assume w: "bq_live s w"
  then have "armed w - {producer_timer} = {}" by (auto simp: bq_live_def)
  with w show "kruns w (snd (wait_queues_blocking_exit s)) = Some quiet"
    by (auto simp: wait_queues_blocking_exit_def bq_live_def quiet_iff)
qed (auto simp: wait_queues_blocking_init_def bq_live_def quiet_iff split: option.splits)

text \<open>Unloading is safe here. Whatever the timer and the trigger did, the exit function
  shuts the timer down first and then removes the files, and nothing is left armed or
  registered, also when a trigger is written between the two.\<close>

theorem bq_session_clean:
  "case wait_queues_blocking_init j J ms e of
     (t, Some x) \<Rightarrow> kruns quiet t = Some quiet
   | (t, None) \<Rightarrow> let (s', t') = serve_all (bq_serve J) bq_static ps in
       kruns quiet (t @ t' @ snd (wait_queues_blocking_exit s')) = Some quiet \<and>
       kruns quiet (t @ t' @ [Cancel producer_timer, Wake event_wq] @ fst (snd (trigger_store b s'))
         @ drop 2 (snd (wait_queues_blocking_exit s'))) = Some quiet"
proof -
  obtain t r where i: "wait_queues_blocking_init j J ms e = (t, r)" by fastforce
  obtain s' t' where v: "serve_all (bq_serve J) bq_static ps = (s', t')" by fastforce
  show ?thesis
  proof (cases r)
    case None
    obtain w where w: "kruns quiet (t @ t') = Some w" "bq_live s' w"
      using bq_session.load_ok[of J "(j, ms, e)" bq_static t] i None
        bq_session.serve_all_live[OF _ v] by fastforce
    then have "armed w - {producer_timer} = {}" by (auto simp: bq_live_def)
    with w have "kruns w ([Cancel producer_timer, Wake event_wq] @ fst (snd (trigger_store b s'))
         @ drop 2 (snd (wait_queues_blocking_exit s'))) = Some quiet"
      by (auto simp: wait_queues_blocking_exit_def trigger_store_def bq_live_def quiet_iff)
    then show ?thesis
      using i None v w(1) bq_session.unload_live[OF w(2)]
        kruns_append_Some[OF w(1)] by simp
  qed (use bq_session.load_fail[of J "(j, ms, e)" bq_static t] i in simp)
qed

end
