(* ===== verification/Step_Systems.thy ===== *)
theory Step_Systems
  imports KPrelude
begin

text \<open>
  The contract of the step relations by which concurrent code is modelled: steps keep an
  invariant, each of them leaves less to do, and where something is left to do there is a
  step. Then every run is bounded, whoever is scheduled, and can be brought to its end from
  wherever it stands.
\<close>

locale invariant_system =
  fixes step :: "'s \<Rightarrow> 's \<Rightarrow> bool" and inv :: "'s \<Rightarrow> bool"
  assumes step_inv: "inv s \<Longrightarrow> step s s' \<Longrightarrow> inv s'"
begin

lemma steps_inv: "step\<^sup>*\<^sup>* s s' \<Longrightarrow> inv s \<Longrightarrow> inv s'"
  by (induction rule: rtranclp_induct) (auto intro: step_inv)

lemma run_inv: "(step ^^ k) s s' \<Longrightarrow> inv s \<Longrightarrow> inv s'"
  by (rule steps_inv[OF relpowp_imp_rtranclp])

end

locale live_system = invariant_system step inv
  for step :: "'s \<Rightarrow> 's \<Rightarrow> bool" and inv :: "'s \<Rightarrow> bool" +
  fixes left :: "'s \<Rightarrow> nat"
  assumes step_left: "inv s \<Longrightarrow> step s s' \<Longrightarrow> left s' < left s"
    and progress: "inv s \<Longrightarrow> left s \<noteq> 0 \<Longrightarrow> \<exists>s'. step s s'"
begin

lemma run_bounded: "(step ^^ k) s s' \<Longrightarrow> inv s \<Longrightarrow> k + left s' \<le> left s"
proof (induction k arbitrary: s')
  case 0
  then show ?case by simp
next
  case (Suc k)
  then obtain u where u: "(step ^^ k) s u" "step u s'" by auto
  have "inv u" using run_inv[OF u(1) Suc.prems(2)] .
  with Suc.IH[OF u(1) Suc.prems(2)] step_left[OF _ u(2)] show ?case by simp
qed

lemma completes: "inv s \<Longrightarrow> \<exists>s'. step\<^sup>*\<^sup>* s s' \<and> left s' = 0"
proof (induction "left s" arbitrary: s rule: less_induct)
  case less
  show ?case
  proof (cases "left s = 0")
    case False
    then obtain u where u: "step s u" using progress[OF less.prems] by blast
    obtain s' where "step\<^sup>*\<^sup>* u s'" "left s' = 0"
      using less.hyps[OF step_left[OF less.prems u] step_inv[OF less.prems u]] by blast
    with u show ?thesis by (blast intro: converse_rtranclp_into_rtranclp)
  qed blast
qed

lemma run_completes:
  assumes "inv s" "(step ^^ k) s s'"
  shows "k \<le> left s \<and> (\<exists>s''. step\<^sup>*\<^sup>* s' s'' \<and> left s'' = 0)"
  using run_bounded[OF assms(2,1)] completes[OF run_inv[OF assms(2,1)]] by simp

end

end
