(* ===== verification/ConcurrencyLocking.thy ===== *)
theory ConcurrencyLocking
  imports KernelAPI Step_Systems
begin

text \<open>
  \<^verbatim>\<open>11_concurrency_locking\<close>: a counter incremented by concurrent writers in one of four
  ways. Increments and resets are broken into their loads, stores and lock operations; a run
  is any interleaving. The stress test that looks for lost updates is \<open>StressTest\<close>.
\<close>

section \<open>State\<close>

datatype race_obj = race_miscdev | race_attr_group

abbreviation MODE_NONE :: s32 where "MODE_NONE \<equiv> 0"
abbreviation MODE_SPINLOCK :: s32 where "MODE_SPINLOCK \<equiv> 1"
abbreviation MODE_MUTEX :: s32 where "MODE_MUTEX \<equiv> 2"
abbreviation MODE_ATOMIC :: s32 where "MODE_ATOMIC \<equiv> 3"

datatype race_lock = counter_spinlock | counter_mutex

text \<open>
  Where a thread stands. A writer has \<open>n\<close> increments to go after the current one: before
  an increment (\<open>Ready\<close>), between the load and the store without a lock (\<open>Plain\<close>), before
  a lock, holding it, after the load and after the store under it. A reset goes through the
  spinlock, the atomic counter and the load and store of \<open>reset_count\<close>.
\<close>

datatype thread =
    Ready nat | Plain nat u64
  | Want race_lock nat | Held race_lock nat | Loaded race_lock nat u64 | Stored race_lock nat
  | Reset_want | Reset_held | Reset_zeroed | Reset_unlocked | Reset_count | Reset_loaded u64
  | Reset_done

record race =
  mode :: s32
  counter_plain :: u64
  counter_atomic :: u64
  reset_count :: u64
  owner :: "race_lock \<Rightarrow> nat option"
  threads :: "thread list"

definition race_static :: race where
  "race_static = \<lparr>mode = MODE_NONE, counter_plain = 0, counter_atomic = 0, reset_count = 0,
     owner = (\<lambda>_. None), threads = []\<rparr>"

section \<open>Steps\<close>

definition stands :: "race \<Rightarrow> nat \<Rightarrow> thread \<Rightarrow> bool" where
  "stands s i t \<longleftrightarrow> i < length (threads s) \<and> threads s ! i = t"

definition goes :: "nat \<Rightarrow> thread \<Rightarrow> race \<Rightarrow> race" where
  "goes i t s = s\<lparr>threads := (threads s)[i := t]\<rparr>"

definition locked_mode :: "s32 \<Rightarrow> race_lock option" where
  "locked_mode m =
     (if m = MODE_SPINLOCK then Some counter_spinlock
      else if m = MODE_MUTEX then Some counter_mutex else None)"

text \<open>
  The steps of \<open>increment_once\<close> by thread \<open>i\<close> (the mode is read at the start of each
  increment), of \<open>reset_counters\<close>, and of the stores to \<open>mode\<close>.
\<close>

inductive increment_step :: "nat \<Rightarrow> race \<Rightarrow> race \<Rightarrow> bool" where
  none_load: "stands s i (Ready (Suc n)) \<Longrightarrow> mode s = MODE_NONE \<Longrightarrow>
    increment_step i s (goes i (Plain n (counter_plain s)) s)"
| none_store: "stands s i (Plain n tmp) \<Longrightarrow>
    increment_step i s (goes i (Ready n) (s\<lparr>counter_plain := tmp + 1\<rparr>))"
| choose: "stands s i (Ready (Suc n)) \<Longrightarrow> locked_mode (mode s) = Some l \<Longrightarrow>
    increment_step i s (goes i (Want l n) s)"
| lock: "stands s i (Want l n) \<Longrightarrow> owner s l = None \<Longrightarrow>
    increment_step i s (goes i (Held l n) (s\<lparr>owner := (owner s)(l := Some i)\<rparr>))"
| load: "stands s i (Held l n) \<Longrightarrow>
    increment_step i s (goes i (Loaded l n (counter_plain s)) s)"
| store: "stands s i (Loaded l n tmp) \<Longrightarrow>
    increment_step i s (goes i (Stored l n) (s\<lparr>counter_plain := tmp + 1\<rparr>))"
| unlock: "stands s i (Stored l n) \<Longrightarrow>
    increment_step i s (goes i (Ready n) (s\<lparr>owner := (owner s)(l := None)\<rparr>))"
| atomic_inc: "stands s i (Ready (Suc n)) \<Longrightarrow> mode s = MODE_ATOMIC \<Longrightarrow>
    increment_step i s (goes i (Ready n) (s\<lparr>counter_atomic := counter_atomic s + 1\<rparr>))"
| no_case: "stands s i (Ready (Suc n)) \<Longrightarrow>
    mode s \<notin> {MODE_NONE, MODE_SPINLOCK, MODE_MUTEX, MODE_ATOMIC} \<Longrightarrow>
    increment_step i s (goes i (Ready n) s)"

inductive reset_step :: "nat \<Rightarrow> race \<Rightarrow> race \<Rightarrow> bool" where
  r_lock: "stands s i Reset_want \<Longrightarrow> owner s counter_spinlock = None \<Longrightarrow>
    reset_step i s (goes i Reset_held (s\<lparr>owner := (owner s)(counter_spinlock := Some i)\<rparr>))"
| r_zero: "stands s i Reset_held \<Longrightarrow>
    reset_step i s (goes i Reset_zeroed (s\<lparr>counter_plain := 0\<rparr>))"
| r_unlock: "stands s i Reset_zeroed \<Longrightarrow>
    reset_step i s (goes i Reset_unlocked (s\<lparr>owner := (owner s)(counter_spinlock := None)\<rparr>))"
| r_atomic: "stands s i Reset_unlocked \<Longrightarrow>
    reset_step i s (goes i Reset_count (s\<lparr>counter_atomic := 0\<rparr>))"
| r_load: "stands s i Reset_count \<Longrightarrow>
    reset_step i s (goes i (Reset_loaded (reset_count s)) s)"
| r_store: "stands s i (Reset_loaded tmp) \<Longrightarrow>
    reset_step i s (goes i Reset_done (s\<lparr>reset_count := tmp + 1\<rparr>))"

text \<open>A reset that nothing interrupts (\<open>reset_alone\<close> below), and the file that asks for it.\<close>

definition reset_counters :: "race \<Rightarrow> race" where
  "reset_counters s =
     (let s1 = s\<lparr>counter_plain := 0\<rparr>; s2 = s1\<lparr>counter_atomic := 0\<rparr>
      in s2\<lparr>reset_count := reset_count s2 + 1\<rparr>)"

definition reset_store :: "string \<Rightarrow> race \<Rightarrow> race \<times> (errno + nat)" where
  "reset_store buf s = (reset_counters s, Inr (length buf))"

definition race_write :: "nat \<Rightarrow> nat" where
  \<comment> \<open>the number of increments a write of \<open>count\<close> bytes makes, which is also what it returns\<close>
  "race_write count = min count 1000000"

definition mode_store :: "kstr \<Rightarrow> string \<Rightarrow> race \<Rightarrow> race \<times> (errno + nat)" where
  "mode_store K buf s =
     (case kstrtoint K buf 0 of
        Inl e \<Rightarrow> (s, Inl e)
      | Inr v \<Rightarrow>
          if sint v < sint MODE_NONE \<or> sint v > sint MODE_ATOMIC then (s, Inl EINVAL)
          else (s\<lparr>mode := v\<rparr>, Inr (length buf)))"

definition mode_show :: "race \<Rightarrow> string" where
  "mode_show s = sysfs_emit (fmt_d (sint (mode s)) @ [newline])"

definition current_counter_value :: "race \<Rightarrow> u64" where
  "current_counter_value s = (if mode s = MODE_ATOMIC then counter_atomic s else counter_plain s)"

definition counter_show :: "race \<Rightarrow> string" where
  "counter_show s = sysfs_emit (fmt_u (current_counter_value s) @ [newline])"

definition race_read :: "srfb \<Rightarrow> nat \<Rightarrow> int \<Rightarrow> race \<Rightarrow> errno + (string \<times> int)" where
  "race_read srfb count pos s =
     srfb count pos (scnprintf 32 (fmt_u (current_counter_value s) @ [newline]))"

inductive race_step :: "race \<Rightarrow> race \<Rightarrow> bool" where
  new_write: "race_step s (s\<lparr>threads := threads s @ [Ready (race_write count)]\<rparr>)"
| new_reset: "race_step s (s\<lparr>threads := threads s @ [Reset_want]\<rparr>)"
| set_mode: "race_step s (fst (mode_store K buf s))"
| increments: "increment_step i s s' \<Longrightarrow> race_step s s'"
| resets: "reset_step i s s' \<Longrightarrow> race_step s s'"

section \<open>Loading and unloading\<close>

record race_env =
  e_misc :: "errno option"
  e_group :: "errno option"

definition concurrency_locking_init :: "race_env \<Rightarrow> race_obj kcall list \<times> errno option" where
  "concurrency_locking_init e =
     (case e_misc e of
        Some x \<Rightarrow> ([], Some x)
      | None \<Rightarrow>
          (case e_group e of
             Some x \<Rightarrow> ([Acquire race_miscdev, Release race_miscdev], Some x)
           | None \<Rightarrow> ([Acquire race_miscdev, Acquire race_attr_group], None)))"

definition concurrency_locking_exit :: "race_obj kcall list" where
  "concurrency_locking_exit = [Release race_attr_group, Release race_miscdev]"

section \<open>What is left to do\<close>

abbreviation any_increment :: "race \<Rightarrow> race \<Rightarrow> bool" where
  "any_increment s s' \<equiv> \<exists>i. increment_step i s s'"

fun todo :: "thread \<Rightarrow> nat" where
  "todo (Ready n) = n"
| "todo (Plain n tmp) = Suc n"
| "todo (Want l n) = Suc n"
| "todo (Held l n) = Suc n"
| "todo (Loaded l n tmp) = Suc n"
| "todo (Stored l n) = n"
| "todo _ = 0"

fun work :: "thread \<Rightarrow> nat" where
  "work (Ready n) = 5 * n"
| "work (Plain n tmp) = 5 * n + 1"
| "work (Want l n) = 5 * n + 4"
| "work (Held l n) = 5 * n + 3"
| "work (Loaded l n tmp) = 5 * n + 2"
| "work (Stored l n) = 5 * n + 1"
| "work _ = 0"

definition total :: "(thread \<Rightarrow> nat) \<Rightarrow> race \<Rightarrow> nat" where
  "total f s = sum_list (map f (threads s))"

lemma total_goes:
  assumes "stands s i t" "threads s' = threads s"
  shows "total f (goes i t' s') + f t = total f s + f t'"
proof -
  have i: "i < length (threads s)" and t: "threads s ! i = t" using assms(1) by (simp_all add: stands_def)
  show ?thesis
    by (rule sum_list_update_split[OF i, of f]) (simp add: total_def goes_def assms(2) t)
qed

lemma goes_simps [simp]:
  "mode (goes i t s) = mode s" "counter_plain (goes i t s) = counter_plain s"
  "counter_atomic (goes i t s) = counter_atomic s" "owner (goes i t s) = owner s"
  "reset_count (goes i t s) = reset_count s"
  "length (threads (goes i t s)) = length (threads s)"
  by (simp_all add: goes_def)

lemma nth_goes: "j < length (threads s) \<Longrightarrow>
    threads (goes i t s) ! j = (if i = j then t else threads s ! j)"
  by (simp add: goes_def nth_list_update)

text \<open>Every step of an increment is progress, in every mode.\<close>

lemma work_goes:
  "stands s i t \<Longrightarrow> threads u = threads s \<Longrightarrow> work t' < work t \<Longrightarrow>
   total work (goes i t' u) < total work s"
  using total_goes[of s i t u work t'] by simp

lemma increment_work: "increment_step i s s' \<Longrightarrow> total work s' < total work s"
  by (erule increment_step.cases) (auto intro: work_goes)

section \<open>Increments under one lock\<close>

text \<open>
  With the mode fixed to a locked one, every thread that writes holds that lock, at most one
  does, what it has loaded is still the counter, and the counter together with what is left
  to do is constant.
\<close>

definition thread_ok :: "race_lock \<Rightarrow> race \<Rightarrow> nat \<Rightarrow> thread \<Rightarrow> bool" where
  "thread_ok l s i t \<longleftrightarrow>
     (case t of
        Ready n \<Rightarrow> owner s l \<noteq> Some i
      | Want l' n \<Rightarrow> l' = l \<and> owner s l \<noteq> Some i
      | Held l' n \<Rightarrow> l' = l \<and> owner s l = Some i
      | Loaded l' n tmp \<Rightarrow> l' = l \<and> owner s l = Some i \<and> tmp = counter_plain s
      | Stored l' n \<Rightarrow> l' = l \<and> owner s l = Some i
      | _ \<Rightarrow> False)"

definition locked_inv :: "race_lock \<Rightarrow> u64 \<Rightarrow> race \<Rightarrow> bool" where
  "locked_inv l c s \<longleftrightarrow>
     locked_mode (mode s) = Some l \<and>
     (\<forall>i < length (threads s). thread_ok l s i (threads s ! i)) \<and>
     (\<forall>i. owner s l = Some i \<longrightarrow> i < length (threads s)) \<and>
     counter_plain s + of_nat (total todo s) = c"

lemma locked_not_plain: "locked_mode m = Some l \<Longrightarrow> m \<noteq> MODE_NONE \<and> m \<noteq> MODE_ATOMIC"
  by (auto simp: locked_mode_def)

lemma locked_invD: "locked_inv l c s \<Longrightarrow> stands s i t \<Longrightarrow> thread_ok l s i t"
  by (auto simp: locked_inv_def stands_def)

lemma thread_ok_goes [simp]: "thread_ok l (goes i t u) j t' \<longleftrightarrow> thread_ok l u j t'"
  by (cases t') (simp_all add: thread_ok_def)

lemma balance:
  fixes a b :: u64
  assumes "b + t = a + t'" "c' + t' = c + t"
  shows "c' + b = c + a"
proof -
  have "(c' + b) + t' = (c' + t') + b" by (simp only: add.assoc add.commute[of b])
  also have "\<dots> = c + (b + t)" unfolding assms(2) by (simp only: add.assoc add.commute[of b])
  also have "\<dots> = (c + a) + t'" unfolding assms(1) by (simp only: add.assoc)
  finally show ?thesis by (rule add_right_imp_eq)
qed

lemma locked_invI:
  assumes "locked_inv l c s" "stands s i t" "threads u = threads s" "mode u = mode s"
    and "thread_ok l u i t'"
    and "\<And>j t. j \<noteq> i \<Longrightarrow> thread_ok l s j t \<Longrightarrow> thread_ok l u j t"
    and "owner u l = owner s l \<or> owner u l = Some i \<or> owner u l = None"
    and "counter_plain u + of_nat (todo t') = counter_plain s + of_nat (todo t)"
  shows "locked_inv l c (goes i t' u)"
proof -
  have "total todo (goes i t' u) + todo t = total todo s + todo t'"
    using assms(2,3) by (rule total_goes)
  then have "(of_nat (total todo (goes i t' u)) :: u64) + of_nat (todo t) =
      of_nat (total todo s) + of_nat (todo t')"
    by (metis of_nat_add)
  then have "counter_plain u + of_nat (total todo (goes i t' u)) = counter_plain s + of_nat (total todo s)"
    using assms(8) by (rule balance)
  moreover have "thread_ok l (goes i t' u) j (threads (goes i t' u) ! j)"
    if "j < length (threads s)" for j
    using that assms(1,3,5,6) by (auto simp: locked_inv_def nth_goes)
  moreover have "i < length (threads s)" using assms(2) by (simp add: stands_def)
  ultimately show ?thesis
    using assms(1,3,4,7) by (auto simp: locked_inv_def)
qed

lemma locked_step:
  assumes "increment_step i s s'" "locked_inv l c s"
  shows "locked_inv l c s'"
  using assms(1)
proof (cases rule: increment_step.cases)
  case (choose n l')
  then have "l' = l" using assms(2) by (simp add: locked_inv_def)
  then show ?thesis
    unfolding choose(1)
    using locked_invD[OF assms(2) choose(2)]
    by (intro locked_invI[OF assms(2) choose(2)]) (auto simp: thread_ok_def)
next
  case (lock l' n)
  show ?thesis
    unfolding lock(1)
    using locked_invD[OF assms(2) lock(2)] lock(3)
    by (intro locked_invI[OF assms(2) lock(2)]) (auto simp: thread_ok_def split: thread.splits)
next
  case (load l' n)
  show ?thesis
    unfolding load(1)
    using locked_invD[OF assms(2) load(2)]
    by (intro locked_invI[OF assms(2) load(2)]) (auto simp: thread_ok_def)
next
  case (store l' n tmp)
  show ?thesis
    unfolding store(1)
    using locked_invD[OF assms(2) store(2)]
    by (intro locked_invI[OF assms(2) store(2)]) (auto simp: thread_ok_def split: thread.splits)
next
  case (unlock l' n)
  show ?thesis
    unfolding unlock(1)
    using locked_invD[OF assms(2) unlock(2)]
    by (intro locked_invI[OF assms(2) unlock(2)]) (auto simp: thread_ok_def split: thread.splits)
next
  case (none_store n tmp)
  then show ?thesis using locked_invD[OF assms(2) none_store(2)] by (simp add: thread_ok_def)
qed (use assms(2) locked_not_plain in \<open>auto simp: locked_inv_def locked_mode_def\<close>)

text \<open>Somebody can always move: the holder of the lock, or anybody when it is free.\<close>

lemma locked_progress:
  assumes "locked_inv l c s" "total work s \<noteq> 0"
  shows "\<exists>s'. any_increment s s'"
proof (cases "owner s l")
  case (Some i)
  then have i: "i < length (threads s)" using assms(1) by (simp add: locked_inv_def)
  then have "thread_ok l s i (threads s ! i)" "stands s i (threads s ! i)"
    using assms(1) by (simp_all add: locked_inv_def stands_def)
  with Some show ?thesis
    by (cases "threads s ! i") (auto simp: thread_ok_def intro: increment_step.intros)
next
  case None
  obtain i where i: "i < length (threads s)" "work (threads s ! i) \<noteq> 0"
    using assms(2) by (auto simp: total_def sum_list_eq_0_iff in_set_conv_nth)
  then have ok: "thread_ok l s i (threads s ! i)" "stands s i (threads s ! i)"
    using assms(1) by (simp_all add: locked_inv_def stands_def)
  have m: "locked_mode (mode s) = Some l" using assms(1) by (simp add: locked_inv_def)
  show ?thesis
  proof (cases "threads s ! i")
    case (Ready k)
    with i(2) obtain n where "threads s ! i = Ready (Suc n)" by (cases k) auto
    with ok m show ?thesis by (auto intro: increment_step.choose)
  next
    case (Want l' n)
    with ok None show ?thesis by (auto simp: thread_ok_def intro: increment_step.lock)
  qed (use ok None in \<open>auto simp: thread_ok_def\<close>)
qed

section \<open>Atomic increments\<close>

definition atomic_inv :: "u64 \<Rightarrow> race \<Rightarrow> bool" where
  "atomic_inv c s \<longleftrightarrow>
     mode s = MODE_ATOMIC \<and> (\<forall>t \<in> set (threads s). \<exists>n. t = Ready n) \<and>
     counter_atomic s + of_nat (total todo s) = c"

lemma atomic_ready: "atomic_inv c s \<Longrightarrow> stands s i t \<Longrightarrow> \<exists>n. t = Ready n"
  by (auto simp: atomic_inv_def stands_def)

lemma atomic_step:
  assumes "increment_step i s s'" "atomic_inv c s"
  shows "atomic_inv c s'"
  using assms(1)
proof (cases rule: increment_step.cases)
  case (atomic_inc n)
  let ?u = "s\<lparr>counter_atomic := counter_atomic s + 1\<rparr>"
  have t: "total todo s' + Suc n = total todo s + n"
    using total_goes[OF atomic_inc(2), of ?u todo "Ready n"] by (simp add: atomic_inc(1))
  then have "total todo s = Suc (total todo s')" by simp
  moreover have "\<forall>t \<in> set (threads s'). \<exists>k. t = Ready k"
    using assms(2) atomic_inc(1)
    by (auto simp: goes_def atomic_inv_def dest!: subsetD[OF set_update_subset_insert])
  ultimately show ?thesis using assms(2) atomic_inc(1) by (auto simp: atomic_inv_def)
qed (use assms(2) atomic_ready in \<open>fastforce simp: atomic_inv_def locked_mode_def\<close>)+

lemma atomic_progress:
  assumes "atomic_inv c s" "total work s \<noteq> 0"
  shows "\<exists>s'. any_increment s s'"
proof -
  obtain i where i: "i < length (threads s)" "work (threads s ! i) \<noteq> 0"
    using assms(2) by (auto simp: total_def sum_list_eq_0_iff in_set_conv_nth)
  moreover have "\<exists>k. threads s ! i = Ready k" using assms(1) i(1) by (auto simp: atomic_inv_def)
  ultimately obtain n where "stands s i (Ready (Suc n))"
    by (metis gr0_conv_Suc mult_0_right neq0_conv stands_def work.simps(1))
  with assms(1) show ?thesis by (auto simp: atomic_inv_def intro: increment_step.atomic_inc)
qed

section \<open>The safe modes\<close>

text \<open>A fresh start: every thread before its first increment, no lock held.\<close>

definition at_start :: "race \<Rightarrow> bool" where
  "at_start s \<longleftrightarrow> owner s = (\<lambda>_. None) \<and> (\<forall>t \<in> set (threads s). \<exists>n. t = Ready n)"

lemma start_inv:
  assumes "at_start s" "mode s \<in> {MODE_SPINLOCK, MODE_MUTEX, MODE_ATOMIC}"
  shows "(\<exists>l. locked_inv l (current_counter_value s + of_nat (total todo s)) s) \<or>
    atomic_inv (current_counter_value s + of_nat (total todo s)) s"
proof (cases "mode s = MODE_ATOMIC")
  case True
  with assms(1) show ?thesis by (simp add: atomic_inv_def at_start_def current_counter_value_def)
next
  case False
  with assms(2) obtain l where l: "locked_mode (mode s) = Some l"
    by (auto simp: locked_mode_def)
  have "thread_ok l s i (threads s ! i)" if "i < length (threads s)" for i
  proof -
    have "threads s ! i \<in> set (threads s)" using that by simp
    then obtain n where "threads s ! i = Ready n" using assms(1) by (auto simp: at_start_def)
    then show ?thesis using assms(1) by (simp add: at_start_def thread_ok_def)
  qed
  with l False assms(1) have "locked_inv l (current_counter_value s + of_nat (total todo s)) s"
    by (simp add: locked_inv_def at_start_def current_counter_value_def)
  then show ?thesis by blast
qed

lemma work_todo: "total work s = 0 \<Longrightarrow> total todo s = 0"
proof -
  have "work t = 0 \<Longrightarrow> todo t = 0" for t by (cases t) auto
  then show "total work s = 0 \<Longrightarrow> total todo s = 0" by (auto simp: total_def sum_list_eq_0_iff)
qed

text \<open>In the safe modes: the value the counter will have when all is done is \<open>c\<close>.\<close>

definition safe_inv :: "u64 \<Rightarrow> race \<Rightarrow> bool" where
  "safe_inv c s \<longleftrightarrow> (\<exists>l. locked_inv l c s) \<or> atomic_inv c s"

interpretation safe: live_system any_increment "safe_inv c" "total work" for c
proof
  show "safe_inv c s \<Longrightarrow> any_increment s s' \<Longrightarrow> safe_inv c s'" for s s'
    unfolding safe_inv_def using locked_step atomic_step by blast
  show "safe_inv c s \<Longrightarrow> any_increment s s' \<Longrightarrow> total work s' < total work s" for s s'
    using increment_work by blast
  show "safe_inv c s \<Longrightarrow> total work s \<noteq> 0 \<Longrightarrow> \<exists>s'. any_increment s s'" for s
    unfolding safe_inv_def using locked_progress atomic_progress by blast
qed

lemma safe_start:
  "at_start s \<Longrightarrow> mode s \<in> {MODE_SPINLOCK, MODE_MUTEX, MODE_ATOMIC} \<Longrightarrow>
   safe_inv (current_counter_value s + of_nat (total todo s)) s"
  using start_inv by (simp add: safe_inv_def)

lemma safe_end: "safe_inv c s \<Longrightarrow> total work s = 0 \<Longrightarrow> current_counter_value s = c"
  using work_todo[of s] locked_not_plain
  by (auto simp: safe_inv_def locked_inv_def atomic_inv_def current_counter_value_def)

lemma safe_run:
  assumes "at_start s" "mode s \<in> {MODE_SPINLOCK, MODE_MUTEX, MODE_ATOMIC}" "any_increment\<^sup>*\<^sup>* s s'"
    and "total work s' = 0"
  shows "current_counter_value s' = current_counter_value s + of_nat (total todo s)"
  by (rule safe_end[OF safe.steps_inv[OF assms(3) safe_start[OF assms(1,2)]] assms(4)])

section \<open>Running a schedule\<close>

text \<open>
  Each thread's next step is determined by the state, so a schedule, the list of the threads
  in the order they step, can be run.
\<close>

definition thread_step :: "nat \<Rightarrow> race \<Rightarrow> race option" where
  "thread_step i s =
     (if length (threads s) \<le> i then None
      else (case threads s ! i of
        Ready n \<Rightarrow>
          (case n of
             0 \<Rightarrow> None
           | Suc k \<Rightarrow>
               if mode s = MODE_NONE then Some (goes i (Plain k (counter_plain s)) s)
               else if mode s = MODE_ATOMIC
               then Some (goes i (Ready k) (s\<lparr>counter_atomic := counter_atomic s + 1\<rparr>))
               else (case locked_mode (mode s) of
                       Some l \<Rightarrow> Some (goes i (Want l k) s)
                     | None \<Rightarrow> Some (goes i (Ready k) s)))
      | Plain n tmp \<Rightarrow> Some (goes i (Ready n) (s\<lparr>counter_plain := tmp + 1\<rparr>))
      | Want l n \<Rightarrow>
          if owner s l = None then Some (goes i (Held l n) (s\<lparr>owner := (owner s)(l := Some i)\<rparr>))
          else None
      | Held l n \<Rightarrow> Some (goes i (Loaded l n (counter_plain s)) s)
      | Loaded l n tmp \<Rightarrow> Some (goes i (Stored l n) (s\<lparr>counter_plain := tmp + 1\<rparr>))
      | Stored l n \<Rightarrow> Some (goes i (Ready n) (s\<lparr>owner := (owner s)(l := None)\<rparr>))
      | Reset_want \<Rightarrow>
          if owner s counter_spinlock = None
          then Some (goes i Reset_held (s\<lparr>owner := (owner s)(counter_spinlock := Some i)\<rparr>))
          else None
      | Reset_held \<Rightarrow> Some (goes i Reset_zeroed (s\<lparr>counter_plain := 0\<rparr>))
      | Reset_zeroed \<Rightarrow>
          Some (goes i Reset_unlocked (s\<lparr>owner := (owner s)(counter_spinlock := None)\<rparr>))
      | Reset_unlocked \<Rightarrow> Some (goes i Reset_count (s\<lparr>counter_atomic := 0\<rparr>))
      | Reset_count \<Rightarrow> Some (goes i (Reset_loaded (reset_count s)) s)
      | Reset_loaded tmp \<Rightarrow> Some (goes i Reset_done (s\<lparr>reset_count := tmp + 1\<rparr>))
      | Reset_done \<Rightarrow> None))"

fun schedule :: "nat list \<Rightarrow> race \<Rightarrow> race option" where
  "schedule [] s = Some s"
| "schedule (i # is) s = (case thread_step i s of None \<Rightarrow> None | Some s' \<Rightarrow> schedule is s')"

lemma thread_step_increment:
  "stands s i (Ready n) \<Longrightarrow> thread_step i s = Some s' \<Longrightarrow> increment_step i s s'"
  by (cases n)
    (auto simp: thread_step_def stands_def locked_mode_def
      intro: increment_step.intros[unfolded stands_def locked_mode_def] split: if_splits)

lemma thread_step_sound:
  assumes "thread_step i s = Some s'"
  shows "increment_step i s s' \<or> reset_step i s s'"
proof (cases "threads s ! i")
  case (Ready n)
  with assms show ?thesis
    using thread_step_increment[of s i n s'] by (auto simp: thread_step_def stands_def split: if_splits)
qed (use assms in \<open>auto simp: thread_step_def split: if_splits
        intro: increment_step.intros[unfolded stands_def] reset_step.intros[unfolded stands_def]\<close>)

lemma schedule_sound: "schedule is s = Some s' \<Longrightarrow> race_step\<^sup>*\<^sup>* s s'"
proof (induction "is" arbitrary: s)
  case Nil
  then show ?case by simp
next
  case (Cons i "is")
  then obtain u where u: "thread_step i s = Some u" "schedule is u = Some s'"
    by (auto split: option.splits)
  from thread_step_sound[OF u(1)] have "race_step s u"
    by (auto intro: increments resets)
  then show ?case using Cons.IH[OF u(2)] by (rule converse_rtranclp_into_rtranclp)
qed

lemma reset_alone:
  assumes "stands s i Reset_want" "owner s counter_spinlock = None"
  shows "schedule [i, i, i, i, i, i] s = Some (goes i Reset_done (reset_counters s))"
proof -
  have "(owner s)(counter_spinlock := None) = owner s" using assms(2) by (rule fun_upd_idem)
  then show ?thesis
    using assms by (simp add: thread_step_def stands_def goes_def reset_counters_def Let_def)
qed

text \<open>Without a reset among the threads a schedule makes increments only.\<close>

definition resets_none :: "race \<Rightarrow> bool" where
  "resets_none s \<longleftrightarrow> (\<forall>t \<in> set (threads s). t \<notin> {Reset_want, Reset_held, Reset_zeroed,
     Reset_unlocked, Reset_count, Reset_done} \<and> t \<notin> range Reset_loaded)"

lemma increment_no_reset: "increment_step i s s' \<Longrightarrow> resets_none s \<Longrightarrow> resets_none s'"
  by (induction rule: increment_step.induct)
    (auto simp: resets_none_def goes_def dest!: set_update_subset_insert[THEN subsetD])

lemma reset_needs_reset: "reset_step i s s' \<Longrightarrow> \<not> resets_none s"
  by (induction rule: reset_step.induct) (auto simp: resets_none_def stands_def dest!: nth_mem)

lemma schedule_increments:
  "schedule is s = Some s' \<Longrightarrow> resets_none s \<Longrightarrow> any_increment\<^sup>*\<^sup>* s s'"
proof (induction "is" arbitrary: s)
  case Nil
  then show ?case by simp
next
  case (Cons i "is")
  from Cons.prems(1) obtain u where u: "thread_step i s = Some u" "schedule is u = Some s'"
    by (auto split: option.splits)
  from thread_step_sound[OF u(1)] reset_needs_reset Cons.prems(2)
  have step: "increment_step i s u" by blast
  with Cons.IH[OF u(2)] increment_no_reset Cons.prems(2) have "any_increment\<^sup>*\<^sup>* u s'" by blast
  with step show ?case by (blast intro: converse_rtranclp_into_rtranclp)
qed

text \<open>Conversely every step is one of a schedule, so the schedules are all the interleavings.\<close>

lemma increment_thread_step: "increment_step i s s' \<Longrightarrow> thread_step i s = Some s'"
  by (induction rule: increment_step.induct)
    (auto simp: stands_def thread_step_def locked_mode_def split: if_splits)

lemma reset_thread_step: "reset_step i s s' \<Longrightarrow> thread_step i s = Some s'"
  by (induction rule: reset_step.induct) (auto simp: stands_def thread_step_def)

lemma thread_step_iff: "thread_step i s = Some s' \<longleftrightarrow> increment_step i s s' \<or> reset_step i s s'"
  using thread_step_sound increment_thread_step reset_thread_step by blast

lemma increments_schedule: "any_increment\<^sup>*\<^sup>* s s' \<Longrightarrow> \<exists>sched. schedule sched s = Some s'"
proof (induction rule: converse_rtranclp_induct)
  case base
  then show ?case by (intro exI[of _ "[]"]) simp
next
  case (step s u)
  then obtain i sched where "thread_step i s = Some u" "schedule sched u = Some s'"
    using increment_thread_step by blast
  then show ?case by (intro exI[of _ "i # sched"]) simp
qed

section \<open>Properties\<close>

text \<open>C6: no update is lost in the three safe modes. With the mode fixed to the spinlock, the
  mutex or the atomic counter, and nobody resetting, any interleaving of the loads, stores and
  lock operations of any number of writers that has come to its end leaves the counter
  advanced by exactly the number of increments.\<close>

theorem no_lost_updates:
  assumes "at_start s" and "mode s \<in> {MODE_SPINLOCK, MODE_MUTEX, MODE_ATOMIC}"
    and "any_increment\<^sup>*\<^sup>* s s'" and "total work s' = 0"
  shows "current_counter_value s' = current_counter_value s + of_nat (total todo s)"
  by (rule safe_run[OF assms])

text \<open>A run of two threads in the atomic mode, for the witnesses.\<close>

definition two_atomic :: race where
  "two_atomic = race_static\<lparr>mode := MODE_ATOMIC, threads := [Ready 1, Ready 1]\<rparr>"

definition two_atomic_end :: race where
  "two_atomic_end = two_atomic\<lparr>counter_atomic := 2, threads := [Ready 0, Ready 0]\<rparr>"

lemma two_atomic_run: "any_increment\<^sup>*\<^sup>* two_atomic two_atomic_end"
proof -
  let ?m = "two_atomic\<lparr>counter_atomic := 1, threads := [Ready 0, Ready 1]\<rparr>"
  have 1: "any_increment two_atomic ?m"
    using atomic_inc[of two_atomic 0 0]
    by (intro exI[of _ 0]) (simp add: stands_def goes_def two_atomic_def race_static_def)
  have 2: "any_increment ?m two_atomic_end"
    using atomic_inc[of ?m 1 0]
    by (intro exI[of _ 1]) (simp add: stands_def goes_def two_atomic_def two_atomic_end_def race_static_def)
  show ?thesis
    using converse_rtranclp_into_rtranclp[where r = any_increment, OF 1]
      r_into_rtranclp[where r = any_increment, OF 2] by blast
qed

theorem no_lost_updates_witness: "current_counter_value two_atomic_end = 0 + of_nat 2"
proof -
  have "at_start two_atomic" "total work two_atomic_end = 0" "total todo two_atomic = 2"
    "current_counter_value two_atomic = 0"
    by (simp_all add: at_start_def two_atomic_def two_atomic_end_def race_static_def total_def
        current_counter_value_def)
  with no_lost_updates[OF _ _ two_atomic_run] show ?thesis
    by (simp add: two_atomic_def)
qed

text \<open>C20: writers finish. In the safe modes no reachable state is stuck before every increment
  is made, whoever is scheduled; no run is longer than five steps for each increment; and from
  wherever a run stands, there is a schedule that brings all writers to their end.\<close>

theorem writers_finish:
  assumes "at_start s" and "mode s \<in> {MODE_SPINLOCK, MODE_MUTEX, MODE_ATOMIC}"
    and "(any_increment ^^ k) s s'"
  shows "k \<le> 5 * total todo s \<and> (total work s' = 0 \<or> (\<exists>s''. any_increment s' s'')) \<and>
    (\<exists>sched s''. schedule sched s' = Some s'' \<and> total work s'' = 0)"
proof -
  have "work t = 5 * todo t" if "t \<in> set (threads s)" for t
    using assms(1) that by (auto simp: at_start_def)
  then have w: "total work s = 5 * total todo s"
    by (simp add: total_def sum_list_const_mult cong: map_cong)
  note i = safe_start[OF assms(1,2)]
  obtain s'' where "any_increment\<^sup>*\<^sup>* s' s''" "total work s'' = 0"
    using safe.run_completes[OF i assms(3)] by blast
  with w safe.run_completes[OF i assms(3)] safe.progress[OF safe.run_inv[OF assms(3) i]]
  show ?thesis using increments_schedule by metis
qed

theorem writers_finish_witness:
  "\<exists>sched s'. schedule sched two_atomic = Some s' \<and> total work s' = 0"
proof -
  have "at_start two_atomic"
    by (simp add: at_start_def two_atomic_def race_static_def)
  with writers_finish[of two_atomic 0 two_atomic] show ?thesis by (simp add: two_atomic_def)
qed

lemma three_runs:
  "schedule [0, 1, 0, 1] (race_static\<lparr>threads := [Ready 1, Ready 1]\<rparr>) =
     Some (race_static\<lparr>threads := [Ready 0, Ready 0], counter_plain := 1\<rparr>)"
  "schedule [0, 0, 0] (race_static\<lparr>mode := MODE_SPINLOCK, threads := [Ready 1, Ready 1]\<rparr>) =
     Some (race_static\<lparr>mode := MODE_SPINLOCK,
       threads := [Loaded counter_spinlock 0 0, Ready 1],
       owner := (\<lambda>_. None)(counter_spinlock := Some 0)\<rparr>)"
  "schedule [1, 1, 1, 1, 1, 0, 0] (race_static\<lparr>mode := MODE_MUTEX,
       threads := [Loaded counter_spinlock 0 0, Ready 1],
       owner := (\<lambda>_. None)(counter_spinlock := Some 0)\<rparr>) =
     Some (race_static\<lparr>mode := MODE_MUTEX, threads := [Ready 0, Ready 0], counter_plain := 1\<rparr>)"
  "schedule [0, 0, 0, 1, 1, 1, 1, 1, 1, 0, 0] (race_static\<lparr>mode := MODE_MUTEX, counter_plain := 5,
       threads := [Ready 1, Reset_want]\<rparr>) =
     Some (race_static\<lparr>mode := MODE_MUTEX, counter_plain := 6, reset_count := 1,
       threads := [Ready 0, Reset_done]\<rparr>)"
  by (simp_all add: thread_step_def race_static_def goes_def locked_mode_def fun_upd_idem fun_eq_iff)

text \<open>C38: lost updates. Without a lock two writers of one increment each can both finish with
  the counter at one, from the initial state. The locked modes are safe only among themselves:
  when the mode is switched from the spinlock to the mutex while writers are at work, the two
  locks exclude nothing and an increment is lost the same way; and a reset, which takes only
  the spinlock, can run to its end inside a mutex writer's increment and be undone by it.\<close>

theorem updates_lost:
  "(\<exists>s. race_step\<^sup>*\<^sup>* race_static s \<and> threads s = [Ready 0, Ready 0] \<and> counter_plain s = 1) \<and>
   (\<exists>s u t. at_start s \<and> mode s = MODE_SPINLOCK \<and> total todo s = 2 \<and> counter_plain s = 0 \<and>
      race_step\<^sup>*\<^sup>* s u \<and> mode u = MODE_SPINLOCK \<and> race_step\<^sup>*\<^sup>* (u\<lparr>mode := MODE_MUTEX\<rparr>) t \<and>
      threads t = [Ready 0, Ready 0] \<and> counter_plain t = 1) \<and>
   (\<exists>s t. threads s = [Ready 1, Reset_want] \<and> mode s = MODE_MUTEX \<and> counter_plain s = 5 \<and>
      race_step\<^sup>*\<^sup>* s t \<and> threads t = [Ready 0, Reset_done] \<and> counter_plain t = 6)"
proof (intro conjI)
  note runs = three_runs[THEN schedule_sound]
  let ?one = "race_static\<lparr>threads := [Ready 1]\<rparr>"
  have "race_step race_static ?one" "race_step ?one (race_static\<lparr>threads := [Ready 1, Ready 1]\<rparr>)"
    using new_write[of race_static 1] new_write[of ?one 1]
    by (simp_all add: race_static_def race_write_def)
  with runs(1) have "race_step\<^sup>*\<^sup>* race_static
      (race_static\<lparr>threads := [Ready 0, Ready 0], counter_plain := 1\<rparr>)"
    by (meson converse_rtranclp_into_rtranclp)
  then show "\<exists>s. race_step\<^sup>*\<^sup>* race_static s \<and> threads s = [Ready 0, Ready 0] \<and> counter_plain s = 1"
    by (intro exI conjI) (assumption, simp_all)
  let ?s = "race_static\<lparr>mode := MODE_SPINLOCK, threads := [Ready 1, Ready 1]\<rparr>"
  let ?u = "race_static\<lparr>mode := MODE_SPINLOCK, threads := [Loaded counter_spinlock 0 0, Ready 1],
       owner := (\<lambda>_. None)(counter_spinlock := Some 0)\<rparr>"
  have "at_start ?s" "total todo ?s = 2" "counter_plain ?s = 0"
    by (simp_all add: at_start_def race_static_def total_def)
  moreover have "race_step\<^sup>*\<^sup>* (?u\<lparr>mode := MODE_MUTEX\<rparr>)
      (race_static\<lparr>mode := MODE_MUTEX, threads := [Ready 0, Ready 0], counter_plain := 1\<rparr>)"
    using runs(3) by (simp add: race_static_def)
  ultimately show "\<exists>s u t. at_start s \<and> mode s = MODE_SPINLOCK \<and> total todo s = 2 \<and> counter_plain s = 0 \<and>
      race_step\<^sup>*\<^sup>* s u \<and> mode u = MODE_SPINLOCK \<and> race_step\<^sup>*\<^sup>* (u\<lparr>mode := MODE_MUTEX\<rparr>) t \<and>
      threads t = [Ready 0, Ready 0] \<and> counter_plain t = 1"
    using runs(2) by (intro exI[of _ ?s] exI[of _ ?u] exI[of _
          "race_static\<lparr>mode := MODE_MUTEX, threads := [Ready 0, Ready 0], counter_plain := 1\<rparr>"]) simp
  show "\<exists>s t. threads s = [Ready 1, Reset_want] \<and> mode s = MODE_MUTEX \<and> counter_plain s = 5 \<and>
      race_step\<^sup>*\<^sup>* s t \<and> threads t = [Ready 0, Reset_done] \<and> counter_plain t = 6"
    using runs(4)
    by (intro exI[of _ "race_static\<lparr>mode := MODE_MUTEX, counter_plain := 5, threads := [Ready 1, Reset_want]\<rparr>"]
        exI[of _ "race_static\<lparr>mode := MODE_MUTEX, counter_plain := 6, reset_count := 1,
          threads := [Ready 0, Reset_done]\<rparr>"]) simp
qed

section \<open>Loading and unloading\<close>

definition race_live :: "race \<Rightarrow> race_obj kworld \<Rightarrow> bool" where
  "race_live s w \<longleftrightarrow> locked w = {} \<and> armed w = {} \<and> held w = {race_miscdev, race_attr_group}"

text \<open>The handlers make no registration of their own; their locks are in the step relation.\<close>

interpretation race_session: module_session "\<lambda>e. (race_static, concurrency_locking_init e)"
    "\<lambda>s s'. (s' :: race, [])" "\<lambda>s. concurrency_locking_exit" race_live
  by unfold_locales
    (auto simp: concurrency_locking_init_def concurrency_locking_exit_def race_live_def quiet_iff
      split: option.splits)

end
