(* ===== verification/One_CPU.thy ===== *)
theory One_CPU
  imports KPrelude
begin

text \<open>
  One processor that runs a task and, on top of it, a timer's softirq. A softirq may start
  between any two calls of the task, unless the task holds a lock that it took with softirqs
  off, and then runs to its end before the task continues. Both are given by the traces of
  kernel calls their code makes, and which locks keep softirqs off is read from those calls. A
  lock that the task takes by \<open>spin_lock\<close> and the softirq takes too can stop the processor for
  good; one that the task takes by \<open>spin_lock_bh\<close> or \<open>spin_lock_irqsave\<close> cannot.
\<close>

section \<open>Steps\<close>

text \<open>The locks that keep softirqs off, after a call.\<close>

fun mask :: "'o kcall \<Rightarrow> 'o set \<Rightarrow> 'o set" where
  "mask (Lock_bh x) m = insert x m"
| "mask (Lock_irq x) m = insert x m"
| "mask (Unlock_bh x) m = m - {x}"
| "mask (Unlock_irq x) m = m - {x}"
| "mask _ m = m"

text \<open>The kernel, the locks that keep softirqs off, and what the task and the softirq have left to do.\<close>

type_synonym 'o cpu = "'o kworld \<times> 'o set \<times> 'o kcall list \<times> 'o kcall list"

inductive cpu_step :: "'o kcall list \<Rightarrow> 'o cpu \<Rightarrow> 'o cpu \<Rightarrow> bool" for irq where
  fire: "cpu_step irq (w, {}, t, []) (w, {}, t, irq)"
| irq_run: "kexec w c = Some w' \<Longrightarrow> cpu_step irq (w, m, t, c # q) (w', mask c m, t, q)"
| task_run: "kexec w c = Some w' \<Longrightarrow> cpu_step irq (w, m, c # t, []) (w', mask c m, t, [])"

inductive_cases cpu_irqE: "cpu_step irq (w, m, t, c # q) s"

text \<open>A state is stuck when it has work left and no step.\<close>

definition stuck :: "'o kcall list \<Rightarrow> 'o cpu \<Rightarrow> bool" where
  "stuck irq s \<longleftrightarrow> (\<forall>s'. \<not> cpu_step irq s s') \<and> snd (snd s) \<noteq> ([], [])"

lemma plain_lock_sticks:
  assumes "c \<in> {Lock x, Lock_bh x, Lock_irq x}"
  shows "\<exists>s. (cpu_step (c # q))\<^sup>*\<^sup>* (quiet, {}, Lock x # t, []) s \<and> stuck (c # q) s"
proof -
  let ?irq = "c # q" and ?w = "quiet\<lparr>locked := {x}\<rparr>"
  have "cpu_step ?irq (quiet, {}, Lock x # t, []) (?w, {}, t, [])"
    using task_run[of quiet "Lock x" ?w ?irq "{}" t] by simp
  moreover have "cpu_step ?irq (?w, {}, t, []) (?w, {}, t, ?irq)" by (rule fire)
  moreover have "stuck ?irq (?w, {}, t, ?irq)"
    using assms by (auto simp: stuck_def elim: cpu_irqE)
  ultimately show ?thesis by (meson converse_rtranclp_into_rtranclp r_into_rtranclp)
qed

section \<open>Tasks whose locks keep softirqs off\<close>

text \<open>Traces without registrations: only a lock can make a call wait.\<close>

fun plain_call :: "'o kcall \<Rightarrow> bool" where
  "plain_call (Acquire x) = False"
| "plain_call (Release x) = False"
| "plain_call _ = True"

lemma plain_exec:
  assumes "plain_call c" "lock_run (locked w) (c # cs) = Some L"
  shows "\<exists>w'. kexec w c = Some w' \<and> lock_run (locked w') cs = Some L"
  using assms by (cases c) (auto split: if_splits)

text \<open>And those that take no lock by \<open>spin_lock\<close> or \<open>mutex_lock\<close>.\<close>

fun masked_call :: "'o kcall \<Rightarrow> bool" where
  "masked_call (Lock x) = False"
| "masked_call (Unlock x) = False"
| "masked_call c = plain_call c"

lemma masked_plain: "masked_call c \<Longrightarrow> plain_call c"
  by (cases c) simp_all

lemma masked_mask: "masked_call c \<Longrightarrow> kexec w c = Some w' \<Longrightarrow> mask c (locked w) = locked w'"
  by (cases c) (auto split: if_splits)

text \<open>The softirq's trace: it leaves neither a lock nor softirqs off.\<close>

definition tidy :: "'o kcall list \<Rightarrow> bool" where
  "tidy q \<longleftrightarrow> list_all plain_call q \<and> lock_balanced q \<and> fold mask q {} = {}"

definition cpu_inv :: "'o cpu \<Rightarrow> bool" where
  "cpu_inv s \<longleftrightarrow> (case s of (w, m, t, q) \<Rightarrow>
     list_all masked_call t \<and> list_all plain_call q \<and>
     (if q = [] then m = locked w \<and> lock_run (locked w) t = Some {}
      else lock_run (locked w) q = Some {} \<and> fold mask q m = {} \<and> lock_run {} t = Some {}))"

lemma cpu_step_inv:
  assumes "cpu_step irq s s'" "cpu_inv s" "tidy irq"
  shows "cpu_inv s'"
  using assms(1,2)
proof cases
  case (fire w t)
  then have "locked w = {}" using assms(2) by (auto simp: cpu_inv_def)
  with fire assms(2,3) show ?thesis by (auto simp: cpu_inv_def tidy_def lock_balanced_def)
next
  case (irq_run w c w' m t q)
  then show ?thesis
    using assms(2) plain_exec[of c w q "{}"] by (auto simp: cpu_inv_def)
next
  case (task_run w c w' m t)
  then show ?thesis
    using assms(2) plain_exec[of c w t "{}"] masked_mask[of c w w']
    by (auto simp: cpu_inv_def dest: masked_plain)
qed

lemma irq_completes:
  "list_all plain_call q \<Longrightarrow> lock_run (locked w) q = Some {} \<Longrightarrow>
   \<exists>w'. (cpu_step irq)\<^sup>*\<^sup>* (w, m, t, q) (w', fold mask q m, t, []) \<and> locked w' = {}"
proof (induction q arbitrary: w m)
  case Nil
  then show ?case by auto
next
  case (Cons c q)
  then obtain w1 where w1: "kexec w c = Some w1" "lock_run (locked w1) q = Some {}"
    using plain_exec[of c w q "{}"] by auto
  from Cons.IH[of w1 "mask c m"] Cons.prems(1) w1(2) obtain w' where
    "(cpu_step irq)\<^sup>*\<^sup>* (w1, mask c m, t, q) (w', fold mask q (mask c m), t, [])" "locked w' = {}" by auto
  then show ?case
    using irq_run[OF w1(1), of irq m t q] by (auto intro: converse_rtranclp_into_rtranclp)
qed

lemma task_completes:
  "list_all masked_call t \<Longrightarrow> lock_run (locked w) t = Some {} \<Longrightarrow>
   \<exists>w'. (cpu_step irq)\<^sup>*\<^sup>* (w, locked w, t, []) (w', {}, [], []) \<and> locked w' = {}"
proof (induction t arbitrary: w)
  case Nil
  then show ?case by auto
next
  case (Cons c t)
  then obtain w1 where w1: "kexec w c = Some w1" "lock_run (locked w1) t = Some {}"
    using plain_exec[of c w t "{}"] by (auto dest: masked_plain)
  from Cons.IH[of w1] Cons.prems(1) w1(2) obtain w' where
    "(cpu_step irq)\<^sup>*\<^sup>* (w1, locked w1, t, []) (w', {}, [], [])" "locked w' = {}" by auto
  moreover have "mask c (locked w) = locked w1" using masked_mask[OF _ w1(1)] Cons.prems(1) by simp
  ultimately show ?case
    using task_run[OF w1(1), of irq "locked w" t] by (auto intro: converse_rtranclp_into_rtranclp)
qed

lemma masked_completes:
  assumes "list_all masked_call task" "lock_balanced task" "tidy irq"
    and "(cpu_step irq)\<^sup>*\<^sup>* (quiet, {}, task, []) s"
  shows "\<exists>w. (cpu_step irq)\<^sup>*\<^sup>* s (w, {}, [], []) \<and> locked w = {}"
proof -
  have "cpu_inv s"
    using assms(4)
  proof induction
    case base
    then show ?case using assms by (simp add: cpu_inv_def lock_balanced_def)
  next
    case (step u v)
    then show ?case using cpu_step_inv assms(3) by blast
  qed
  obtain w1 m t q where s: "s = (w1, m, t, q)" by (cases s) auto
  show ?thesis
  proof (cases "q = []")
    case True
    with \<open>cpu_inv s\<close> s show ?thesis using task_completes[of t w1] by (simp add: cpu_inv_def)
  next
    case False
    with \<open>cpu_inv s\<close> s obtain w2 where w2: "(cpu_step irq)\<^sup>*\<^sup>* s (w2, {}, t, [])" "locked w2 = {}"
      using irq_completes[of q w1 irq m t] by (auto simp: cpu_inv_def)
    have "lock_run (locked w2) t = Some {}" "list_all masked_call t"
      using \<open>cpu_inv s\<close> s False w2(2) by (auto simp: cpu_inv_def)
    with task_completes[of t w2 irq] w2 show ?thesis by (auto intro: rtranclp_trans)
  qed
qed

text \<open>A trace with its plain locks replaced by \<open>spin_lock_bh\<close>.\<close>

fun with_bh :: "'o kcall \<Rightarrow> 'o kcall" where
  "with_bh (Lock x) = Lock_bh x"
| "with_bh (Unlock x) = Unlock_bh x"
| "with_bh c = c"

end
