(* ===== verification/TimersWorkqueues.thy ===== *)
theory TimersWorkqueues
  imports KernelAPI One_CPU
begin

text \<open>
  \<^verbatim>\<open>14_timers_workqueues/timers_workqueues.c\<close>: a timer and a delayed work item that
  count their own beats under one spinlock and rearm themselves, and a file that shows both.
\<close>

section \<open>State\<close>

datatype tw_obj = stats_lock | tw_kobj | tw_attr_group | heartbeat_timer | heartbeat_work

record tw_state =
  timer_ticks :: u64
  timer_last_ctx :: string
  work_ticks :: u64
  work_last_ctx :: string

definition tw_static :: tw_state where
  "tw_static = \<lparr>timer_ticks = 0, timer_last_ctx = [], work_ticks = 0, work_last_ctx = []\<rparr>"

text \<open>What the kernel says of the context a callback runs in.\<close>

record exec_ctx =
  in_interrupt :: bool
  in_softirq :: bool
  in_task :: bool
  preemptible :: bool
  comm :: string
  pid :: int

section \<open>Operations\<close>

definition format_ctx :: "nat \<Rightarrow> exec_ctx \<Rightarrow> string" where
  "format_ctx sz c =
     scnprintf sz (''in_interrupt='' @ fmt_b (in_interrupt c) @ '' in_softirq='' @ fmt_b (in_softirq c)
       @ '' in_task='' @ fmt_b (in_task c) @ '' preemptible='' @ fmt_b (preemptible c)
       @ '' comm='' @ comm c @ '' pid='' @ fmt_d (pid c))"

text \<open>\<open>j\<close> is \<open>jiffies\<close>, \<open>J\<close> is \<open>msecs_to_jiffies\<close>, \<open>ms\<close> the interval parameter read.\<close>

definition heartbeat_timer_fn ::
    "u64 \<Rightarrow> (u32 \<Rightarrow> u64) \<Rightarrow> u32 \<Rightarrow> exec_ctx \<Rightarrow> tw_state \<Rightarrow> tw_state \<times> tw_obj kcall list" where
  "heartbeat_timer_fn j J ms c s =
     (let ctx = format_ctx 128 c
      in (s\<lparr>timer_ticks := timer_ticks s + 1, timer_last_ctx := strscpy ctx 128\<rparr>,
          [Lock stats_lock, Unlock stats_lock, Arm heartbeat_timer (unat (j + J ms))]))"

definition heartbeat_work_fn ::
    "(u32 \<Rightarrow> u64) \<Rightarrow> u32 \<Rightarrow> exec_ctx \<Rightarrow> tw_state \<Rightarrow> tw_state \<times> tw_obj kcall list" where
  "heartbeat_work_fn J ms c s =
     (let ctx = format_ctx 128 c
      in (s\<lparr>work_ticks := work_ticks s + 1, work_last_ctx := strscpy ctx 128\<rparr>,
          [Lock stats_lock, Unlock stats_lock, Arm heartbeat_work (unat (J ms))]))"

definition stats_show :: "tw_state \<Rightarrow> string \<times> tw_obj kcall list" where
  "stats_show s =
     (let t_ctx = strscpy (timer_last_ctx s) 128; w_ctx = strscpy (work_last_ctx s) 128
      in (sysfs_emit (''timer_ticks='' @ fmt_u (timer_ticks s) @ [newline]
            @ ''timer_last_ctx: '' @ t_ctx @ [newline]
            @ ''work_ticks='' @ fmt_u (work_ticks s) @ [newline]
            @ ''work_last_ctx: '' @ w_ctx @ [newline]),
          [Lock stats_lock, Unlock stats_lock]))"

section \<open>Loading and unloading\<close>

record tw_env =
  e_kobj :: bool
  e_group :: "errno option"

definition timers_workqueues_init ::
    "u64 \<Rightarrow> (u32 \<Rightarrow> u64) \<Rightarrow> u32 \<Rightarrow> u32 \<Rightarrow> tw_env \<Rightarrow> tw_obj kcall list \<times> errno option" where
  "timers_workqueues_init j J timer_ms work_ms e =
     (if \<not> e_kobj e then ([], Some ENOMEM)
      else
        (case e_group e of
           Some x \<Rightarrow> ([Acquire tw_kobj, Release tw_kobj], Some x)
         | None \<Rightarrow> ([Acquire tw_kobj, Acquire tw_attr_group,
                    Arm heartbeat_timer (unat (j + J timer_ms)),
                    Arm heartbeat_work (unat (J work_ms))], None)))"

definition timers_workqueues_exit :: "tw_obj kcall list" where
  "timers_workqueues_exit =
     [Cancel heartbeat_timer, Cancel heartbeat_work, Release tw_attr_group, Release tw_kobj]"

section \<open>The module as a machine\<close>

datatype tw_op = Timer u64 u32 exec_ctx | Heartbeat u32 exec_ctx | Show_stats

fun tw_serve :: "(u32 \<Rightarrow> u64) \<Rightarrow> tw_state \<Rightarrow> tw_op \<Rightarrow> tw_state \<times> tw_obj kcall list" where
  "tw_serve J s (Timer j ms c) = heartbeat_timer_fn j J ms c s"
| "tw_serve J s (Heartbeat ms c) = heartbeat_work_fn J ms c s"
| "tw_serve J s Show_stats = (s, snd (stats_show s))"

definition tw_step :: "(u32 \<Rightarrow> u64) \<Rightarrow> tw_state \<Rightarrow> tw_op \<Rightarrow> tw_state" where
  "tw_step J s p = fst (tw_serve J s p)"

definition tw_live :: "tw_state \<Rightarrow> tw_obj kworld \<Rightarrow> bool" where
  "tw_live s w \<longleftrightarrow> locked w = {} \<and> armed w \<subseteq> {heartbeat_timer, heartbeat_work} \<and>
     held w = {tw_kobj, tw_attr_group}"

lemma tw_calls:
  "snd (tw_serve J s p) = [Lock stats_lock, Unlock stats_lock] \<or>
   (\<exists>x d. x \<in> {heartbeat_timer, heartbeat_work} \<and>
      snd (tw_serve J s p) = [Lock stats_lock, Unlock stats_lock, Arm x d])"
  by (cases p) (auto simp: heartbeat_timer_fn_def heartbeat_work_fn_def stats_show_def Let_def)

lemma tw_live_calls: "tw_live s w \<Longrightarrow> \<exists>w'. kruns w (snd (tw_serve J s p)) = Some w' \<and> tw_live s' w'"
  using tw_calls[of J s p] by (elim disjE exE conjE) (auto simp: tw_live_def)

lemma tw_exit_quiet:
  assumes "tw_live s w"
  shows "kruns w timers_workqueues_exit = Some quiet"
proof -
  have "armed w - {heartbeat_timer} - {heartbeat_work} = {}" using assms by (auto simp: tw_live_def)
  then show ?thesis
    using assms by (auto simp: timers_workqueues_exit_def tw_live_def quiet_iff)
qed

interpretation tw_session: module_session
    "\<lambda>(j, tms, wms, e). let (t, r) = timers_workqueues_init j J tms wms e in (tw_static, t, r)"
    "tw_serve J" "\<lambda>s. timers_workqueues_exit" tw_live for J
proof
  fix s w p s' t
  assume "tw_live s w" "tw_serve J s p = (s', t)"
  then show "\<exists>w'. kruns w t = Some w' \<and> tw_live s' w'" using tw_live_calls by (metis snd_conv)
qed (auto simp: timers_workqueues_init_def tw_live_def quiet_iff tw_exit_quiet
      split: if_splits option.splits)

text \<open>The beats counted, the two contexts recorded, each by its own callback only.\<close>

definition tw_inv :: "tw_state \<times> nat \<times> nat \<Rightarrow> bool" where
  "tw_inv x \<longleftrightarrow> (case x of (s, m, n) \<Rightarrow>
     timer_ticks s = of_nat m \<and> work_ticks s = of_nat n \<and>
     length (timer_last_ctx s) < 128 \<and> length (work_last_ctx s) < 128)"

fun tw_count :: "(u32 \<Rightarrow> u64) \<Rightarrow> tw_state \<times> nat \<times> nat \<Rightarrow> tw_op \<Rightarrow> tw_state \<times> nat \<times> nat" where
  "tw_count J (s, m, n) p =
     (tw_step J s p, (case p of Timer j ms c \<Rightarrow> Suc m | _ \<Rightarrow> m),
      (case p of Heartbeat ms c \<Rightarrow> Suc n | _ \<Rightarrow> n))"

interpretation tw: invariant_machine "tw_count J" tw_inv "\<lambda>_. True" for J
proof
  fix x p assume "tw_inv x"
  then show "tw_inv (tw_count J x p)"
    by (cases x; cases p)
      (auto simp: tw_inv_def tw_step_def heartbeat_timer_fn_def heartbeat_work_fn_def strscpy_def Let_def)
qed

section \<open>Properties\<close>

text \<open>C28: the lock the two heartbeats share can stop a processor. The work function and the read of the
  file take \<open>stats_lock\<close> by \<open>spin_lock\<close>, which leaves softirqs on, and the timer callback, a softirq, takes
  the same lock: when the timer fires on the processor that runs the holder, the callback waits for a
  lock whose holder cannot continue, and no step is left. It is the kind of lock that does it: had
  the two taken it by \<open>spin_lock_bh\<close>, then from every state they can reach, the timer firing any number
  of times, they would come to their end.\<close>

theorem heartbeat_deadlock:
  fixes j J tms c s
  defines "timer \<equiv> snd (heartbeat_timer_fn j J tms c s)"
  assumes "task \<in> {snd (heartbeat_work_fn J wms c' s'), snd (stats_show s')}"
    and "(cpu_step timer)\<^sup>*\<^sup>* (quiet, {}, map with_bh task, []) z"
  shows "(\<exists>u. (cpu_step timer)\<^sup>*\<^sup>* (quiet, {}, task, []) u \<and> stuck timer u) \<and>
    (\<exists>w. (cpu_step timer)\<^sup>*\<^sup>* z (w, {}, [], []) \<and> locked w = {})"
proof
  note d = timer_def heartbeat_timer_fn_def heartbeat_work_fn_def stats_show_def Let_def
  show "\<exists>u. (cpu_step timer)\<^sup>*\<^sup>* (quiet, {}, task, []) u \<and> stuck timer u"
    using assms(2) plain_lock_sticks[of "Lock stats_lock" stats_lock] by (auto simp: d)
  have "tidy timer" by (simp add: d tidy_def lock_balanced_def)
  moreover have "list_all masked_call (map with_bh task)" "lock_balanced (map with_bh task)"
    using assms(2) by (auto simp: d lock_balanced_def)
  ultimately show "\<exists>w. (cpu_step timer)\<^sup>*\<^sup>* z (w, {}, [], []) \<and> locked w = {}"
    using assms(3) by (intro masked_completes)
qed

theorem heartbeat_deadlock_witness:
  "let c = \<lparr>in_interrupt = True, in_softirq = True, in_task = False, preemptible = False, comm = ''swapper'', pid = 0\<rparr>;
       timer = snd (heartbeat_timer_fn 0 unsigned 1000 c tw_static)
   in \<exists>u. (cpu_step timer)\<^sup>*\<^sup>* (quiet, {}, snd (stats_show tw_static), []) u \<and> stuck timer u"
proof -
  let ?c = "\<lparr>in_interrupt = True, in_softirq = True, in_task = False, preemptible = False, comm = ''swapper'', pid = 0\<rparr>"
  have "snd (stats_show tw_static) \<in> {snd (heartbeat_work_fn unsigned 1000 ?c tw_static), snd (stats_show tw_static)}"
    by simp
  from heartbeat_deadlock[OF this rtranclp.rtrancl_refl, of 0 1000 ?c tw_static] show ?thesis
    unfolding Let_def by blast
qed

text \<open>The beats are counted and the file shows them whole. After any sequence of timer and
  work callbacks each count is the number of that callback's runs (modulo \<open>2 ^ 64\<close>), and the
  file's text, with both contexts, is never cut off by the page.\<close>

theorem heartbeats_counted:
  "let (s, m, n) = foldl (tw_count J) (tw_static, 0, 0) ps in
     timer_ticks s = of_nat m \<and> work_ticks s = of_nat n \<and>
     fst (stats_show s) =
       ''timer_ticks='' @ fmt_u (timer_ticks s) @ [newline]
       @ ''timer_last_ctx: '' @ timer_last_ctx s @ [newline]
       @ ''work_ticks='' @ fmt_u (work_ticks s) @ [newline]
       @ ''work_last_ctx: '' @ work_last_ctx s @ [newline]"
proof -
  obtain s m n where f: "foldl (tw_count J) (tw_static, 0, 0) ps = (s, m, n)" by (metis prod_cases3)
  have "tw_inv (tw_static, 0, 0)" by (simp add: tw_inv_def tw_static_def)
  from tw.run_inv[OF this, of ps J] f have i: "tw_inv (s, m, n)" by simp
  then have "strscpy (timer_last_ctx s) 128 = timer_last_ctx s"
    "strscpy (work_last_ctx s) 128 = work_last_ctx s"
    by (simp_all add: tw_inv_def strscpy_id)
  then show ?thesis
    using i length_fmt_u64[of "timer_ticks s"] length_fmt_u64[of "work_ticks s"]
    by (simp add: f tw_inv_def stats_show_def Let_def sysfs_emit_def scnprintf_id)
qed

end
