(* ===== verification/ModuleParams.thy ===== *)
theory ModuleParams
  imports KernelAPI Chunked_Read
begin

text \<open>
  \<^verbatim>\<open>04_module_params/module_params.c\<close>: five module parameters, and a device whose text is
  recomputed from them at each read.
\<close>

section \<open>Parameters\<close>

datatype mp_obj = module_params_miscdev

abbreviation MAX_REPEAT :: u32 where "MAX_REPEAT \<equiv> 8"
abbreviation MAX_OUTPUT :: nat where "MAX_OUTPUT \<equiv> 512"

record mp =
  greeting :: string
  repeat_count :: u32
  verbose :: bool
  dbg_level :: s32
  primes :: "s32 list"
  primes_count :: nat

definition mp_static :: mp where
  "mp_static = \<lparr>greeting = ''hello from module_params'', repeat_count = 1, verbose = False,
     dbg_level = 3, primes = [2, 3, 5, 7], primes_count = 0\<rparr>"

text \<open>What the parameter parser of the loader can leave in the array and its count.\<close>

definition mp_loaded :: "mp \<Rightarrow> bool" where
  "mp_loaded s \<longleftrightarrow> length (primes s) = 4 \<and> primes_count s \<le> 4"

text \<open>The two parameters with mode 0644: a write stores the parsed value.\<close>

definition set_repeat_count :: "kstr \<Rightarrow> string \<Rightarrow> mp \<Rightarrow> mp \<times> (errno + nat)" where
  "set_repeat_count K buf s =
     (case kstrtouint K buf 0 of
        Inl x \<Rightarrow> (s, Inl x) | Inr v \<Rightarrow> (s\<lparr>repeat_count := v\<rparr>, Inr (length buf)))"

definition set_verbose :: "kstr \<Rightarrow> string \<Rightarrow> mp \<Rightarrow> mp \<times> (errno + nat)" where
  "set_verbose K buf s =
     (case kstrtobool K buf of
        Inl x \<Rightarrow> (s, Inl x) | Inr v \<Rightarrow> (s\<lparr>verbose := v\<rparr>, Inr (length buf)))"

section \<open>The device\<close>

text \<open>\<open>n\<close> is \<open>reps - i\<close>; the text in \<open>kbuf\<close> is its bytes so far.\<close>

fun greet_loop :: "string \<Rightarrow> nat \<Rightarrow> string \<Rightarrow> string" where
  "greet_loop g 0 kbuf = kbuf"
| "greet_loop g (Suc n) kbuf =
     (if length kbuf < MAX_OUTPUT - 1
      then greet_loop g n (kbuf @ scnprintf (MAX_OUTPUT - length kbuf) (g @ [newline]))
      else kbuf)"

definition clamped :: "mp \<Rightarrow> u32" where
  "clamped s = (if repeat_count s > MAX_REPEAT then MAX_REPEAT else repeat_count s)"

definition diagnostics :: "mp \<Rightarrow> string" where
  "diagnostics s =
     ''-- diagnostics --\<newline>'' @
     ''repeat_count(raw)='' @ fmt_u (repeat_count s) @ '' (clamped='' @ fmt_u (clamped s) @ '')\<newline>'' @
     ''log_level='' @ fmt_d (sint (dbg_level s)) @ [newline] @
     ''primes_count='' @ dec (primes_count s) @ '' primes[0]='' @ fmt_d (sint (primes s ! 0)) @ [newline]"

definition device_text :: "mp \<Rightarrow> string" where
  "device_text s =
     (let kbuf = greet_loop (greeting s) (unat (clamped s)) []
      in if verbose s then kbuf @ scnprintf (MAX_OUTPUT - length kbuf) (diagnostics s) else kbuf)"

text \<open>
  \<open>ctu out\<close> is the number of bytes \<open>copy_to_user\<close> could not copy; the outer \<open>None\<close> is a copy
  from outside \<open>kbuf\<close>.
\<close>

definition module_params_read ::
    "(string \<Rightarrow> nat) \<Rightarrow> nat \<Rightarrow> int \<Rightarrow> mp \<Rightarrow> (int \<times> (errno + string)) option" where
  "module_params_read ctu count ppos s =
     (let kbuf = device_text s; len = length kbuf
      in if ppos \<ge> int len then Some (ppos, Inr [])
         else if ppos < 0 then None
         else
           (let count1 = (if count > len - nat ppos then len - nat ppos else count);
                out = take count1 (drop (nat ppos) kbuf)
            in if ctu out \<noteq> 0 then Some (ppos, Inl EFAULT)
               else Some (ppos + int count1, Inr out)))"

section \<open>Loading and unloading\<close>

text \<open>
  \<open>primes_buf\<close> starts with what the stack holds. \<open>put_text n buf pos s\<close> is the buffer of \<open>n\<close>
  bytes after \<open>scnprintf(buf + pos, n - pos, s)\<close>.
\<close>

definition put_text :: "nat \<Rightarrow> string \<Rightarrow> nat \<Rightarrow> string \<Rightarrow> string" where
  "put_text n buf pos s =
     (let t = scnprintf (n - pos) s in take pos buf @ t @ [NUL] @ drop (pos + length t + 1) buf)"

fun primes_loop :: "s32 list \<Rightarrow> nat \<Rightarrow> nat \<Rightarrow> string \<Rightarrow> nat \<Rightarrow> string" where
  \<comment> \<open>the elements from index \<open>i\<close> on, of \<open>count\<close>; \<open>len\<close> is \<open>primes_len\<close>\<close>
  "primes_loop [] i count buf len = buf"
| "primes_loop (p # ps) i count buf len =
     (let s = fmt_d (sint p) @ (if i + 1 < count then '','' else [])
      in primes_loop ps (i + 1) count (put_text 32 buf len s) (len + length (scnprintf (32 - len) s)))"

text \<open>\<open>%s\<close> of a buffer: \<open>None\<close> when it has no terminator.\<close>

definition print_buf :: "string \<Rightarrow> string option" where
  "print_buf buf = (if NUL \<in> set buf then Some (cstr buf) else None)"

definition module_params_init ::
    "string \<Rightarrow> errno option \<Rightarrow> mp \<Rightarrow> (mp_obj kcall list \<times> string list \<times> errno option) option" where
  "module_params_init stack reg s =
     (let primes_buf = primes_loop (take (primes_count s) (primes s)) 0 (primes_count s) stack 0
      in case print_buf primes_buf of
           None \<Rightarrow> None
         | Some values \<Rightarrow>
             (let ls = [''loaded: greeting=\"'' @ greeting s @ ''\" repeat_count='' @ fmt_u (repeat_count s)
                          @ '' verbose='' @ fmt_b (verbose s) @ '' log_level='' @ fmt_d (sint (dbg_level s)),
                        ''primes: count='' @ dec (primes_count s) @ '' values=['' @ values @ '']'']
              in (case reg of
                    Some x \<Rightarrow> Some ([], ls @ [''misc_register failed: '' @ fmt_d (errno_int x)], Some x)
                  | None \<Rightarrow> Some ([Acquire module_params_miscdev],
                      ls @ [''/dev/module_params_demo ready - try: cat /dev/module_params_demo'',
                            ''live parameters: /sys/module/module_params/parameters/''], None))))"

definition module_params_exit :: "mp_obj kcall list" where
  "module_params_exit = [Release module_params_miscdev]"

section \<open>The text\<close>

lemma greet_loop_eq:
  "length kbuf \<le> 511 \<Longrightarrow>
   greet_loop g n kbuf = take 511 (kbuf @ concat (replicate n (g @ [newline])))"
proof (induction n arbitrary: kbuf)
  case 0
  then show ?case by simp
next
  case (Suc n)
  let ?g = "g @ [newline]"
  show ?case
  proof (cases "length kbuf < 511")
    case False
    with Suc.prems show ?thesis by simp
  next
    case True
    let ?k = "kbuf @ scnprintf (512 - length kbuf) ?g"
    have k: "?k = take 511 (kbuf @ ?g)" using True by (simp add: scnprintf_def)
    then have "length ?k \<le> 511" by simp
    from Suc.IH[OF this] have "greet_loop g n ?k = take 511 (take 511 (kbuf @ ?g) @ concat (replicate n ?g))"
      by (simp only: k)
    then show ?thesis using True by (simp only: take_take_append greet_loop.simps) simp
  qed
qed

text \<open>The reference: so many lines and the diagnostics, cut off after 511 bytes.\<close>

definition device_spec :: "mp \<Rightarrow> string" where
  "device_spec s =
     take 511 (concat (replicate (min (unat (repeat_count s)) 8) (greeting s @ [newline])) @
       (if verbose s then diagnostics s else []))"

lemma unat_clamped: "unat (clamped s) = min (unat (repeat_count s)) 8"
  by (simp add: clamped_def word_less_nat_alt min_def not_less)

lemma device_text_eq: "device_text s = device_spec s"
proof -
  let ?ls = "concat (replicate (min (unat (repeat_count s)) 8) (greeting s @ [newline]))"
  have k: "greet_loop (greeting s) (unat (clamped s)) [] = take 511 ?ls"
    using greet_loop_eq[of "[]" "greeting s"] by (simp add: unat_clamped)
  have "take 511 ?ls @ scnprintf (512 - length (take 511 ?ls)) (diagnostics s) = take 511 (?ls @ diagnostics s)"
    by (cases "length ?ls" "511 :: nat" rule: linorder_le_cases) (simp_all add: scnprintf_def)
  with k show ?thesis by (simp add: device_text_def device_spec_def Let_def)
qed

definition mp_rd :: "mp \<Rightarrow> nat \<Rightarrow> int \<Rightarrow> errno + (string \<times> int)" where
  \<comment> \<open>a read whose copy succeeds\<close>
  "mp_rd s n pos =
     (case module_params_read (\<lambda>_. 0) n pos s of
        None \<Rightarrow> Inl EFAULT
      | Some (pos', Inl x) \<Rightarrow> Inl x
      | Some (pos', Inr out) \<Rightarrow> Inr (out, pos'))"

interpretation mp_reader: chunked_reader mp_rd device_text "\<lambda>_. True"
proof
  fix s n and pos :: int
  assume "0 \<le> pos"
  then show "mp_rd s n pos = Inr (take n (drop (nat pos) (device_text s)),
      pos + int (length (take n (drop (nat pos) (device_text s)))))"
    by (cases "pos \<ge> int (length (device_text s))") (auto simp: mp_rd_def module_params_read_def Let_def)
qed

section \<open>The log of the array\<close>

fun primes_text :: "s32 list \<Rightarrow> nat \<Rightarrow> nat \<Rightarrow> string" where
  "primes_text [] i count = []"
| "primes_text (p # ps) i count =
     fmt_d (sint p) @ (if i + 1 < count then '','' else []) @ primes_text ps (i + 1) count"

lemma NUL_notin_fmt_d: "NUL \<notin> set (fmt_d i)"
  by (auto simp: fmt_d_def)

lemma put_text_props:
  assumes "length buf = 32" "len \<le> 31" "t = take (31 - len) s"
  shows "length (put_text 32 buf len s) = 32" "len + length t \<le> 31"
    "take (len + length t) (put_text 32 buf len s) = take len buf @ t"
    "put_text 32 buf len s ! (len + length t) = NUL"
proof -
  have t: "scnprintf (32 - len) s = t" using assms(2,3) by (simp add: scnprintf_def)
  have l: "length t \<le> 31 - len" using assms(3) by simp
  then show "len + length t \<le> 31" using assms(2) by linarith
  then show "length (put_text 32 buf len s) = 32"
    using assms(1) by (simp add: put_text_def t Let_def min_absorb2)
  show "take (len + length t) (put_text 32 buf len s) = take len buf @ t"
    using assms(1,2) by (simp add: put_text_def t Let_def min_absorb2)
  show "put_text 32 buf len s ! (len + length t) = NUL"
    using assms(1,2) by (simp add: put_text_def t Let_def min_absorb2 nth_append)
qed

lemma primes_loop_text:
  assumes "length buf = 32" "len \<le> 31" "NUL \<notin> set (take len buf)" "ps = [] \<Longrightarrow> buf ! len = NUL"
  shows "print_buf (primes_loop ps i count buf len) = Some (take 31 (take len buf @ primes_text ps i count))"
  using assms
proof (induction ps arbitrary: i buf len)
  case Nil
  then have "len < length buf" by simp
  note b = id_take_nth_drop[OF this, unfolded Nil.prems(4)[OF refl]]
  have "cstr (take len buf @ NUL # drop (Suc len) buf) = take len buf"
    using Nil.prems(3) by (auto simp: cstr_def takeWhile_tail)
  then have "cstr buf = take len buf" by (simp only: b[symmetric])
  moreover have "NUL \<in> set buf" using Nil.prems(4) \<open>len < length buf\<close> by (metis nth_mem)
  ultimately show ?case using Nil.prems(1,2) by (simp add: print_buf_def)
next
  case (Cons p ps)
  define s where "s = fmt_d (sint p) @ (if i + 1 < count then '','' else [])"
  define t where "t = take (31 - len) s"
  let ?b = "put_text 32 buf len s"
  note P = put_text_props[OF Cons.prems(1,2) t_def]
  have sc: "scnprintf (32 - len) s = t" using Cons.prems(2) by (simp add: scnprintf_def t_def)
  have "NUL \<notin> set s" using NUL_notin_fmt_d by (auto simp: s_def)
  then have nul: "NUL \<notin> set (take (len + length t) ?b)"
    using Cons.prems(3) unfolding P(3) by (auto simp: t_def dest: in_set_takeD)
  have "print_buf (primes_loop (p # ps) i count buf len) =
      print_buf (primes_loop ps (i + 1) count ?b (len + length t))"
    by (simp only: primes_loop.simps Let_def s_def[symmetric] sc)
  also have "\<dots> = Some (take 31 ((take len buf @ t) @ primes_text ps (i + 1) count))"
    using Cons.IH[OF P(1,2) nul] P(3,4) by simp
  also have "take len buf @ t = take 31 (take len buf @ s)"
    using Cons.prems(1,2) by (simp add: t_def min_absorb2)
  finally show ?case by (simp only: take_take_append) (simp add: s_def)
qed

text \<open>
  The module's life. The handlers take no lock and hold nothing, so the calls are those of
  loading and unloading; a load that reads past \<open>primes_buf\<close> is \<open>None\<close>.
\<close>

lemma mp_session_clean:
  "case module_params_init stack reg s of
     None \<Rightarrow> \<not> (0 < primes_count s \<and> primes s \<noteq> [] \<and> length stack = 32)
   | Some (t, ls, Some x) \<Rightarrow> kruns quiet t = Some quiet
   | Some (t, ls, None) \<Rightarrow> kruns quiet (t @ module_params_exit) = Some quiet"
proof -
  have "print_buf (primes_loop (take (primes_count s) (primes s)) 0 (primes_count s) stack 0) \<noteq> None"
    if "0 < primes_count s" "primes s \<noteq> []" "length stack = 32"
    using primes_loop_text[of stack 0 "take (primes_count s) (primes s)" 0 "primes_count s"] that by auto
  then show ?thesis
    by (auto simp: module_params_init_def module_params_exit_def Let_def quiet_def split: option.split)
qed

section \<open>Properties\<close>

text \<open>C23: the text. The formatting loop and the diagnostics compute the reference text:
  \<open>min repeat_count 8\<close> greeting lines and the diagnostics, cut off after 511 bytes; reading the device in pieces of
  any positive size gets exactly that; and with a greeting of up to 46 characters nothing is
  cut off, whatever the values of the numbers.\<close>

theorem device_serves_spec:
  assumes "0 < n" "511 < tries"
  shows "cat (mp_rd s) n tries 0 = Some (Inr (device_spec s)) \<and>
    (if length (greeting s) \<le> 46 \<and> primes_count s \<le> 4
     then device_spec s = concat (replicate (min (unat (repeat_count s)) 8) (greeting s @ [newline])) @
       (if verbose s then diagnostics s else [])
     else True)"
proof -
  let ?ls = "concat (replicate (min (unat (repeat_count s)) 8) (greeting s @ [newline]))"
  have "length (device_text s) \<le> 511" by (simp add: device_text_eq device_spec_def)
  then have "cat (mp_rd s) n tries 0 = Some (Inr (device_spec s))"
    using mp_reader.cat_all[of n s tries] assms by (simp add: device_text_eq)
  moreover have "length (?ls @ (if verbose s then diagnostics s else [])) \<le> 511"
    if g: "length (greeting s) \<le> 46" "primes_count s \<le> 4"
  proof -
    have "length ?ls = min (unat (repeat_count s)) 8 * (length (greeting s) + 1)"
      by (simp add: length_concat sum_list_replicate)
    also have "\<dots> \<le> 8 * 47" using g(1) by (intro mult_le_mono) simp_all
    finally have ls: "length ?ls \<le> 376" by simp
    have "length (dec (primes_count s)) \<le> 1" using length_dec[of "primes_count s" 1] g(2) by simp
    then have "length (diagnostics s) \<le> 134"
      using length_fmt_u32[of "repeat_count s"] length_fmt_u32[of "clamped s"]
        length_fmt_d[of "sint (dbg_level s)"] length_fmt_d[of "sint (primes s ! 0)"]
      by (simp add: diagnostics_def)
    with ls show ?thesis by (simp del: length_concat)
  qed
  then have "device_spec s = ?ls @ (if verbose s then diagnostics s else [])"
    if "length (greeting s) \<le> 46 \<and> primes_count s \<le> 4"
    using that unfolding device_spec_def by (intro take_all) blast
  ultimately show ?thesis by (simp only: if_split) blast
qed

theorem device_serves_spec_witness:
  "cat (mp_rd (mp_static\<lparr>repeat_count := 999999\<rparr>)) 32 512 0 =
     Some (Inr (concat (replicate 8 ''hello from module_params\<newline>'')))"
proof -
  let ?s = "mp_static\<lparr>repeat_count := 999999\<rparr>"
  have "(0 :: nat) < 32" "(511 :: nat) < 512" by simp_all
  from device_serves_spec[OF this, of ?s] have
    "cat (mp_rd ?s) 32 512 0 = Some (Inr (device_spec ?s))"
    "device_spec ?s = concat (replicate (min (unat (repeat_count ?s)) 8) (greeting ?s @ [newline])) @
       (if verbose ?s then diagnostics ?s else [])"
    by (simp_all add: mp_static_def)
  then show ?thesis by (simp add: mp_static_def)
qed

text \<open>The parameters are live. A write of a number to \<open>repeat_count\<close> (with the newline a shell
  adds) changes the text that the next read serves to that many lines, at most eight, and
  nothing else; a write that does not parse changes nothing.\<close>

theorem repeat_count_live:
  assumes "kstr_documented K" "n < 2 ^ 32" "\<not> verbose s" "length (greeting s) \<le> 46"
  shows "let (s', r) = set_repeat_count K (dec n @ [newline]) s
    in r = Inr (length (dec n) + 1) \<and>
       device_text s' = concat (replicate (min n 8) (greeting s @ [newline])) \<and>
       (case kstrtouint K b 0 of Inl x \<Rightarrow> set_repeat_count K b s = (s, Inl x) | Inr v \<Rightarrow> True)"
proof -
  have "length (concat (replicate (min n 8) (greeting s @ [newline]))) \<le> 8 * 47"
    unfolding length_concat sum_list_replicate map_replicate using assms(4) by (intro mult_le_mono) simp_all
  moreover have "unat (of_nat n :: u32) = n" using assms(2) by (simp add: unat_of_nat)
  ultimately show ?thesis
    using kstrtouintD(2)[OF assms(1,2)] assms(3)
    by (auto simp: set_repeat_count_def device_text_eq device_spec_def Let_def split: sum.split)
qed

theorem repeat_count_live_witness:
  "let (s', r) = set_repeat_count ref_kstr (dec 3 @ [newline]) mp_static
   in device_text s' = concat (replicate 3 ''hello from module_params\<newline>'')"
  using repeat_count_live[OF ref_kstr_documented, of 3 mp_static "[]"]
  by (simp add: mp_static_def Let_def prod.case_eq_if)

text \<open>C39: the log of the array. When the loader has set 1 to 4 primes, the init function logs them
  separated by commas, cut off after the 31 characters its buffer holds. When \<open>primes=\<close> is not given it has
  formatted nothing: it logs what the stack held, and reads on past the buffer when that has no terminator.\<close>

theorem primes_logged:
  assumes "length stack = 32" "mp_loaded s"
  shows "(if 0 < primes_count s then
       \<exists>cs ls r. module_params_init stack reg s = Some (cs, ls, r) \<and>
         ls ! 1 = ''primes: count='' @ dec (primes_count s) @ '' values=['' @
           take 31 (primes_text (take (primes_count s) (primes s)) 0 (primes_count s)) @ '']''
     else if NUL \<in> set stack then
       \<exists>cs ls r. module_params_init stack reg s = Some (cs, ls, r) \<and>
         ls ! 1 = ''primes: count=0 values=['' @ cstr stack @ '']''
     else module_params_init stack reg s = None)"
proof (cases "0 < primes_count s")
  case True
  then have "take (primes_count s) (primes s) \<noteq> []" using assms(2) by (auto simp: mp_loaded_def)
  with primes_loop_text[of stack 0 "take (primes_count s) (primes s)" 0 "primes_count s"] assms(1)
  have "print_buf (primes_loop (take (primes_count s) (primes s)) 0 (primes_count s) stack 0) =
      Some (take 31 (primes_text (take (primes_count s) (primes s)) 0 (primes_count s)))" by simp
  with True show ?thesis by (cases reg) (simp_all add: module_params_init_def Let_def)
next
  case False
  moreover have "dec 0 = ''0''" by (simp add: print_eval)
  ultimately show ?thesis by (cases reg) (simp_all add: module_params_init_def print_buf_def Let_def)
qed

theorem primes_logged_witness:
  "module_params_init (replicate 32 (CHR ''x'')) None mp_static = None \<and>
   (\<exists>cs ls r. module_params_init (replicate 32 (CHR ''x'')) None (mp_static\<lparr>primes_count := 2\<rparr>) = Some (cs, ls, r) \<and>
      ls ! 1 = ''primes: count=2 values=[2,3]'')"
proof -
  have s: "length (replicate 32 (CHR ''x'')) = 32" by simp
  have l: "mp_loaded mp_static" "mp_loaded (mp_static\<lparr>primes_count := 2\<rparr>)"
    by (simp_all add: mp_loaded_def mp_static_def)
  show ?thesis
    using primes_logged[OF s l(1), of None] primes_logged[OF s l(2), of None]
    by (simp add: mp_static_def print_eval)
qed

end
