(* ===== verification/Descriptors.thy ===== *)
theory Descriptors
  imports KernelAPI
begin

text \<open>
  \<open>open(2)\<close>, \<open>dup(2)\<close> and \<open>close(2)\<close> on a character device, as they are documented: a
  descriptor refers to an open file description (a \<open>struct file\<close>); a new one is the lowest
  that is free; \<open>dup\<close> makes a second descriptor of the same description; the close of its
  last descriptor releases the description. The driver's \<open>open\<close> and \<open>release\<close> callbacks are
  arguments; the locale has what they have to keep, and what then holds of every process.
\<close>

section \<open>Files and descriptors\<close>

text \<open>The part of \<open>struct file\<close> and its inode that the drivers look at.\<close>

record struct_file =
  imajor :: u32
  iminor :: u32
  f_pos :: int
  f_mode :: u32
  f_flags :: u32
  private_data :: u64   \<comment> \<open>0 is \<open>NULL\<close>\<close>

definition fresh_file :: "struct_file \<Rightarrow> struct_file" where
  "fresh_file f = f\<lparr>f_pos := 0, private_data := 0\<rparr>"

datatype fd_slot = Free | Elsewhere | Descr nat

text \<open>
  Descriptions are numbered in the order of the opens that succeeded; one that has been
  released is \<open>None\<close>. The calls and the log are those of the driver.
\<close>

record ('d, 'o) world =
  drv :: 'd
  fdt :: "fd_slot list"
  descrs :: "struct_file option list"
  calls :: "'o kcall list"
  klog :: "string list"

type_synonym ('e, 'd, 'o) open_fn =
  "'e \<Rightarrow> struct_file \<Rightarrow> 'd \<Rightarrow> 'd \<times> struct_file \<times> 'o kcall list \<times> string list \<times> errno option"

text \<open>A release that is \<open>None\<close> has touched memory that is not allocated.\<close>

type_synonym ('e, 'd, 'o) release_fn =
  "'e \<Rightarrow> struct_file \<Rightarrow> 'd \<Rightarrow> ('d \<times> struct_file \<times> 'o kcall list \<times> string list) option"

fun free_fd :: "fd_slot list \<Rightarrow> nat option" where
  "free_fd [] = None"
| "free_fd (x # xs) = (if x = Free then Some 0 else map_option Suc (free_fd xs))"

abbreviation EMFILE :: errno where "EMFILE \<equiv> Passed (- 24)"
abbreviation EBADF :: errno where "EBADF \<equiv> Passed (- 9)"

definition sys_open ::
    "('e, 'd, 'o) open_fn \<Rightarrow> 'e \<Rightarrow> struct_file \<Rightarrow> ('d, 'o) world \<Rightarrow> ('d, 'o) world \<times> (errno + nat)" where
  "sys_open opn e f w =
     (case free_fd (fdt w) of
        None \<Rightarrow> (w, Inl EMFILE)
      | Some fd \<Rightarrow>
          (let (s, f1, cs, ls, r) = opn e (fresh_file f) (drv w)
           in (case r of
                 Some x \<Rightarrow> (w\<lparr>drv := s, calls := calls w @ cs, klog := klog w @ ls\<rparr>, Inl x)
               | None \<Rightarrow> (w\<lparr>drv := s, fdt := (fdt w)[fd := Descr (length (descrs w))],
                           descrs := descrs w @ [Some f1], calls := calls w @ cs,
                           klog := klog w @ ls\<rparr>, Inr fd))))"

definition descr_of :: "fd_slot list \<Rightarrow> nat \<Rightarrow> nat option" where
  "descr_of fds fd =
     (if fd < length fds then (case fds ! fd of Descr i \<Rightarrow> Some i | _ \<Rightarrow> None) else None)"

definition sys_dup :: "nat \<Rightarrow> ('d, 'o) world \<Rightarrow> ('d, 'o) world \<times> (errno + nat)" where
  "sys_dup fd w =
     (case descr_of (fdt w) fd of
        None \<Rightarrow> (w, Inl EBADF)
      | Some i \<Rightarrow>
          (case free_fd (fdt w) of
             None \<Rightarrow> (w, Inl EMFILE)
           | Some fd' \<Rightarrow> (w\<lparr>fdt := (fdt w)[fd' := Descr i]\<rparr>, Inr fd')))"

definition sys_close ::
    "('e, 'd, 'o) release_fn \<Rightarrow> 'e \<Rightarrow> nat \<Rightarrow> ('d, 'o) world \<Rightarrow> (('d, 'o) world \<times> errno option) option" where
  "sys_close rel e fd w =
     (case descr_of (fdt w) fd of
        None \<Rightarrow> Some (w, Some EBADF)
      | Some i \<Rightarrow>
          (let w1 = w\<lparr>fdt := (fdt w)[fd := Free]\<rparr>
           in if Descr i \<in> set (fdt w1) then Some (w1, None)
              else
                (case descrs w1 ! i of
                   None \<Rightarrow> None
                 | Some f \<Rightarrow>
                     map_option
                       (\<lambda>(s, f1, cs, ls).
                         (w1\<lparr>drv := s, descrs := (descrs w1)[i := None], calls := calls w1 @ cs,
                             klog := klog w1 @ ls\<rparr>, None))
                       (rel e f (drv w1)))))"

datatype 'e fd_op = Open 'e struct_file | Dup nat | Close 'e nat

fun fd_do ::
    "('e, 'd, 'o) open_fn \<Rightarrow> ('e, 'd, 'o) release_fn \<Rightarrow> ('d, 'o) world \<Rightarrow> 'e fd_op \<Rightarrow> ('d, 'o) world option" where
  "fd_do opn rel w (Open e f) = Some (fst (sys_open opn e f w))"
| "fd_do opn rel w (Dup fd) = Some (fst (sys_dup fd w))"
| "fd_do opn rel w (Close e fd) = map_option fst (sys_close rel e fd w)"

fun fd_runs ::
    "('e, 'd, 'o) open_fn \<Rightarrow> ('e, 'd, 'o) release_fn \<Rightarrow> ('d, 'o) world \<Rightarrow> 'e fd_op list \<Rightarrow> ('d, 'o) world option" where
  "fd_runs opn rel w [] = Some w"
| "fd_runs opn rel w (p # ps) =
     (case fd_do opn rel w p of None \<Rightarrow> None | Some w1 \<Rightarrow> fd_runs opn rel w1 ps)"

definition start_world :: "'d \<Rightarrow> 'o kcall list \<Rightarrow> fd_slot list \<Rightarrow> ('d, 'o) world" where
  "start_world s cs fds = \<lparr>drv = s, fdt = fds, descrs = [], calls = cs, klog = []\<rparr>"

definition no_descr :: "fd_slot list \<Rightarrow> bool" where
  "no_descr fds \<longleftrightarrow> (\<forall>x \<in> set fds. case x of Descr i \<Rightarrow> False | _ \<Rightarrow> True)"

lemma no_descr_iff: "no_descr fds \<longleftrightarrow> (\<forall>i. Descr i \<notin> set fds)"
  unfolding no_descr_def by (auto split: fd_slot.splits)

section \<open>The descriptor table\<close>

text \<open>The descriptors name exactly the open descriptions.\<close>

definition fds_inv :: "fd_slot list \<Rightarrow> struct_file option list \<Rightarrow> bool" where
  "fds_inv fds ds \<longleftrightarrow> (\<forall>i. Descr i \<in> set fds \<longleftrightarrow> i < length ds \<and> ds ! i \<noteq> None)"

lemma fds_inv_iff: "fds_inv fds ds \<Longrightarrow> Descr i \<in> set fds \<longleftrightarrow> i < length ds \<and> ds ! i \<noteq> None"
  by (simp add: fds_inv_def)

lemma free_fd_Some: "free_fd fds = Some fd \<Longrightarrow> fd < length fds \<and> fds ! fd = Free"
  by (induction fds arbitrary: fd) (auto split: if_splits)

lemma descr_of_Some: "descr_of fds fd = Some i \<Longrightarrow> fd < length fds \<and> fds ! fd = Descr i"
  by (auto simp: descr_of_def split: if_splits fd_slot.splits)

lemma set_update_free:
  "fd < length fds \<Longrightarrow> fds ! fd = Free \<Longrightarrow> Descr i \<in> set (fds[fd := x]) \<longleftrightarrow> Descr i \<in> set fds \<or> x = Descr i"
  by (auto simp: in_set_conv_nth nth_list_update split: if_splits) (metis fd_slot.distinct(3) nth_list_update_neq)+

lemma set_update_close:
  assumes "fd < length fds" "fds ! fd = Descr i" "j \<noteq> i"
  shows "Descr j \<in> set (fds[fd := Free]) \<longleftrightarrow> Descr j \<in> set fds"
proof
  assume "Descr j \<in> set (fds[fd := Free])"
  then show "Descr j \<in> set fds" using set_update_subset_insert[of fds fd Free] by auto
next
  assume "Descr j \<in> set fds"
  then obtain k where "k < length fds" "fds ! k = Descr j" by (auto simp: in_set_conv_nth)
  moreover from this assms have "k \<noteq> fd" by auto
  ultimately have "k < length (fds[fd := Free])" "fds[fd := Free] ! k = Descr j" by simp_all
  then show "Descr j \<in> set (fds[fd := Free])" by (metis nth_mem)
qed

lemma fds_inv_open:
  "fds_inv fds ds \<Longrightarrow> free_fd fds = Some fd \<Longrightarrow>
   fds_inv (fds[fd := Descr (length ds)]) (ds @ [Some f])"
  using free_fd_Some[of fds fd] by (auto simp: fds_inv_def set_update_free nth_append less_Suc_eq)

lemma fds_inv_dup:
  assumes "fds_inv fds ds" "free_fd fds = Some fd'" "descr_of fds fd = Some i"
  shows "fds_inv (fds[fd' := Descr i]) ds"
proof -
  have "Descr i \<in> set fds" using descr_of_Some[OF assms(3)] by (metis nth_mem)
  then have "Descr j \<in> set (fds[fd' := Descr i]) \<longleftrightarrow> Descr j \<in> set fds" for j
    using free_fd_Some[OF assms(2)] by (auto simp: set_update_free)
  with assms(1) show ?thesis by (simp add: fds_inv_def)
qed

lemma fds_inv_close:
  assumes "fds_inv fds ds" "descr_of fds fd = Some i"
  shows "fds_inv (fds[fd := Free]) (if Descr i \<in> set (fds[fd := Free]) then ds else ds[i := None])"
  unfolding fds_inv_def
proof
  fix j
  note c = set_update_close[of fd fds i j]
  note ij = fds_inv_iff[OF assms(1), of j]
  have m: "Descr i \<in> set fds" using descr_of_Some[OF assms(2)] by (metis nth_mem)
  let ?ds = "if Descr i \<in> set (fds[fd := Free]) then ds else ds[i := None]"
  show "Descr j \<in> set (fds[fd := Free]) \<longleftrightarrow> j < length ?ds \<and> ?ds ! j \<noteq> None"
  proof (cases "j = i")
    case True
    then show ?thesis using ij m by auto
  next
    case False
    then show ?thesis using c descr_of_Some[OF assms(2)] ij by (auto simp del: not_None_eq)
  qed
qed

section \<open>Drivers\<close>

text \<open>
  What a driver has to keep of its state, the open descriptions and the calls it has made:
  across an \<open>open\<close> of a fresh file that succeeds, one that fails, and a \<open>release\<close> of an open
  description, which must not fault.
\<close>

locale char_device =
  fixes opn :: "('e, 'd, 'o) open_fn"
    and rel :: "('e, 'd, 'o) release_fn"
    and drv_inv :: "'d \<Rightarrow> struct_file option list \<Rightarrow> 'o kcall list \<Rightarrow> bool"
    and env_ok :: "'e \<Rightarrow> bool"
  assumes open_ok: "drv_inv s ds cs \<Longrightarrow> env_ok e \<Longrightarrow>
      opn e (fresh_file f) s = (s', f', cs', ls', None) \<Longrightarrow> drv_inv s' (ds @ [Some f']) (cs @ cs')"
    and open_fail: "drv_inv s ds cs \<Longrightarrow> env_ok e \<Longrightarrow>
      opn e (fresh_file f) s = (s', f', cs', ls', Some x) \<Longrightarrow> drv_inv s' ds (cs @ cs')"
    and release_ok: "drv_inv s ds cs \<Longrightarrow> i < length ds \<Longrightarrow> ds ! i = Some f \<Longrightarrow>
      \<exists>s' f' cs' ls'. rel e f s = Some (s', f', cs', ls') \<and> drv_inv s' (ds[i := None]) (cs @ cs')"
begin

definition dev_inv :: "('d, 'o) world \<Rightarrow> bool" where
  "dev_inv w \<longleftrightarrow> fds_inv (fdt w) (descrs w) \<and> drv_inv (drv w) (descrs w) (calls w)"

fun op_ok :: "'e fd_op \<Rightarrow> bool" where
  "op_ok (Open e f) = env_ok e"
| "op_ok _ = True"

lemma inv_start: "no_descr fds \<Longrightarrow> drv_inv s [] cs \<Longrightarrow> dev_inv (start_world s cs fds)"
  by (simp add: dev_inv_def start_world_def fds_inv_def no_descr_iff)

lemma inv_open:
  assumes "dev_inv w" "env_ok e"
  shows "dev_inv (fst (sys_open opn e f w))"
proof (cases "free_fd (fdt w)")
  case None
  then show ?thesis using assms(1) by (simp add: sys_open_def)
next
  case (Some fd)
  obtain s' f' cs' ls' r where o: "opn e (fresh_file f) (drv w) = (s', f', cs', ls', r)"
    by (metis prod_cases5)
  have i: "fds_inv (fdt w) (descrs w)" "drv_inv (drv w) (descrs w) (calls w)"
    using assms(1) by (simp_all add: dev_inv_def)
  show ?thesis
  proof (cases r)
    case None
    then show ?thesis
      using Some o open_ok[OF i(2) assms(2), of f] fds_inv_open[OF i(1) Some]
      by (simp add: sys_open_def dev_inv_def)
  next
    case (Some x)
    then show ?thesis
      using \<open>free_fd (fdt w) = Some fd\<close> o open_fail[OF i(2) assms(2), of f] i(1)
      by (simp add: sys_open_def dev_inv_def)
  qed
qed

lemma inv_dup: "dev_inv w \<Longrightarrow> dev_inv (fst (sys_dup fd w))"
  by (auto simp: sys_dup_def dev_inv_def fds_inv_dup split: option.split)

lemma inv_close:
  assumes "dev_inv w"
  shows "\<exists>w' r. sys_close rel e fd w = Some (w', r) \<and> dev_inv w'"
proof (cases "descr_of (fdt w) fd")
  case None
  then show ?thesis using assms by (simp add: sys_close_def)
next
  case (Some i)
  have dev_inv: "fds_inv (fdt w) (descrs w)" "drv_inv (drv w) (descrs w) (calls w)"
    using assms by (simp_all add: dev_inv_def)
  note fds = fds_inv_close[OF dev_inv(1) Some]
  show ?thesis
  proof (cases "Descr i \<in> set ((fdt w)[fd := Free])")
    case True
    with fds Some dev_inv(2) show ?thesis by (simp add: sys_close_def dev_inv_def)
  next
    case False
    have "Descr i \<in> set (fdt w)" using descr_of_Some[OF Some] by (metis nth_mem)
    then obtain f where f: "i < length (descrs w)" "descrs w ! i = Some f"
      using fds_inv_iff[OF dev_inv(1)] by blast
    from release_ok[OF dev_inv(2) f, of e] obtain s' f' cs' ls'
      where r: "rel e f (drv w) = Some (s', f', cs', ls')"
        "drv_inv s' ((descrs w)[i := None]) (calls w @ cs')" by blast
    let ?w = "w\<lparr>fdt := (fdt w)[fd := Free], drv := s', descrs := (descrs w)[i := None],
        calls := calls w @ cs', klog := klog w @ ls'\<rparr>"
    have "sys_close rel e fd w = Some (?w, None)"
      using r(1) False Some f by (simp add: sys_close_def)
    moreover have "dev_inv ?w" using fds False r(2) by (simp add: dev_inv_def)
    ultimately show ?thesis by blast
  qed
qed

lemma do_inv: "dev_inv w \<Longrightarrow> op_ok p \<Longrightarrow> \<exists>w'. fd_do opn rel w p = Some w' \<and> dev_inv w'"
proof (cases p)
  case (Close e fd)
  assume "dev_inv w"
  then obtain w' r where "sys_close rel e fd w = Some (w', r)" "dev_inv w'" using inv_close by blast
  with Close show ?thesis by simp
qed (simp_all add: inv_open inv_dup)

lemma runs_inv:
  "dev_inv w \<Longrightarrow> \<forall>p \<in> set ps. op_ok p \<Longrightarrow> \<exists>w'. fd_runs opn rel w ps = Some w' \<and> dev_inv w'"
proof (induction ps arbitrary: w)
  case Nil
  then show ?case by simp
next
  case (Cons p ps)
  from Cons.prems do_inv[of w p] obtain w1 where "fd_do opn rel w p = Some w1" "dev_inv w1" by auto
  with Cons show ?case by simp
qed

lemma closed_all_None:
  assumes "dev_inv w" "no_descr (fdt w)"
  shows "set (descrs w) \<subseteq> {None}"
proof -
  have "descrs w ! j = None" if "j < length (descrs w)" for j
    using assms that fds_inv_iff[of "fdt w" "descrs w" j] by (auto simp: dev_inv_def no_descr_iff)
  then show ?thesis by (auto simp: in_set_conv_nth)
qed

end

end
