(* ===== verification/RegisterCdev.thy ===== *)
theory RegisterCdev
  imports Descriptors Chunked_Read
begin

text \<open>
  \<^verbatim>\<open>05_register_cdev/register_cdev.c\<close>: a device that counts its open files and serves a text
  about itself and its reader. What \<open>%p\<close> prints of an address is an input.
\<close>

section \<open>State\<close>

datatype rc_obj = chrdev

record rc =
  major :: s32
  loaded_at_ns :: u64
  open_count :: s32

definition rc_static :: rc where
  "rc_static = \<lparr>major = 0, loaded_at_ns = 0, open_count = 0\<rparr>"

record rc_env =
  cur_pid :: int
  cur_comm :: string
  inode_p :: string
  file_p :: string

definition in_ctx :: "rc_env \<Rightarrow> string" where
  \<comment> \<open>\<open>%s[%d]\<close> of the current task\<close>
  "in_ctx e = cur_comm e @ ''['' @ fmt_d (cur_pid e) @ '']''"

section \<open>Callbacks\<close>

definition register_cdev_open :: "(rc_env, rc, rc_obj) open_fn" where
  "register_cdev_open e f s =
     (let s1 = s\<lparr>open_count := open_count s + 1\<rparr>; count = open_count s1
      in (s1, f, [],
          [''open: dev='' @ fmt_u (imajor f) @ '':'' @ fmt_u (iminor f) @ '' ctx='' @ in_ctx e
            @ '' opens='' @ fmt_d (sint count) @ '' inode='' @ inode_p e @ '' file='' @ file_p e],
          None))"

definition register_cdev_release :: "(rc_env, rc, rc_obj) release_fn" where
  "register_cdev_release e f s =
     (let s1 = s\<lparr>open_count := open_count s - 1\<rparr>; count = open_count s1
      in Some (s1, f, [],
          [''release: dev='' @ fmt_u (imajor f) @ '':'' @ fmt_u (iminor f) @ '' ctx='' @ in_ctx e
            @ '' opens='' @ fmt_d (sint count) @ '' file='' @ file_p e]))"

definition message_text :: "rc_env \<Rightarrow> u32 \<Rightarrow> rc \<Rightarrow> string" where
  "message_text e minor s =
     ''register_cdev kernel device\<newline>'' @ ''major='' @ fmt_d (sint (major s)) @ [newline]
       @ ''minor='' @ fmt_u minor @ [newline] @ ''context='' @ in_ctx e @ [newline]"

text \<open>
  \<open>ctu out\<close> is the number of bytes that \<open>copy_to_user\<close> could not copy. The outer \<open>None\<close> is a
  copy from outside \<open>message\<close>; the result has the new offset and the log.
\<close>

definition register_cdev_read ::
    "(string \<Rightarrow> nat) \<Rightarrow> rc_env \<Rightarrow> struct_file \<Rightarrow> nat \<Rightarrow> int \<Rightarrow> rc \<Rightarrow>
     (int \<times> string list \<times> (errno + string)) option" where
  "register_cdev_read ctu e f count offset s =
     (let minor = iminor f;
          message = scnprintf 256 (message_text e minor s);
          message_length = length message
      in if offset \<ge> int message_length then Some (offset, [], Inr [])
         else if offset < 0 then None
         else
           (let bytes_to_copy = message_length - nat offset;
                bytes_to_copy = (if bytes_to_copy > count then count else bytes_to_copy);
                out = take bytes_to_copy (drop (nat offset) message)
            in if ctu out \<noteq> 0 then Some (offset, [], Inl EFAULT)
               else
                 (let offset' = offset + int bytes_to_copy
                  in Some (offset',
                       [''read: dev='' @ fmt_d (sint (major s)) @ '':'' @ fmt_u minor @ '' bytes=''
                         @ dec bytes_to_copy @ '' offset='' @ fmt_d offset' @ '' ctx='' @ in_ctx e],
                       Inr out))))"

section \<open>Loading and unloading\<close>

text \<open>
  \<open>t0\<close> and \<open>t1\<close> are the clock before and after the registration, \<open>reg\<close> its result; \<open>ps\<close> are
  the four addresses printed.
\<close>

definition register_cdev_init ::
    "rc_env \<Rightarrow> u64 \<Rightarrow> u64 \<Rightarrow> s32 \<Rightarrow> string \<times> string \<times> string \<times> string \<Rightarrow> rc \<Rightarrow>
     rc \<times> rc_obj kcall list \<times> string list \<times> errno option" where
  "register_cdev_init e t0 t1 reg ps s =
     (let s1 = s\<lparr>loaded_at_ns := t0\<rparr>; s2 = s1\<lparr>major := reg\<rparr>
      in if sint (major s2) < 0 then
           (s2, [], [''init: register_chrdev failed err='' @ fmt_d (sint (major s2))],
            Some (Passed (sint (major s2))))
         else
           (let elapsed_ns = t1 - t0; (p1, p2, p3, p4) = ps
            in (s2, [Acquire chrdev],
                [''init: major='' @ fmt_d (sint (major s2)) @ '' minors=0-255 ctx='' @ in_ctx e
                   @ '' time='' @ fmt_u (elapsed_ns div 1000) @ '' us'',
                 ''objects: module='' @ p1 @ '' fops='' @ p2 @ '' major='' @ p3 @ '' open_count='' @ p4],
                None)))"

definition register_cdev_exit :: "rc_env \<Rightarrow> u64 \<Rightarrow> u64 \<Rightarrow> rc \<Rightarrow> rc_obj kcall list \<times> string list" where
  "register_cdev_exit e t0 t1 s =
     (let uptime_ns = t0 - loaded_at_ns s; elapsed_ns = t1 - t0
      in ([Release chrdev],
          [''exit: major='' @ fmt_d (sint (major s)) @ '' opens='' @ fmt_d (sint (open_count s))
             @ '' ctx='' @ in_ctx e @ '' uptime='' @ fmt_u (uptime_ns div 1000000) @ '' ms'',
           ''exit: unregistered major='' @ fmt_d (sint (major s)) @ '' time=''
             @ fmt_u (elapsed_ns div 1000) @ '' us'']))"

section \<open>The open count\<close>

definition open_descrs :: "struct_file option list \<Rightarrow> nat" where
  "open_descrs ds = length (filter (\<lambda>d. d \<noteq> None) ds)"

lemma open_descrs_snoc [simp]: "open_descrs (ds @ [Some f]) = Suc (open_descrs ds)"
  by (simp add: open_descrs_def)

lemma open_descrs_close:
  assumes "i < length ds" "ds ! i = Some f"
  shows "open_descrs ds = Suc (open_descrs (ds[i := None]))"
proof -
  have "open_descrs ds = open_descrs (take i ds) + Suc (open_descrs (drop (Suc i) ds))"
    using assms by (subst id_take_nth_drop[OF assms(1)]) (simp add: open_descrs_def del: append_take_drop_id)
  then show ?thesis using assms(1) by (simp add: open_descrs_def upd_conv_take_nth_drop)
qed

definition rc_drv :: "rc \<Rightarrow> struct_file option list \<Rightarrow> rc_obj kcall list \<Rightarrow> bool" where
  "rc_drv s ds cs \<longleftrightarrow>
     open_count s = of_nat (open_descrs ds) \<and>
     kruns quiet cs = Some \<lparr>locked = {}, held = {chrdev}, armed = {}\<rparr>"

interpretation rc_dev: char_device register_cdev_open register_cdev_release rc_drv "\<lambda>_. True"
proof
  fix s ds cs e f s' f' cs' ls'
  assume "rc_drv s ds cs" "register_cdev_open e (fresh_file f) s = (s', f', cs', ls', None)"
  then show "rc_drv s' (ds @ [Some f']) (cs @ cs')"
    by (auto simp: register_cdev_open_def Let_def rc_drv_def)
next
  fix s ds cs e f s' f' cs' ls' x
  assume "register_cdev_open e (fresh_file f) s = (s', f', cs', ls', Some x)"
  then show "rc_drv s' ds (cs @ cs')" by (simp add: register_cdev_open_def Let_def)
next
  fix s ds cs i f e
  assume "rc_drv s ds cs" "i < length ds" "ds ! i = Some f"
  then show "\<exists>s' f' cs' ls'. register_cdev_release e f s = Some (s', f', cs', ls') \<and>
      rc_drv s' (ds[i := None]) (cs @ cs')"
    using open_descrs_close[of i ds f] by (simp add: register_cdev_release_def Let_def rc_drv_def)
qed

section \<open>The message\<close>

text \<open>A task name is at most 15 characters and a task id a C \<open>int\<close>.\<close>

definition real_task :: "rc_env \<Rightarrow> bool" where
  "real_task e \<longleftrightarrow> length (cur_comm e) < TASK_COMM_LEN \<and> int32 (cur_pid e)"

lemma message_fits: "real_task e \<Longrightarrow> length (message_text e minor s) < 256"
  using length_fmt_d[of "sint (major s)"] length_fmt_u32[of minor] length_fmt_d[of "cur_pid e"]
  by (simp add: message_text_def in_ctx_def real_task_def)

definition rc_rd :: "rc_env \<times> struct_file \<times> rc \<Rightarrow> nat \<Rightarrow> int \<Rightarrow> errno + (string \<times> int)" where
  \<comment> \<open>a read whose copy succeeds\<close>
  "rc_rd z n pos =
     (let (e, f, s) = z
      in case register_cdev_read (\<lambda>_. 0) e f n pos s of
           None \<Rightarrow> Inl EFAULT
         | Some (pos', ls, Inl x) \<Rightarrow> Inl x
         | Some (pos', ls, Inr out) \<Rightarrow> Inr (out, pos'))"

definition rc_text :: "rc_env \<times> struct_file \<times> rc \<Rightarrow> string" where
  "rc_text z = (let (e, f, s) = z in scnprintf 256 (message_text e (iminor f) s))"

interpretation rc_reader: chunked_reader rc_rd rc_text "\<lambda>_. True"
proof
  fix z :: "rc_env \<times> struct_file \<times> rc" and n and pos :: int
  assume "0 \<le> pos"
  obtain e :: rc_env and f :: struct_file and s where z: "z = (e, f, s)" by (metis prod_cases3)
  define m where "m = scnprintf 256 (message_text e (iminor f) s)"
  show "rc_rd z n pos = Inr (take n (drop (nat pos) (rc_text z)),
      pos + int (length (take n (drop (nat pos) (rc_text z)))))"
  proof (cases "pos \<ge> int (length m)")
    case True
    then show ?thesis by (simp add: z rc_rd_def rc_text_def register_cdev_read_def m_def[symmetric] Let_def)
  next
    case False
    then show ?thesis
      using \<open>0 \<le> pos\<close>
      by (auto simp: z rc_rd_def rc_text_def register_cdev_read_def m_def[symmetric] Let_def)
  qed
qed

definition rc_loaded :: "rc \<Rightarrow> fd_slot list \<Rightarrow> (rc, rc_obj) world" where
  "rc_loaded s fds = start_world (s\<lparr>open_count := 0\<rparr>) [Acquire chrdev] fds"

lemma rc_loaded_init:
  "0 \<le> sint reg \<Longrightarrow> register_cdev_init e t0 t1 reg ps rc_static = (s, cs, ls, r) \<Longrightarrow>
   r = None \<and> start_world s cs fds = rc_loaded s fds"
  by (auto simp: register_cdev_init_def rc_static_def rc_loaded_def Let_def split: prod.splits)

lemma rc_loaded_inv: "no_descr fds \<Longrightarrow> rc_dev.dev_inv (rc_loaded s fds)"
  unfolding rc_loaded_def
  by (rule rc_dev.inv_start) (simp_all add: rc_drv_def open_descrs_def quiet_def)

section \<open>Properties\<close>

text \<open>The open count. From a successful load on, whatever a process does with descriptors of the
  device, \<open>open_count\<close> is the number of open files (a duplicated descriptor counts once);
  it is 0 when all are closed, and the exit then leaves nothing registered.\<close>

theorem opens_counted:
  assumes "0 \<le> sint reg" "register_cdev_init e t0 t1 reg ptrs rc_static = (s, cs, ls, r)" "no_descr fds"
  shows "\<exists>w. fd_runs register_cdev_open register_cdev_release (start_world s cs fds) ps = Some w \<and>
    open_count (drv w) = of_nat (open_descrs (descrs w)) \<and>
    (if no_descr (fdt w) then open_count (drv w) = 0 else True) \<and>
    kruns quiet (calls w @ fst (register_cdev_exit e' t2 t3 (drv w))) = Some quiet"
proof -
  have i: "rc_dev.dev_inv (start_world s cs fds)"
    using rc_loaded_inv[OF assms(3)] rc_loaded_init[OF assms(1,2)] by simp
  have "rc_dev.op_ok p" for p by (cases p) simp_all
  with rc_dev.runs_inv[OF i] obtain w where
    w: "fd_runs register_cdev_open register_cdev_release (start_world s cs fds) ps = Some w"
      "rc_dev.dev_inv w" by blast
  then have d: "rc_drv (drv w) (descrs w) (calls w)" by (simp add: rc_dev.dev_inv_def)
  have "no_descr (fdt w) \<Longrightarrow> open_descrs (descrs w) = 0"
    using rc_dev.closed_all_None[OF w(2)] by (auto simp: open_descrs_def filter_empty_conv)
  with w d show ?thesis
    by (auto simp: rc_drv_def register_cdev_exit_def Let_def quiet_def)
qed

theorem opens_counted_witness:
  "let e = \<lparr>cur_pid = 1, cur_comm = ''sh'', inode_p = ''0'', file_p = ''0''\<rparr>;
       f = \<lparr>imajor = 241, iminor = 0, f_pos = 0, f_mode = 1, f_flags = 0, private_data = 0\<rparr>;
       (s, cs, ls, r) = register_cdev_init e 0 1 241 (''0'', ''0'', ''0'', ''0'') rc_static
   in \<exists>w. fd_runs register_cdev_open register_cdev_release (start_world s cs [Free, Free, Free])
        [Open e f, Open e f, Dup 0, Close e 0] = Some w \<and>
      open_count (drv w) = of_nat (open_descrs (descrs w))"
proof -
  let ?e = "\<lparr>cur_pid = 1, cur_comm = ''sh'', inode_p = ''0'', file_p = ''0''\<rparr>"
  obtain s cs ls r where
    i: "register_cdev_init ?e 0 1 241 (''0'', ''0'', ''0'', ''0'') rc_static = (s, cs, ls, r)"
    by (metis prod_cases4)
  have "(0 :: int) \<le> sint (241 :: s32)" "no_descr [Free, Free, Free]" by (simp_all add: no_descr_def)
  from opens_counted[OF this(1) i this(2)] show ?thesis unfolding Let_def i prod.case by blast
qed

text \<open>The message. The 256-byte buffer never cuts the text off, and reading it in pieces of any
  positive size until end of file returns exactly the text, within one call more than it has
  bytes; no read at an offset from 0 on leaves the buffer.\<close>

theorem message_served:
  assumes "real_task e" "0 < n" "length (message_text e (iminor f) s) < tries" "0 \<le> pos"
  shows "cat (rc_rd (e, f, s)) n tries 0 = Some (Inr (message_text e (iminor f) s)) \<and>
    register_cdev_read ctu e f k pos s \<noteq> None"
proof
  have "rc_text (e, f, s) = message_text e (iminor f) s"
    using message_fits[OF assms(1)] by (simp add: rc_text_def scnprintf_id)
  then show "cat (rc_rd (e, f, s)) n tries 0 = Some (Inr (message_text e (iminor f) s))"
    using rc_reader.cat_all[of n "(e, f, s)" tries] assms(2,3) by simp
  show "register_cdev_read ctu e f k pos s \<noteq> None"
    using assms(4) by (simp add: register_cdev_read_def Let_def)
qed

theorem message_served_witness:
  "let e = \<lparr>cur_pid = 7, cur_comm = ''cat'', inode_p = ''0'', file_p = ''0''\<rparr>;
       f = \<lparr>imajor = 241, iminor = 1, f_pos = 0, f_mode = 1, f_flags = 0, private_data = 0\<rparr>
   in cat (rc_rd (e, f, rc_static\<lparr>major := 241\<rparr>)) 16 256 0 =
     Some (Inr ''register_cdev kernel device\<newline>major=241\<newline>minor=1\<newline>context=cat[7]\<newline>'')"
proof -
  let ?e = "\<lparr>cur_pid = 7, cur_comm = ''cat'', inode_p = ''0'', file_p = ''0''\<rparr>"
  let ?f = "\<lparr>imajor = 241, iminor = 1, f_pos = 0, f_mode = 1, f_flags = 0, private_data = 0\<rparr>"
  have m: "message_text ?e (iminor ?f) (rc_static\<lparr>major := 241\<rparr>) =
      ''register_cdev kernel device\<newline>major=241\<newline>minor=1\<newline>context=cat[7]\<newline>''"
    by (simp add: message_text_def in_ctx_def print_eval rc_static_def)
  have "real_task ?e" by (simp add: real_task_def int32_def)
  from message_served[OF this, of 16 ?f "rc_static\<lparr>major := 241\<rparr>" 256 0] show ?thesis
    unfolding Let_def m by simp
qed

end
