(* ===== verification/Seq_Iterator.thy ===== *)
theory Seq_Iterator
  imports Main
begin

text \<open>
  The contract of a \<open>seq_file\<close> iterator over a list of records, and what the reads of an
  open file get from it. A read calls \<open>start\<close> at the position reached, takes records with
  \<open>next\<close> while there are any and while there is room, and leaves the position behind the
  last one taken. Between two reads the records may change.
\<close>

locale seq_iterator =
  fixes start :: "'s \<Rightarrow> nat \<Rightarrow> 'a option"
    and advance :: "'s \<Rightarrow> nat \<Rightarrow> nat \<times> 'a option"
    and items :: "'s \<Rightarrow> 'a list"
    and invar :: "'s \<Rightarrow> bool"
  assumes start_item: "invar s \<Longrightarrow>
      start s pos = (if pos < length (items s) then Some (items s ! pos) else None)"
    and advance_item: "invar s \<Longrightarrow>
      advance s pos =
        (Suc pos, if Suc pos < length (items s) then Some (items s ! Suc pos) else None)"
begin

fun walk :: "'s \<Rightarrow> nat \<Rightarrow> nat \<Rightarrow> 'a option \<Rightarrow> 'a list \<times> nat" where
  "walk s 0 pos cur = ([], pos)"
| "walk s (Suc room) pos None = ([], pos)"
| "walk s (Suc room) pos (Some e) =
     (let (pos1, nxt) = advance s pos; (es, pos2) = walk s room pos1 nxt in (e # es, pos2))"

definition one_read :: "'s \<Rightarrow> nat \<Rightarrow> nat \<Rightarrow> 'a list \<times> nat" where
  "one_read s room pos = walk s room pos (start s pos)"

fun reads :: "('s \<times> nat) list \<Rightarrow> nat \<Rightarrow> 'a list \<times> nat" where
  "reads [] pos = ([], pos)"
| "reads ((s, room) # rs) pos =
     (let (es, pos1) = one_read s room pos; (fs, pos2) = reads rs pos1 in (es @ fs, pos2))"

lemma walk_items:
  assumes "invar s"
  shows "walk s room pos (if pos < length (items s) then Some (items s ! pos) else None) =
    (take room (drop pos (items s)), pos + min room (length (items s) - pos))"
proof (induction room arbitrary: pos)
  case 0
  then show ?case by simp
next
  case (Suc room)
  show ?case
  proof (cases "pos < length (items s)")
    case False
    then show ?thesis by simp
  next
    case True
    have "drop pos (items s) = items s ! pos # drop (Suc pos) (items s)"
      using True by (rule Cons_nth_drop_Suc[symmetric])
    with True Suc[of "Suc pos"] show ?thesis
      by (simp add: advance_item[OF assms] Suc_diff_Suc[symmetric])
  qed
qed

lemma one_read_items:
  "invar s \<Longrightarrow> one_read s room pos =
     (take room (drop pos (items s)), pos + min room (length (items s) - pos))"
  by (simp only: one_read_def start_item walk_items)

text \<open>
  Records that are only ever added behind the last one: whatever the sizes of the reads,
  they deliver a gapless stretch of the final list, each record once.
\<close>

lemma reads_growing:
  assumes "\<forall>(s, room) \<in> set rs. invar s \<and> (\<exists>more. whole = items s @ more)"
    and "pos \<le> length whole" and "reads rs pos = (es, pos')"
  shows "pos \<le> pos' \<and> pos' \<le> length whole \<and> es = take (pos' - pos) (drop pos whole)"
  using assms
proof (induction rs arbitrary: pos es)
  case Nil
  then show ?case by simp
next
  case (Cons r rs)
  obtain s room where r: "r = (s, room)" by fastforce
  from Cons.prems(1) obtain more where i: "invar s" and w: "whole = items s @ more"
    by (auto simp: r)
  let ?k = "min room (length (items s) - pos)"
  let ?es1 = "take room (drop pos (items s))"
  obtain fs where fs: "reads rs (pos + ?k) = (fs, pos')" and es: "es = ?es1 @ fs"
    using Cons.prems(3) by (auto simp: r one_read_items[OF i] Let_def split: prod.splits)
  have le: "pos + ?k \<le> length whole" using Cons.prems(2) w by auto
  from Cons.IH[OF _ le fs] Cons.prems(1)
  have IH: "pos + ?k \<le> pos'" "pos' \<le> length whole"
    "fs = take (pos' - (pos + ?k)) (drop (pos + ?k) whole)" by auto
  have "?es1 = take ?k (drop pos whole)"
    by (cases "pos \<le> length (items s)") (simp_all add: w min_def)
  moreover have "take (pos' - pos) (drop pos whole) =
      take ?k (drop pos whole) @ take (pos' - pos - ?k) (drop ?k (drop pos whole))"
    using IH(1) by (subst take_add[symmetric]) simp
  moreover have "pos' - pos - ?k = pos' - (pos + ?k)" by simp
  ultimately show ?case using IH es by (simp add: add.commute)
qed

text \<open>Reads of a list that does not change, with room for all of it.\<close>

lemma reads_all:
  assumes "invar s" and "length (items s) \<le> sum_list rooms"
  shows "fst (reads (map (\<lambda>room. (s, room)) rooms) 0) = items s"
proof -
  have "reads (map (\<lambda>room. (s, room)) rooms) pos =
      (take (sum_list rooms) (drop pos (items s)), pos + min (sum_list rooms) (length (items s) - pos))" for pos
  proof (induction rooms arbitrary: pos)
    case Nil
    then show ?case by simp
  next
    case (Cons room rooms)
    let ?k = "min room (length (items s) - pos)"
    have "take (room + sum_list rooms) (drop pos (items s)) =
        take room (drop pos (items s)) @ take (sum_list rooms) (drop room (drop pos (items s)))"
      by (rule take_add)
    moreover have "drop room (drop pos (items s)) = drop (pos + ?k) (items s)"
      by (cases "room \<le> length (items s) - pos") (simp_all add: add.commute min_def)
    moreover have "pos + ?k + min (sum_list rooms) (length (items s) - (pos + ?k)) =
        pos + min (room + sum_list rooms) (length (items s) - pos)" by auto
    ultimately show ?case
      using Cons[of "pos + ?k"] by (simp add: one_read_items[OF assms(1)])
  qed
  from this[of 0] show ?thesis using assms(2) by simp
qed

end

end
