(* ===== verification/ProcfsSeqfile.thy ===== *)
theory ProcfsSeqfile
  imports KernelAPI Seq_Iterator
begin

text \<open>
  \<^verbatim>\<open>06_procfs_seqfile/procfs_seqfile.c\<close>: a bounded log of the opens of a file, listed
  through a \<open>seq_file\<close> iterator, cleared by a write, and a one-value file.
\<close>

section \<open>State\<close>

datatype pf_obj = events_lock | proc_dir | proc_info | proc_events

abbreviation MAX_EVENTS :: nat where "MAX_EVENTS \<equiv> 64"

record proc_event =
  ns :: u64
  pid :: int
  comm :: string

record pf_state =
  events :: "proc_event list"
  event_count :: u32
  total_opens :: u64
  loaded_at_ns :: u64

definition pf_static :: pf_state where
  "pf_static = \<lparr>events = replicate MAX_EVENTS \<lparr>ns = 0, pid = 0, comm = []\<rparr>, event_count = 0,
     total_opens = 0, loaded_at_ns = 0\<rparr>"

section \<open>Operations\<close>

text \<open>An open at \<open>ktime_get_ns() = t\<close> by the task \<open>p\<close>, \<open>c\<close>.\<close>

definition record_event :: "u64 \<Rightarrow> int \<Rightarrow> string \<Rightarrow> pf_state \<Rightarrow> pf_state \<times> pf_obj kcall list" where
  "record_event t p c s =
     (let s1 = s\<lparr>total_opens := total_opens s + 1\<rparr>;
          s2 = (if event_count s1 < of_nat MAX_EVENTS
                then s1\<lparr>events := (events s1)[unat (event_count s1) := \<lparr>ns = t, pid = p, comm = c\<rparr>],
                        event_count := event_count s1 + 1\<rparr>
                else s1)
      in (s2, [Lock events_lock, Unlock events_lock]))"

definition info_show :: "u64 \<Rightarrow> pf_state \<Rightarrow> string \<times> pf_obj kcall list" where
  "info_show now s =
     (let uptime_ms = (now - loaded_at_ns s) div 1000000
      in (''uptime_ms='' @ fmt_u uptime_ms @ [newline]
            @ ''total_opens='' @ fmt_u (total_opens s) @ [newline]
            @ ''events_recorded='' @ fmt_u (event_count s) @ '' (capacity '' @ dec MAX_EVENTS @ '')\<newline>'',
          [Lock events_lock, Unlock events_lock]))"

text \<open>
  The four iterator functions. An element is \<open>&events[i]\<close>, here the record it points to;
  \<open>start\<close> leaves the lock taken and \<open>stop\<close> drops it.
\<close>

definition events_seq_start :: "pf_state \<Rightarrow> nat \<Rightarrow> pf_obj kcall list \<times> proc_event option" where
  "events_seq_start s pos =
     ([Lock events_lock], if pos \<ge> unat (event_count s) then None else Some (events s ! pos))"

definition events_seq_next :: "pf_state \<Rightarrow> nat \<Rightarrow> nat \<times> proc_event option" where
  "events_seq_next s pos =
     (let pos1 = pos + 1
      in (pos1, if pos1 \<ge> unat (event_count s) then None else Some (events s ! pos1)))"

definition events_seq_stop :: "pf_obj kcall list" where
  "events_seq_stop = [Unlock events_lock]"

definition pad6 :: "string \<Rightarrow> string" where
  \<comment> \<open>\<open>%06llu\<close>\<close>
  "pad6 str = replicate (6 - length str) (CHR ''0'') @ str"

definition events_seq_show :: "proc_event \<Rightarrow> string" where
  "events_seq_show ev =
     (let sec = ns ev div 1000000000; usec = (ns ev mod 1000000000) div 1000
      in fmt_u sec @ ''.'' @ pad6 (fmt_u usec) @ '' '' @ comm ev @ ''['' @ fmt_d (pid ev) @ '']\<newline>'')"

text \<open>\<open>opened\<close> is the outcome of \<open>seq_open\<close>, which comes after the event has been recorded.\<close>

definition events_open ::
    "errno option \<Rightarrow> u64 \<Rightarrow> int \<Rightarrow> string \<Rightarrow> pf_state \<Rightarrow> pf_state \<times> pf_obj kcall list \<times> errno option" where
  "events_open opened t p c s = (let (s1, cs) = record_event t p c s in (s1, cs, opened))"

definition events_write ::
    "kstr \<Rightarrow> (string \<Rightarrow> string \<times> nat) \<Rightarrow> string \<Rightarrow> pf_state \<Rightarrow>
     pf_state \<times> pf_obj kcall list \<times> (errno + nat)" where
  "events_write K cfu buf s =
     (if length buf = 0 \<or> length buf \<ge> 16 then (s, [], Inl E2BIG)
      else
        (let (kbuf, left) = cfu buf
         in if left \<noteq> 0 then (s, [], Inl EFAULT)
            else if \<not> sysfs_streq K (strim K (cstr kbuf)) ''clear'' then (s, [], Inl EINVAL)
            else (s\<lparr>event_count := 0\<rparr>, [Lock events_lock, Unlock events_lock], Inr (length buf))))"

section \<open>Loading and unloading\<close>

text \<open>
  \<open>proc_remove\<close> of the directory removes what has been created in it as well.
\<close>

record pf_env =
  e_dir :: bool
  e_info :: bool
  e_events :: bool

definition procfs_seqfile_init ::
    "u64 \<Rightarrow> pf_env \<Rightarrow> pf_state \<Rightarrow> pf_state \<times> pf_obj kcall list \<times> errno option" where
  "procfs_seqfile_init now e s =
     (let s1 = s\<lparr>loaded_at_ns := now\<rparr>
      in if \<not> e_dir e then (s1, [], Some ENOMEM)
         else if \<not> e_info e then (s1, [Acquire proc_dir, Release proc_dir], Some ENOMEM)
         else if \<not> e_events e
         then (s1, [Acquire proc_dir, Acquire proc_info, Release proc_info, Release proc_dir], Some ENOMEM)
         else (s1, [Acquire proc_dir, Acquire proc_info, Acquire proc_events], None))"

definition procfs_seqfile_exit :: "pf_obj kcall list" where
  "procfs_seqfile_exit = [Release proc_events, Release proc_info, Release proc_dir]"

section \<open>The log and its iterator\<close>

definition pf_inv :: "pf_state \<Rightarrow> bool" where
  "pf_inv s \<longleftrightarrow> length (events s) = MAX_EVENTS \<and> unat (event_count s) \<le> MAX_EVENTS"

definition recorded :: "pf_state \<Rightarrow> proc_event list" where
  "recorded s = take (unat (event_count s)) (events s)"

lemma length_recorded: "pf_inv s \<Longrightarrow> length (recorded s) = unat (event_count s)"
  by (simp add: recorded_def pf_inv_def)

interpretation pf_iter: seq_iterator "\<lambda>s pos. snd (events_seq_start s pos)" events_seq_next recorded pf_inv
proof
  fix s pos assume i: "pf_inv s"
  show "snd (events_seq_start s pos) =
      (if pos < length (recorded s) then Some (recorded s ! pos) else None)"
    using length_recorded[OF i] by (simp add: events_seq_start_def recorded_def)
  show "events_seq_next s pos =
      (Suc pos, if Suc pos < length (recorded s) then Some (recorded s ! Suc pos) else None)"
    using length_recorded[OF i] by (simp add: events_seq_next_def recorded_def)
qed

lemma record_event_spec:
  assumes "pf_inv s"
  shows "pf_inv (fst (record_event t p c s)) \<and>
    recorded (fst (record_event t p c s)) =
      (if length (recorded s) < MAX_EVENTS then recorded s @ [\<lparr>ns = t, pid = p, comm = c\<rparr>]
       else recorded s)"
proof (cases "unat (event_count s) < MAX_EVENTS")
  case True
  have "unat (event_count s + 1) = Suc (unat (event_count s))"
    using True by (simp add: unat_plus_if')
  moreover have "event_count s < of_nat MAX_EVENTS" using True by (simp add: word_less_nat_alt)
  ultimately show ?thesis
    using True assms
    by (simp add: record_event_def pf_inv_def recorded_def Let_def take_Suc_conv_app_nth)
next
  case False
  then have "\<not> event_count s < of_nat MAX_EVENTS" by (simp add: word_less_nat_alt)
  with False assms show ?thesis
    by (simp add: record_event_def pf_inv_def recorded_def Let_def)
qed

lemma events_write_spec:
  "recorded (fst (events_write K cfu b s)) = recorded s \<or> recorded (fst (events_write K cfu b s)) = []"
  "pf_inv s \<Longrightarrow> pf_inv (fst (events_write K cfu b s))"
  by (auto simp: events_write_def recorded_def pf_inv_def Let_def split: prod.split)

section \<open>The module as a machine\<close>

datatype pf_op =
    Open "errno option" u64 int string | Write "string \<Rightarrow> string \<times> nat" string
  | Info u64 | Read nat nat

fun pf_serve :: "kstr \<Rightarrow> pf_state \<Rightarrow> pf_op \<Rightarrow> pf_state \<times> pf_obj kcall list" where
  "pf_serve K s (Open r t p c) = (let (s1, cs, x) = events_open r t p c s in (s1, cs))"
| "pf_serve K s (Write cfu b) = (let (s1, cs, x) = events_write K cfu b s in (s1, cs))"
| "pf_serve K s (Info now) = (s, snd (info_show now s))"
| "pf_serve K s (Read room pos) = (s, fst (events_seq_start s pos) @ events_seq_stop)"

definition pf_step :: "kstr \<Rightarrow> pf_state \<Rightarrow> pf_op \<Rightarrow> pf_state" where
  "pf_step K s p = fst (pf_serve K s p)"

lemma pf_step_cases:
  "(\<exists>t p c. pf_step K s op = fst (record_event t p c s)) \<or>
   (\<exists>cfu b. pf_step K s op = fst (events_write K cfu b s)) \<or> pf_step K s op = s"
proof (cases op)
  case (Open r t p c)
  then have "pf_step K s op = fst (record_event t p c s)"
    by (simp add: pf_step_def events_open_def prod.case_eq_if)
  then show ?thesis by blast
next
  case (Write cfu b)
  then have "pf_step K s op = fst (events_write K cfu b s)"
    by (simp add: pf_step_def prod.case_eq_if)
  then show ?thesis by blast
qed (simp_all add: pf_step_def)

lemma pf_step_inv: "pf_inv s \<Longrightarrow> pf_inv (pf_step K s op)"
  using pf_step_cases[of K s op] record_event_spec events_write_spec(2) by auto

interpretation pf: invariant_machine "pf_step K" pf_inv "\<lambda>_. True" for K
  by unfold_locales (rule pf_step_inv)

lemma pf_serve_calls: "snd (pf_serve K s op) \<in> {[], [Lock events_lock, Unlock events_lock]}"
  by (cases op)
    (auto simp: events_open_def record_event_def events_write_def info_show_def events_seq_start_def
      events_seq_stop_def Let_def prod.case_eq_if)

definition pf_live :: "pf_state \<Rightarrow> pf_obj kworld \<Rightarrow> bool" where
  "pf_live s w \<longleftrightarrow> locked w = {} \<and> armed w = {} \<and> held w = {proc_dir, proc_info, proc_events}"

interpretation pf_session: module_session "\<lambda>(now, e, s). procfs_seqfile_init now e s" "pf_serve K"
    "\<lambda>s. procfs_seqfile_exit" pf_live for K
proof
  fix s w op s' t
  assume "pf_live s w" "pf_serve K s op = (s', t)"
  then show "\<exists>w'. kruns w t = Some w' \<and> pf_live s' w'"
    using pf_serve_calls[of K s op] by (auto simp: pf_live_def)
qed (auto simp: procfs_seqfile_init_def procfs_seqfile_exit_def pf_live_def quiet_iff insert_Diff_if
      Let_def split: if_splits)

section \<open>Properties\<close>

text \<open>The opens of a run of opens, up to the capacity of the log.\<close>

fun opens :: "pf_op list \<Rightarrow> proc_event list" where
  "opens [] = []"
| "opens (Open r t p c # ops) = \<lparr>ns = t, pid = p, comm = c\<rparr> # opens ops"
| "opens (_ # ops) = opens ops"

lemma opens_append: "opens (xs @ ys) = opens xs @ opens ys"
  by (induction xs rule: opens.induct) simp_all

definition no_write :: "pf_op \<Rightarrow> bool" where
  "no_write op \<longleftrightarrow> (case op of Write cfu b \<Rightarrow> False | _ \<Rightarrow> True)"

lemma recorded_run:
  "pf_inv s \<Longrightarrow> list_all no_write ops \<Longrightarrow>
   recorded (foldl (pf_step K) s ops) = take MAX_EVENTS (recorded s @ opens ops)"
proof (induction ops arbitrary: s)
  case Nil
  then show ?case by (simp add: recorded_def pf_inv_def)
next
  case (Cons op ops)
  note i = pf_step_inv[OF Cons.prems(1), of K op]
  have len: "length (recorded s) \<le> MAX_EVENTS"
    using Cons.prems(1) by (simp add: length_recorded pf_inv_def)
  have step: "recorded (pf_step K s op) = take MAX_EVENTS (recorded s @ opens [op])"
    using Cons.prems record_event_spec[OF Cons.prems(1)] len
    by (cases op) (auto simp: no_write_def pf_step_def events_open_def Let_def prod.case_eq_if)
  have "opens (op # ops) = opens [op] @ opens ops" by (cases op) simp_all
  then show ?case
    using Cons.IH[OF i] Cons.prems(2)[unfolded list.pred_inject] take_take_append[of MAX_EVENTS "recorded s @ opens [op]" "opens ops"]
    by (simp only: foldl.simps step append_assoc)
qed

text \<open>
  A file that stays open: before each read other tasks do something, then the reader reads
  once with room for so many lines. What it has read, and the position reached.
\<close>

fun listing :: "kstr \<Rightarrow> pf_state \<Rightarrow> (pf_op list \<times> nat) list \<Rightarrow> (pf_state \<times> nat) list \<times> pf_state" where
  "listing K s [] = ([], s)"
| "listing K s ((ops, room) # rest) =
     (let s1 = foldl (pf_step K) s ops; (rs, z) = listing K s1 rest in ((s1, room) # rs, z))"

lemma listing_recorded:
  assumes "pf_inv s" and "list_all (\<lambda>(ops, room). list_all no_write ops) script"
    and "listing K s script = (rs, z)"
  shows "pf_inv z \<and> recorded z = take MAX_EVENTS (recorded s @ opens (concat (map fst script))) \<and>
    (\<forall>(s1, room) \<in> set rs. pf_inv s1 \<and> (\<exists>more. recorded z = recorded s1 @ more)) \<and>
    (\<exists>more. recorded z = recorded s @ more)"
  using assms
proof (induction script arbitrary: s rs)
  case Nil
  then show ?case by (simp add: recorded_def pf_inv_def)
next
  case (Cons x rest)
  obtain ops room where x: "x = (ops, room)" by fastforce
  let ?s1 = "foldl (pf_step K) s ops"
  obtain rs1 where l: "listing K ?s1 rest = (rs1, z)" and rs: "rs = (?s1, room) # rs1"
    using Cons.prems(3) by (auto simp: x Let_def split: prod.splits)
  have i: "pf_inv ?s1" using pf.run_inv[OF Cons.prems(1), of ops K] by simp
  have r: "recorded ?s1 = take MAX_EVENTS (recorded s @ opens ops)"
    using recorded_run[OF Cons.prems(1), of ops K] Cons.prems(2) by (simp add: x)
  have le: "length (recorded s) \<le> MAX_EVENTS"
    using length_recorded[OF Cons.prems(1)] Cons.prems(1) by (simp add: pf_inv_def)
  then have "recorded ?s1 = recorded s @ take (MAX_EVENTS - length (recorded s)) (opens ops)"
    by (simp add: r)
  moreover have "recorded z = take MAX_EVENTS (recorded s @ opens (ops @ concat (map fst rest)))"
    using Cons.IH[OF i _ l] Cons.prems(2) take_take_append[of MAX_EVENTS "recorded s @ opens ops"]
    by (simp add: x r opens_append)
  ultimately show ?case
    using Cons.IH[OF i _ l] Cons.prems(2) i by (auto simp: x rs)
qed

lemma length_listing: "listing K s script = (rs, z) \<Longrightarrow> map snd rs = map snd script"
  by (induction script arbitrary: s rs) (auto simp: Let_def split: prod.splits)

text \<open>C14: the listing and the log. A reader keeps the file open and reads it in pieces of any
  sizes while other tasks open it and read it: what it has got is a gapless prefix of the log,
  the log is the first 64 opens in order, and a last read with room for the log completes it.\<close>

theorem listing_gapless:
  assumes "pf_inv s" and "list_all (\<lambda>(ops, room). list_all no_write ops) script"
    and "listing K s script = (rs, z)" and "pf_iter.reads rs 0 = (es, pos)"
  shows "recorded z = take MAX_EVENTS (recorded s @ opens (concat (map fst script))) \<and>
    es = take pos (recorded z) \<and> pos \<le> length (recorded z) \<and>
    es @ fst (pf_iter.one_read z MAX_EVENTS pos) = recorded z"
proof -
  note L = listing_recorded[OF assms(1-3)]
  then have i: "pf_inv z" and whole: "\<forall>(s1, room) \<in> set rs. pf_inv s1 \<and> (\<exists>more. recorded z = recorded s1 @ more)"
    by blast+
  from pf_iter.reads_growing[OF whole _ assms(4)]
  have es: "es = take pos (recorded z)" "pos \<le> length (recorded z)" by simp_all
  have "length (recorded z) \<le> MAX_EVENTS" using i length_recorded[OF i] by (simp add: pf_inv_def)
  then have "fst (pf_iter.one_read z MAX_EVENTS pos) = drop pos (recorded z)"
    by (simp add: pf_iter.one_read_items[OF i])
  then have "es @ fst (pf_iter.one_read z MAX_EVENTS pos) = recorded z" by (simp add: es(1))
  with L es show ?thesis by blast
qed

theorem listing_gapless_witness:
  "let op = (\<lambda>n. Open None n 7 ''cat''); ev = (\<lambda>n. \<lparr>ns = n, pid = 7, comm = ''cat''\<rparr>);
       (rs, z) = listing ref_kstr pf_static [([op 1, op 2], 1), ([op 3], 1)];
       (es, pos) = pf_iter.reads rs 0
   in es @ fst (pf_iter.one_read z MAX_EVENTS pos) = [ev 1, ev 2, ev 3]"
proof -
  let ?op = "\<lambda>n. Open None n 7 ''cat''"
  let ?script = "[([?op 1, ?op 2], 1), ([?op 3], 1)]"
  have i: "pf_inv pf_static" by (simp add: pf_inv_def pf_static_def)
  obtain rs z where l: "listing ref_kstr pf_static ?script = (rs, z)" by fastforce
  obtain es pos where r: "pf_iter.reads rs 0 = (es, pos)" by fastforce
  have n: "list_all (\<lambda>(ops, room). list_all no_write ops) ?script" by (simp add: no_write_def)
  note L = listing_gapless[OF i n l r]
  have "recorded pf_static = []" by (simp add: recorded_def pf_static_def)
  with conjunct1[OF L] have z: "recorded z = map (\<lambda>n. \<lparr>ns = n, pid = 7, comm = ''cat''\<rparr>) [1, 2, 3]"
    by simp
  have "es @ fst (pf_iter.one_read z MAX_EVENTS pos) = recorded z" using L by blast
  then have "es @ fst (pf_iter.one_read z MAX_EVENTS pos) =
      map (\<lambda>n. \<lparr>ns = n, pid = 7, comm = ''cat''\<rparr>) [1, 2, 3]" by (simp only: z)
  then show ?thesis unfolding Let_def l by (simp add: r)
qed

end
