(* ===== verification/OpenRelease.thy ===== *)
theory OpenRelease
  imports Descriptors UserLib
begin

unbundle bit_operations_syntax

text \<open>
  \<^verbatim>\<open>08_open_release_cdev\<close>: a context per open file, in \<open>open_release_cdev.c\<close>, and the test
  program \<open>test.c\<close> that opens, duplicates and closes descriptors of the device. Contexts
  live in a store indexed by address, so that a release of a context that has been freed is
  an error of the model (\<open>None\<close>).
\<close>

section \<open>State\<close>

datatype or_obj = chrdev | Ctx u64

record open_context =
  ctx_id :: u64
  opened_ns :: u64
  ctx_minor :: u32
  ctx_flags :: u32
  ctx_mode :: u32
  opener_pid :: int
  opener_comm :: string

record orc =
  major :: s32
  active_opens :: s32
  next_open_id :: u64
  ctxs :: "u64 \<rightharpoonup> open_context"   \<comment> \<open>the memory behind the \<open>private_data\<close> pointers\<close>

definition orc_static :: orc where
  "orc_static = \<lparr>major = 0, active_opens = 0, next_open_id = 0, ctxs = Map.empty\<rparr>"

text \<open>
  What one system call gets from the kernel: what \<open>kzalloc\<close> returns when the addresses in
  its argument are in use (0 when it fails), the clock, and the current task.
\<close>

record sys_env =
  kzalloc :: "u64 set \<Rightarrow> u64"
  now :: u64
  cur_pid :: int
  cur_comm :: string

definition kzalloc_documented :: "(u64 set \<Rightarrow> u64) \<Rightarrow> bool" where
  "kzalloc_documented A \<longleftrightarrow> (\<forall>S. A S = 0 \<or> A S \<notin> S)"

definition ref_kzalloc :: "u64 set \<Rightarrow> u64" where
  "ref_kzalloc S = (if 4096 \<notin> S then 4096 else if 8192 \<notin> S then 8192 else 0)"

lemma ref_kzalloc_documented: "kzalloc_documented ref_kzalloc"
  by (simp add: kzalloc_documented_def ref_kzalloc_def)

section \<open>The log lines\<close>

definition hexdigit :: "nat \<Rightarrow> char" where
  "hexdigit d = char_of (if d < 10 then 48 + d else 87 + d)"

fun hex :: "nat \<Rightarrow> string" where
  "hex n = (if n < 16 then [hexdigit n] else hex (n div 16) @ [hexdigit (n mod 16)])"

declare hex.simps [simp del]

definition fmt_x :: "'a::len word \<Rightarrow> string" where
  \<comment> \<open>\<open>%x\<close>\<close>
  "fmt_x w = hex (unat w)"

text \<open>The flags of \<open>open(2)\<close>, with the values of x86-64.\<close>

abbreviation O_ACCMODE :: u32 where "O_ACCMODE \<equiv> 3"
abbreviation O_RDONLY :: u32 where "O_RDONLY \<equiv> 0"
abbreviation O_WRONLY :: u32 where "O_WRONLY \<equiv> 1"
abbreviation O_RDWR :: u32 where "O_RDWR \<equiv> 2"
abbreviation O_APPEND :: u32 where "O_APPEND \<equiv> 0x400"
abbreviation O_NONBLOCK :: u32 where "O_NONBLOCK \<equiv> 0x800"
abbreviation O_DIRECT :: u32 where "O_DIRECT \<equiv> 0x4000"
abbreviation O_SYNC :: u32 where "O_SYNC \<equiv> 0x101000"
abbreviation FMODE_READ :: u32 where "FMODE_READ \<equiv> 1"
abbreviation FMODE_WRITE :: u32 where "FMODE_WRITE \<equiv> 2"

definition access_mode_name :: "u32 \<Rightarrow> string" where
  "access_mode_name flags =
     (let m = flags AND O_ACCMODE
      in if m = O_RDONLY then ''O_RDONLY''
         else if m = O_WRONLY then ''O_WRONLY''
         else if m = O_RDWR then ''O_RDWR'' else ''UNKNOWN'')"

definition has :: "u32 \<Rightarrow> u32 \<Rightarrow> string" where
  \<comment> \<open>\<open>!!(flags & bit)\<close> printed by \<open>%d\<close>\<close>
  "has flags b = fmt_b (flags AND b \<noteq> 0)"

definition open_log :: "open_context \<Rightarrow> struct_file \<Rightarrow> sys_env \<Rightarrow> s32 \<Rightarrow> string list" where
  "open_log ctx f e active =
     [''OPEN #'' @ fmt_u (ctx_id ctx) @ '' ----------------------------------------'',
      ''device: major='' @ fmt_u (imajor f) @ '' minor='' @ fmt_u (iminor f),
      ''process: '' @ cur_comm e @ ''['' @ fmt_d (cur_pid e) @ ''] active_opens='' @ fmt_d (sint active),
      ''filp->f_pos   = '' @ fmt_d (f_pos f),
      ''filp->f_mode  = 0x'' @ fmt_x (f_mode f) @ '' [read='' @ has (f_mode f) FMODE_READ
        @ '' write='' @ has (f_mode f) FMODE_WRITE @ '']'',
      ''filp->f_flags = 0x'' @ fmt_x (f_flags f),
      ''flags: access='' @ access_mode_name (f_flags f) @ '' nonblock='' @ has (f_flags f) O_NONBLOCK
        @ '' append='' @ has (f_flags f) O_APPEND @ '' sync='' @ has (f_flags f) O_SYNC
        @ '' direct='' @ has (f_flags f) O_DIRECT,
      ''private_data: open_id='' @ fmt_u (ctx_id ctx) @ '' recorded_minor='' @ fmt_u (ctx_minor ctx)]"

definition release_log :: "open_context \<Rightarrow> struct_file \<Rightarrow> sys_env \<Rightarrow> s32 \<Rightarrow> string list" where
  "release_log ctx f e active =
     (let lifetime_ns = now e - opened_ns ctx; lifetime_us = lifetime_ns div 1000
      in [''RELEASE #'' @ fmt_u (ctx_id ctx) @ '' -------------------------------------'',
          ''device: major='' @ fmt_u (imajor f) @ '' minor='' @ fmt_u (iminor f),
          ''opened_by='' @ opener_comm ctx @ ''['' @ fmt_d (opener_pid ctx) @ ''] released_by=''
            @ cur_comm e @ ''['' @ fmt_d (cur_pid e) @ '']'',
          ''lifetime='' @ fmt_u lifetime_us @ '' us final_f_pos='' @ fmt_d (f_pos f)
            @ '' active_opens='' @ fmt_d (sint active)])"

section \<open>The driver\<close>

definition my_open ::
    "sys_env \<Rightarrow> struct_file \<Rightarrow> orc \<Rightarrow> orc \<times> struct_file \<times> or_obj kcall list \<times> string list \<times> errno option" where
  "my_open e f s =
     (let p = kzalloc e (dom (ctxs s))
      in if p = 0 then (s, f, [], [], Some ENOMEM)
         else
           (let s1 = s\<lparr>next_open_id := next_open_id s + 1\<rparr>;
                ctx = \<lparr>ctx_id = next_open_id s1, opened_ns = now e, ctx_minor = iminor f,
                       ctx_flags = f_flags f, ctx_mode = f_mode f,
                       opener_pid = cur_pid e, opener_comm = cur_comm e\<rparr>;
                s2 = s1\<lparr>ctxs := (ctxs s1)(p \<mapsto> ctx)\<rparr>;
                f1 = f\<lparr>private_data := p\<rparr>;
                s3 = s2\<lparr>active_opens := active_opens s2 + 1\<rparr>
            in (s3, f1, [Acquire (Ctx p)], open_log ctx f1 e (active_opens s3), None)))"

text \<open>\<open>None\<close>: the context behind \<open>private_data\<close> is not allocated.\<close>

definition my_release ::
    "sys_env \<Rightarrow> struct_file \<Rightarrow> orc \<Rightarrow> (orc \<times> struct_file \<times> or_obj kcall list \<times> string list) option" where
  "my_release e f s =
     (if private_data f = 0 then Some (s, f, [], [''release called without private_data''])
      else
        (case ctxs s (private_data f) of
           None \<Rightarrow> None
         | Some ctx \<Rightarrow>
             (let s1 = s\<lparr>active_opens := active_opens s - 1\<rparr>;
                  s2 = s1\<lparr>ctxs := (ctxs s1)(private_data f := None)\<rparr>
              in Some (s2, f\<lparr>private_data := 0\<rparr>, [Release (Ctx (private_data f))],
                       release_log ctx f e (active_opens s1)))))"

text \<open>\<open>register_chrdev\<close> returns the major number or a negative error.\<close>

definition open_release_cdev_init :: "s32 \<Rightarrow> orc \<Rightarrow> orc \<times> or_obj kcall list \<times> errno option" where
  "open_release_cdev_init reg s =
     (let s1 = s\<lparr>major := reg\<rparr>
      in if sint (major s1) < 0 then (s1, [], Some (Passed (sint (major s1))))
         else (s1, [Acquire chrdev], None))"

definition open_release_cdev_exit :: "or_obj kcall list" where
  "open_release_cdev_exit = [Release chrdev]"

section \<open>The test program\<close>

text \<open>
  \<open>test.c\<close>: what it prints, and its exit status. \<open>mk\<close> is the file the kernel makes of the
  path and the flags, \<open>E n\<close> the environment of the \<open>n\<close>-th system call on the device.
\<close>

type_synonym or_world = "(orc, or_obj) world"

definition run_open_test ::
    "sys_env \<Rightarrow> sys_env \<Rightarrow> (u32 \<Rightarrow> struct_file) \<Rightarrow> u32 \<Rightarrow> string \<Rightarrow> or_world \<Rightarrow>
     (or_world \<times> test_out list \<times> int) option" where
  "run_open_test eo ec mk flags name w =
     (let out1 = [Stdout (''\<newline>=== '' @ name @ '' ===\<newline>''),
                  Stdout (''userspace open flags: 0x'' @ fmt_x flags @ [newline])]
      in (case sys_open my_open eo (mk flags) w of
            (w1, Inl x) \<Rightarrow> Some (w1, out1 @ [Perror ''open'' x], -1)
          | (w1, Inr fd) \<Rightarrow>
              (let out2 = out1 @ [Stdout (''opened fd='' @ dec fd @ [newline])]
               in (case sys_close my_release ec fd w1 of
                     None \<Rightarrow> None
                   | Some (w2, Some x) \<Rightarrow> Some (w2, out2 @ [Perror ''close'' x], -1)
                   | Some (w2, None) \<Rightarrow> Some (w2, out2 @ [Stdout (''closed fd='' @ dec fd @ [newline])], 0)))))"

definition run_dup_test ::
    "sys_env \<Rightarrow> sys_env \<Rightarrow> sys_env \<Rightarrow> (u32 \<Rightarrow> struct_file) \<Rightarrow> or_world \<Rightarrow>
     (or_world \<times> test_out list \<times> int) option" where
  "run_dup_test eo ec ec' mk w =
     (let out1 = [Stdout ''\<newline>=== DUPLICATED FILE DESCRIPTOR TEST ===\<newline>'']
      in (case sys_open my_open eo (mk O_RDONLY) w of
            (w1, Inl x) \<Rightarrow> Some (w1, out1 @ [Perror ''open'' x], -1)
          | (w1, Inr fd) \<Rightarrow>
              (case sys_dup fd w1 of
                 (w2, Inl x) \<Rightarrow>
                   map_option (\<lambda>(w3, r). (w3, out1 @ [Perror ''dup'' x], -1)) (sys_close my_release ec fd w2)
               | (w2, Inr duplicate) \<Rightarrow>
                   (let out2 = out1 @
                      [Stdout (''original fd='' @ dec fd @ '', duplicate fd='' @ dec duplicate @ [newline]),
                       Stdout ''Both descriptors refer to the same open file description.\<newline>'',
                       Stdout (''closing original fd='' @ dec fd @ [newline])]
                    in (case sys_close my_release ec fd w2 of
                          None \<Rightarrow> None
                        | Some (w3, r3) \<Rightarrow>
                            (let out3 = out2 @
                               [Stdout ''waiting before closing duplicate...\<newline>'',
                                Stdout (''closing final duplicate fd='' @ dec duplicate @ [newline])]
                             in (case sys_close my_release ec' duplicate w3 of
                                   None \<Rightarrow> None
                                 | Some (w4, r4) \<Rightarrow>
                                     Some (w4, out3 @
                                       [Stdout ''Watch dmesg: there should be one OPEN and one final RELEASE.\<newline>''],
                                       0))))))))"

definition and_then ::
    "(or_world \<times> test_out list \<times> int) option \<Rightarrow> (or_world \<Rightarrow> (or_world \<times> test_out list \<times> int) option) \<Rightarrow>
     (or_world \<times> test_out list \<times> int) option" where
  \<comment> \<open>\<open>if (test < 0) return EXIT_FAILURE;\<close>\<close>
  "and_then r next =
     (case r of
        None \<Rightarrow> None
      | Some (w, out, st) \<Rightarrow>
          if st < 0 then Some (w, out, 1)
          else map_option (\<lambda>(w', out', st'). (w', out @ out', st')) (next w))"

definition cdev_test_main ::
    "(nat \<Rightarrow> sys_env) \<Rightarrow> (string \<Rightarrow> u32 \<Rightarrow> struct_file) \<Rightarrow> string list \<Rightarrow> or_world \<Rightarrow>
     (or_world \<times> test_out list \<times> int) option" where
  "cdev_test_main E mk argv w =
     (if length argv \<noteq> 2 then Some (w, [Stderr (''usage: '' @ concat (take 1 argv) @ '' /dev/open_releaseX\<newline>'')], 1)
      else
        (let node = mk (argv ! 1)
         in and_then (run_open_test (E 0) (E 1) node O_RDONLY ''O_RDONLY'' w) (\<lambda>w.
            and_then (run_open_test (E 2) (E 3) node (O_RDWR OR O_SYNC) ''O_RDWR | O_SYNC'' w) (\<lambda>w.
            and_then (run_open_test (E 4) (E 5) node (O_WRONLY OR O_NONBLOCK) ''O_WRONLY | O_NONBLOCK'' w) (\<lambda>w.
            and_then (run_open_test (E 6) (E 7) node (O_WRONLY OR O_APPEND) ''O_WRONLY | O_APPEND'' w) (\<lambda>w.
            and_then (run_dup_test (E 8) (E 9) (E 10) node w) (\<lambda>w. Some (w, [], 0))))))))"

section \<open>The device in use\<close>

definition ptrs :: "struct_file option list \<Rightarrow> u64 list" where
  "ptrs ds = concat (map (\<lambda>d. case d of None \<Rightarrow> [] | Some f \<Rightarrow> [private_data f]) ds)"

lemma ptrs_simps [simp]:
  "ptrs [] = []" "ptrs (None # ds) = ptrs ds" "ptrs (Some f # ds) = private_data f # ptrs ds"
  "ptrs (ds @ es) = ptrs ds @ ptrs es"
  by (simp_all add: ptrs_def)

lemma ptrs_close:
  assumes "i < length ds" "ds ! i = Some f"
  shows "\<exists>xs ys. ptrs ds = xs @ private_data f # ys \<and> ptrs (ds[i := None]) = xs @ ys"
proof -
  have "ptrs ds = ptrs (take i ds) @ private_data f # ptrs (drop (Suc i) ds)"
    using assms by (subst id_take_nth_drop[OF assms(1)]) (simp del: append_take_drop_id)
  moreover have "ptrs (ds[i := None]) = ptrs (take i ds) @ ptrs (drop (Suc i) ds)"
    using assms(1) by (simp add: upd_conv_take_nth_drop)
  ultimately show ?thesis by blast
qed

text \<open>
  The store holds exactly one context for each open description, numbered by its open; the
  counters count; the calls so far have left exactly the registration and the contexts.
\<close>

definition ctxs_inv :: "orc \<Rightarrow> struct_file option list \<Rightarrow> bool" where
  "ctxs_inv s ds \<longleftrightarrow>
     distinct (ptrs ds) \<and> 0 \<notin> set (ptrs ds) \<and> dom (ctxs s) = set (ptrs ds) \<and>
     active_opens s = of_nat (length (ptrs ds)) \<and> next_open_id s = of_nat (length ds) \<and>
     (\<forall>i f ctx. i < length ds \<longrightarrow> ds ! i = Some f \<longrightarrow> ctxs s (private_data f) = Some ctx \<longrightarrow>
        ctx_id ctx = of_nat (Suc i))"

definition trace_inv :: "orc \<Rightarrow> or_obj kcall list \<Rightarrow> bool" where
  "trace_inv s cs \<longleftrightarrow>
     kruns quiet cs = Some \<lparr>locked = {}, held = insert chrdev (Ctx ` dom (ctxs s)), armed = {}\<rparr>"

lemma ptrs_member: "i < length ds \<Longrightarrow> ds ! i = Some f \<Longrightarrow> private_data f \<in> set (ptrs ds)"
  using ptrs_close[of i ds f] by auto

lemma kzalloc_unused: "kzalloc_documented A \<Longrightarrow> A (dom m) \<noteq> 0 \<Longrightarrow> m (A (dom m)) = None"
  by (auto simp: kzalloc_documented_def)

definition opened_ctx :: "sys_env \<Rightarrow> struct_file \<Rightarrow> orc \<Rightarrow> open_context" where
  "opened_ctx e f s =
     \<lparr>ctx_id = next_open_id s + 1, opened_ns = now e, ctx_minor = iminor f, ctx_flags = f_flags f,
      ctx_mode = f_mode f, opener_pid = cur_pid e, opener_comm = cur_comm e\<rparr>"

lemma logs_pointer [simp]:
  "open_log ctx (f\<lparr>private_data := p\<rparr>) e n = open_log ctx f e n"
  "release_log ctx (f\<lparr>private_data := p\<rparr>) e n = release_log ctx f e n"
  by (simp_all add: open_log_def release_log_def)

lemma my_open_eq:
  "my_open e f s =
     (let p = kzalloc e (dom (ctxs s))
      in if p = 0 then (s, f, [], [], Some ENOMEM)
         else (s\<lparr>next_open_id := next_open_id s + 1, ctxs := (ctxs s)(p \<mapsto> opened_ctx e f s),
                 active_opens := active_opens s + 1\<rparr>,
               f\<lparr>private_data := p\<rparr>, [Acquire (Ctx p)],
               open_log (opened_ctx e f s) f e (active_opens s + 1), None))"
  by (simp add: my_open_def opened_ctx_def Let_def)

lemma my_open_inv:
  assumes "ctxs_inv s ds" "trace_inv s cs" "kzalloc_documented (kzalloc e)"
    and "my_open e f s = (s', f', cs', ls', None)"
  shows "ctxs_inv s' (ds @ [Some f']) \<and> trace_inv s' (cs @ cs')"
proof -
  let ?p = "kzalloc e (dom (ctxs s))"
  have nz: "?p \<noteq> 0" using assms(4) by (auto simp: my_open_eq Let_def split: if_splits)
  then have r: "s' = s\<lparr>next_open_id := next_open_id s + 1, ctxs := (ctxs s)(?p \<mapsto> opened_ctx e f s),
      active_opens := active_opens s + 1\<rparr>" "private_data f' = ?p" "cs' = [Acquire (Ctx ?p)]"
    using assms(4) by (auto simp: my_open_eq Let_def)
  have fresh: "?p \<notin> dom (ctxs s)" using kzalloc_unused[OF assms(3) nz] by (simp add: domIff)
  have old: "ctx_id c = of_nat (Suc j)"
    if "j < length ds" "ds ! j = Some g" "ctxs s (private_data g) = Some c" for j g c
    using assms(1) that unfolding ctxs_inv_def by blast
  have "ctx_id c = of_nat (Suc j)"
    if j: "j < length (ds @ [Some f'])" "(ds @ [Some f']) ! j = Some g" "ctxs s' (private_data g) = Some c" for j g c
  proof (cases "j < length ds")
    case True
    then have g: "ds ! j = Some g" using j(2) by (simp add: nth_append)
    then have "private_data g \<noteq> ?p" using ptrs_member[OF True g] assms(1) fresh by (auto simp: ctxs_inv_def)
    then have "ctxs s (private_data g) = Some c" using j(3) by (simp add: r)
    with True g show ?thesis by (rule old)
  next
    case False
    then have "j = length ds" "g = f'" using j(1,2) by (auto simp: nth_append)
    moreover from this have "c = opened_ctx e f s" using j(3) r(2) by (simp add: r(1))
    ultimately show ?thesis using assms(1) by (simp add: opened_ctx_def ctxs_inv_def)
  qed
  moreover have "trace_inv s' (cs @ cs')"
    using assms(2) fresh by (auto simp: trace_inv_def r)
  ultimately show ?thesis
    using assms(1) fresh nz unfolding ctxs_inv_def by (simp add: r)
qed

lemma my_release_inv:
  assumes "ctxs_inv s ds" "trace_inv s cs" "i < length ds" "ds ! i = Some f"
  shows "\<exists>s' f' cs' ls'. my_release e f s = Some (s', f', cs', ls') \<and>
    ctxs_inv s' (ds[i := None]) \<and> trace_inv s' (cs @ cs')"
proof -
  obtain xs ys where p: "ptrs ds = xs @ private_data f # ys" "ptrs (ds[i := None]) = xs @ ys"
    using ptrs_close[OF assms(3,4)] by blast
  have d: "distinct (ptrs ds)" "0 \<notin> set (ptrs ds)" "dom (ctxs s) = set (ptrs ds)"
    "active_opens s = of_nat (length (ptrs ds))" "next_open_id s = of_nat (length ds)"
    and ids: "\<And>j g c. j < length ds \<Longrightarrow> ds ! j = Some g \<Longrightarrow> ctxs s (private_data g) = Some c \<Longrightarrow>
      ctx_id c = of_nat (Suc j)"
    using assms(1) by (auto simp: ctxs_inv_def)
  have "private_data f \<in> dom (ctxs s)" by (simp add: d(3) p(1))
  then obtain ctx where ctx: "ctxs s (private_data f) = Some ctx" by blast
  have nz: "private_data f \<noteq> 0" using d(2) by (auto simp: p(1))
  let ?s = "s\<lparr>active_opens := active_opens s - 1, ctxs := (ctxs s)(private_data f := None)\<rparr>"
  obtain f' ls' where r: "my_release e f s = Some (?s, f', [Release (Ctx (private_data f))], ls')"
    using ctx nz by (simp add: my_release_def Let_def)
  have "ctx_id c = of_nat (Suc j)"
    if "j < length ds" "ds[i := None] ! j = Some g" "ctxs ?s (private_data g) = Some c" for j g c
  proof (rule ids[OF that(1)])
    show "ds ! j = Some g" using that(1,2) by (cases "j = i") simp_all
    show "ctxs s (private_data g) = Some c" using that(3) by (simp split: if_splits)
  qed
  then have "ctxs_inv ?s (ds[i := None])"
    using d by (auto simp: ctxs_inv_def p)
  moreover have "trace_inv ?s (cs @ [Release (Ctx (private_data f))])"
  proof -
    have "insert chrdev (Ctx ` dom (ctxs s)) - {Ctx (private_data f)} = insert chrdev (Ctx ` dom (ctxs ?s))"
      by auto
    then show ?thesis
      using assms(2) ctx by (auto simp: trace_inv_def)
  qed
  ultimately show ?thesis using r by blast
qed

definition or_drv :: "orc \<Rightarrow> struct_file option list \<Rightarrow> or_obj kcall list \<Rightarrow> bool" where
  "or_drv s ds cs \<longleftrightarrow> ctxs_inv s ds \<and> trace_inv s cs"

interpretation or_dev: char_device my_open my_release or_drv "\<lambda>e. kzalloc_documented (kzalloc e)"
proof
  fix s ds cs e f s' f' cs' ls'
  assume "or_drv s ds cs" "kzalloc_documented (kzalloc e)"
    "my_open e (fresh_file f) s = (s', f', cs', ls', None)"
  then show "or_drv s' (ds @ [Some f']) (cs @ cs')"
    using my_open_inv[of s ds cs e "fresh_file f" s' f' cs' ls'] by (simp only: or_drv_def simp_thms)
next
  fix s ds cs e f s' f' cs' ls' x
  assume "or_drv s ds cs" "my_open e (fresh_file f) s = (s', f', cs', ls', Some x)"
  then show "or_drv s' ds (cs @ cs')"
    by (auto simp: my_open_eq Let_def split: if_splits)
next
  fix s ds cs i f e
  assume "or_drv s ds cs" "i < length ds" "ds ! i = Some f"
  then show "\<exists>s' f' cs' ls'. my_release e f s = Some (s', f', cs', ls') \<and> or_drv s' (ds[i := None]) (cs @ cs')"
    using my_release_inv[of s ds cs i f e] by (simp only: or_drv_def simp_thms)
qed

lemma or_inv_iff:
  "or_dev.dev_inv w \<longleftrightarrow>
     fds_inv (fdt w) (descrs w) \<and> ctxs_inv (drv w) (descrs w) \<and> trace_inv (drv w) (calls w)"
  by (simp add: or_dev.dev_inv_def or_drv_def)

definition loaded :: "s32 \<Rightarrow> fd_slot list \<Rightarrow> or_world" where
  \<comment> \<open>after a load, for a process with these other descriptors\<close>
  "loaded reg fds =
     (let (s, cs, r) = open_release_cdev_init reg orc_static in start_world s cs fds)"

lemma loaded_inv:
  assumes "0 \<le> sint reg" "no_descr fds"
  shows "or_dev.dev_inv (loaded reg fds)"
proof -
  have "or_drv (orc_static\<lparr>major := reg\<rparr>) [] [Acquire chrdev]"
    by (simp add: or_drv_def orc_static_def ctxs_inv_def trace_inv_def quiet_def)
  from or_dev.inv_start[OF assms(2) this] assms(1) show ?thesis
    by (simp add: loaded_def open_release_cdev_init_def Let_def orc_static_def)
qed

section \<open>Opens that are closed again\<close>

definition pair_log :: "sys_env \<Rightarrow> sys_env \<Rightarrow> struct_file \<Rightarrow> orc \<Rightarrow> string list" where
  "pair_log eo ec f s =
     (let f0 = fresh_file f; ctx = opened_ctx eo f0 s
      in open_log ctx f0 eo (active_opens s + 1) @ release_log ctx f0 ec (active_opens s))"

definition after_pair :: "sys_env \<Rightarrow> sys_env \<Rightarrow> struct_file \<Rightarrow> or_world \<Rightarrow> or_world" where
  "after_pair eo ec f w =
     (let p = kzalloc eo (dom (ctxs (drv w)))
      in w\<lparr>drv := (drv w)\<lparr>next_open_id := next_open_id (drv w) + 1\<rparr>, descrs := descrs w @ [None],
           calls := calls w @ [Acquire (Ctx p), Release (Ctx p)],
           klog := klog w @ pair_log eo ec f (drv w)\<rparr>)"

lemma sys_open_ok:
  assumes "free_fd (fdt w) = Some fd" "kzalloc e (dom (ctxs (drv w))) = p" "p \<noteq> 0"
  shows "sys_open my_open e f w =
    (w\<lparr>drv := (drv w)\<lparr>next_open_id := next_open_id (drv w) + 1,
               ctxs := (ctxs (drv w))(p \<mapsto> opened_ctx e (fresh_file f) (drv w)),
               active_opens := active_opens (drv w) + 1\<rparr>,
       fdt := (fdt w)[fd := Descr (length (descrs w))],
       descrs := descrs w @ [Some (fresh_file f\<lparr>private_data := p\<rparr>)],
       calls := calls w @ [Acquire (Ctx p)],
       klog := klog w @ open_log (opened_ctx e (fresh_file f) (drv w)) (fresh_file f) e (active_opens (drv w) + 1)\<rparr>,
     Inr fd)"
  using assms by (simp add: sys_open_def my_open_eq Let_def)

lemma new_descr: "or_dev.dev_inv w \<Longrightarrow> Descr (length (descrs w)) \<notin> set (fdt w)"
  by (simp add: or_inv_iff fds_inv_def)

lemma open_close:
  assumes "or_dev.dev_inv w" "free_fd (fdt w) = Some fd"
    "kzalloc_documented (kzalloc eo)" "kzalloc eo (dom (ctxs (drv w))) \<noteq> 0"
  shows "\<exists>w1. sys_open my_open eo f w = (w1, Inr fd) \<and> sys_close my_release ec fd w1 = Some (after_pair eo ec f w, None)"
proof -
  let ?p = "kzalloc eo (dom (ctxs (drv w)))"
  have u: "(ctxs (drv w))(?p := None) = ctxs (drv w)"
    using kzalloc_unused[OF assms(3,4)] by (rule fun_upd_idem)
  have t: "(fdt w)[fd := Free] = fdt w" "fd < length (fdt w)"
    using free_fd_Some[OF assms(2)] by (metis list_update_id)+
  show ?thesis
    unfolding sys_open_ok[OF assms(2) refl assms(4)]
    using t u new_descr[OF assms(1)] assms(4)
    by (simp add: sys_close_def descr_of_def my_release_def after_pair_def pair_log_def opened_ctx_def Let_def)
qed

lemma after_pair_inv:
  assumes "or_dev.dev_inv w" "free_fd (fdt w) = Some fd"
    "kzalloc_documented (kzalloc eo)" "kzalloc eo (dom (ctxs (drv w))) \<noteq> 0"
  shows "or_dev.dev_inv (after_pair eo ec f w)"
proof -
  obtain w1 where o: "sys_open my_open eo f w = (w1, Inr fd)"
    and c: "sys_close my_release ec fd w1 = Some (after_pair eo ec f w, None)"
    using open_close[OF assms] by blast
  have "or_dev.dev_inv w1" using or_dev.inv_open[OF assms(1,3), of f] o by simp
  from or_dev.inv_close[OF this, of ec fd] c show ?thesis by simp
qed

lemma run_open_test_ok:
  assumes "or_dev.dev_inv w" "free_fd (fdt w) = Some fd"
    "kzalloc_documented (kzalloc eo)" "kzalloc eo (dom (ctxs (drv w))) \<noteq> 0"
  shows "\<exists>out. run_open_test eo ec mk flags name w = Some (after_pair eo ec (mk flags) w, out, 0) \<and>
    list_all on_stdout out"
  using open_close[OF assms, of "mk flags" ec] by (auto simp: run_open_test_def Let_def)

text \<open>
  The duplicate keeps the file: nothing reaches the driver between the open and the last
  close.
\<close>

lemma open_dup_close:
  assumes "or_dev.dev_inv w" "free_fd (fdt w) = Some fd" "free_fd ((fdt w)[fd := Elsewhere]) = Some fd'"
    "kzalloc_documented (kzalloc eo)" "kzalloc eo (dom (ctxs (drv w))) \<noteq> 0"
  shows "\<exists>w1 w2 w3. sys_open my_open eo f w = (w1, Inr fd) \<and> sys_dup fd w1 = (w2, Inr fd') \<and>
    sys_close my_release ec fd w2 = Some (w3, None) \<and> drv w3 = drv w1 \<and> klog w3 = klog w1 \<and>
    sys_close my_release ec' fd' w3 = Some (after_pair eo ec' f w, None)"
proof -
  let ?p = "kzalloc eo (dom (ctxs (drv w)))" and ?n = "length (descrs w)"
  have u: "(ctxs (drv w))(?p := None) = ctxs (drv w)"
    using kzalloc_unused[OF assms(4,5)] by (rule fun_upd_idem)
  have t: "fdt w ! fd = Free" "fd < length (fdt w)" using free_fd_Some[OF assms(2)] by simp_all
  have t': "fd' \<noteq> fd" "fd' < length (fdt w)" "fdt w ! fd' = Free"
    using free_fd_Some[OF assms(3)] t by (auto simp: nth_list_update split: if_splits)
  have free: "free_fd (fds[fd := Descr i]) = free_fd (fds[fd := Elsewhere])" for fds i
    by (induction fds arbitrary: fd) (auto split: nat.split)
  let ?w1 = "fst (sys_open my_open eo f w)"
  have 1: "sys_open my_open eo f w = (?w1, Inr fd)" by (simp add: sys_open_ok[OF assms(2) refl assms(5)])
  let ?w2 = "?w1\<lparr>fdt := (fdt w)[fd := Descr ?n, fd' := Descr ?n]\<rparr>"
  have 2: "sys_dup fd ?w1 = (?w2, Inr fd')"
    using t free[of "fdt w" ?n] assms(3)
    by (simp add: sys_open_ok[OF assms(2) refl assms(5)] sys_dup_def descr_of_def)
  let ?w3 = "?w1\<lparr>fdt := (fdt w)[fd' := Descr ?n]\<rparr>"
  have f3: "(fdt w)[fd := Descr ?n, fd' := Descr ?n, fd := Free] = (fdt w)[fd' := Descr ?n]"
    using t t' by (metis list_update_id list_update_overwrite list_update_swap)
  have m3: "Descr ?n \<in> set ((fdt w)[fd' := Descr ?n])" using t'(2) by (simp add: set_update_memI)
  have 3: "sys_close my_release ec fd ?w2 = Some (?w3, None)"
    using t t' m3 by (simp add: sys_close_def descr_of_def f3 nth_list_update Let_def)
  have f4: "(fdt w)[fd' := Free] = fdt w" using t' by (metis list_update_id)
  have 4: "sys_close my_release ec' fd' ?w3 = Some (after_pair eo ec' f w, None)"
    using t' u new_descr[OF assms(1)] assms(5)
    unfolding sys_open_ok[OF assms(2) refl assms(5)]
    by (simp add: sys_close_def descr_of_def f4 my_release_def after_pair_def pair_log_def opened_ctx_def Let_def)
  show ?thesis using 1 2 3 4 by (intro exI[of _ ?w1] exI[of _ ?w2] exI[of _ ?w3]) simp
qed

lemma run_dup_test_ok:
  assumes "or_dev.dev_inv w" "free_fd (fdt w) = Some fd" "free_fd ((fdt w)[fd := Elsewhere]) = Some fd'"
    "kzalloc_documented (kzalloc eo)" "kzalloc eo (dom (ctxs (drv w))) \<noteq> 0"
  shows "\<exists>out. run_dup_test eo ec ec' mk w = Some (after_pair eo ec' (mk O_RDONLY) w, out, 0) \<and>
    list_all on_stdout out"
  using open_dup_close[OF assms, of "mk O_RDONLY" ec ec'] by (auto simp: run_dup_test_def Let_def)

text \<open>When the last descriptor is closed, in whatever order, nothing is left.\<close>

lemma closed_clean:
  assumes "or_dev.dev_inv w" "no_descr (fdt w)"
  shows "ctxs (drv w) = Map.empty \<and> active_opens (drv w) = 0 \<and>
    kruns quiet (calls w @ open_release_cdev_exit) = Some quiet"
proof -
  have "ptrs (descrs w) = []" using or_dev.closed_all_None[OF assms] by (auto simp: ptrs_def)
  with assms(1) have "ctxs (drv w) = Map.empty" "active_opens (drv w) = 0" "trace_inv (drv w) (calls w)"
    by (simp_all add: or_inv_iff ctxs_inv_def)
  then show ?thesis
    by (simp add: trace_inv_def open_release_cdev_exit_def quiet_def)
qed

section \<open>Properties\<close>

text \<open>C5: contexts are exact. Whatever a process does with descriptors of the device from the load
  on, no release touches memory that is not a live context; the descriptors refer to exactly
  the open descriptions; each open description has a context of its own, numbered by its
  open; no other context is allocated; and \<open>active_opens\<close> counts them. When every descriptor has been
  closed, in whatever order and however often duplicated, no context is left and unloading leaves
  nothing behind (the kernel does not unload a module whose files are open).\<close>

theorem contexts_exact:
  assumes "0 \<le> sint reg" "no_descr fds" "\<forall>p \<in> set ps. or_dev.op_ok p"
  shows "\<exists>w. fd_runs my_open my_release (loaded reg fds) ps = Some w \<and>
    (let live = ptrs (descrs w)
     in (\<forall>i. Descr i \<in> set (fdt w) \<longleftrightarrow> i < length (descrs w) \<and> descrs w ! i \<noteq> None) \<and>
        (\<forall>i < length (descrs w). case descrs w ! i of None \<Rightarrow> True
           | Some f \<Rightarrow> map_option ctx_id (ctxs (drv w) (private_data f)) = Some (of_nat (Suc i))) \<and>
        distinct live \<and> dom (ctxs (drv w)) = set live \<and>
        active_opens (drv w) = of_nat (length live) \<and>
        next_open_id (drv w) = of_nat (length (descrs w)) \<and>
        (if no_descr (fdt w)
         then ctxs (drv w) = Map.empty \<and> active_opens (drv w) = 0 \<and>
           kruns quiet (calls w @ open_release_cdev_exit) = Some quiet
         else True))"
proof -
  obtain w where w: "fd_runs my_open my_release (loaded reg fds) ps = Some w" "or_dev.dev_inv w"
    using or_dev.runs_inv[OF loaded_inv[OF assms(1,2)] assms(3)] by blast
  have d: "ctxs_inv (drv w) (descrs w)" "fds_inv (fdt w) (descrs w)" using w(2) by (simp_all add: or_inv_iff)
  have "map_option ctx_id (ctxs (drv w) (private_data f)) = Some (of_nat (Suc i))"
    if "i < length (descrs w)" "descrs w ! i = Some f" for i f
  proof -
    have "private_data f \<in> dom (ctxs (drv w))"
      using ptrs_member[OF that] d(1) by (simp add: ctxs_inv_def)
    then obtain ctx where c: "ctxs (drv w) (private_data f) = Some ctx" by blast
    with that d(1) have "ctx_id ctx = of_nat (Suc i)" unfolding ctxs_inv_def by blast
    with c show ?thesis by simp
  qed
  with d w(1) closed_clean[OF w(2)] show ?thesis
    by (auto simp: ctxs_inv_def fds_inv_def Let_def split: option.split)
qed

theorem contexts_exact_witness:
  "let e = \<lparr>kzalloc = ref_kzalloc, now = 0, cur_pid = 1, cur_comm = ''sh''\<rparr>;
       f = \<lparr>imajor = 240, iminor = 0, f_pos = 0, f_mode = 1, f_flags = 0, private_data = 0\<rparr>
   in map_option (\<lambda>w. (ctxs (drv w), kruns quiet (calls w @ open_release_cdev_exit)))
        (fd_runs my_open my_release (loaded 240 [Free, Free]) [Open e f, Dup 0, Close e 0, Close e 1]) =
      Some (Map.empty, Some quiet)"
proof -
  let ?e = "\<lparr>kzalloc = ref_kzalloc, now = 0, cur_pid = 1, cur_comm = ''sh''\<rparr>"
  let ?f = "\<lparr>imajor = 240, iminor = 0, f_pos = 0, f_mode = 1, f_flags = 0, private_data = 0\<rparr>"
  let ?ps = "[Open ?e ?f, Dup 0, Close ?e 0, Close ?e 1]"
  have ok: "\<forall>p \<in> set ?ps. or_dev.op_ok p" by (simp add: ref_kzalloc_documented)
  have s: "(0 :: int) \<le> sint (240 :: s32)" "no_descr [Free, Free]" by (simp_all add: no_descr_def)
  have "map_option fdt (fd_runs my_open my_release (loaded 240 [Free, Free]) ?ps) = Some [Free, Free]"
    by (simp add: loaded_def start_world_def open_release_cdev_init_def orc_static_def sys_open_def my_open_def
        sys_dup_def sys_close_def descr_of_def my_release_def ref_kzalloc_def fresh_file_def Let_def)
  then obtain w where w: "fd_runs my_open my_release (loaded 240 [Free, Free]) ?ps = Some w" "fdt w = [Free, Free]"
    by auto
  then have "no_descr (fdt w)" by (simp add: no_descr_def)
  with contexts_exact[OF s ok] w(1) show ?thesis by (auto simp: Let_def)
qed

text \<open>C25: the test program. With two free descriptors and memory for a context, it succeeds without
  a complaint, and
  the kernel log has grown by five pairs of an OPEN and its RELEASE with consecutive numbers,
  the one of the duplicated descriptor included; descriptors, contexts and \<open>active_opens\<close>
  are as before.\<close>

theorem cdev_test_log:
  assumes "or_dev.dev_inv w" "free_fd (fdt w) = Some fd" "free_fd ((fdt w)[fd := Elsewhere]) = Some fd'"
    and "\<forall>n. kzalloc_documented (kzalloc (E n)) \<and> kzalloc (E n) (dom (ctxs (drv w))) \<noteq> 0"
  shows "\<exists>w' out. cdev_test_main E mk [prog, path] w = Some (w', out, 0) \<and> list_all on_stdout out \<and>
    drv w' = (drv w)\<lparr>next_open_id := next_open_id (drv w) + 5\<rparr> \<and> fdt w' = fdt w \<and>
    klog w' = klog w @
      (let pair = (\<lambda>k a b fl. pair_log (E a) (E b) (mk path fl) ((drv w)\<lparr>next_open_id := next_open_id (drv w) + k\<rparr>))
       in pair 0 0 1 O_RDONLY @ pair 1 2 3 (O_RDWR OR O_SYNC) @ pair 2 4 5 (O_WRONLY OR O_NONBLOCK) @
          pair 3 6 7 (O_WRONLY OR O_APPEND) @ pair 4 8 10 O_RDONLY)"
proof -
  let ?w = "\<lambda>a b fl. after_pair (E a) (E b) (mk path fl)"
  let ?w1 = "?w 0 1 O_RDONLY w" and ?w2 = "?w 2 3 (O_RDWR OR O_SYNC) (?w 0 1 O_RDONLY w)"
  let ?w3 = "?w 4 5 (O_WRONLY OR O_NONBLOCK) ?w2"
  let ?w4 = "?w 6 7 (O_WRONLY OR O_APPEND) ?w3"
  have same: "fdt (after_pair eo ec f v) = fdt v" "ctxs (drv (after_pair eo ec f v)) = ctxs (drv v)" for eo ec f v
    by (simp_all add: after_pair_def Let_def)
  have K: "kzalloc_documented (kzalloc (E n))" "kzalloc (E n) (dom (ctxs (drv w))) \<noteq> 0" for n
    using assms(4) by blast+
  have i: "or_dev.dev_inv ?w1" "or_dev.dev_inv ?w2" "or_dev.dev_inv ?w3" "or_dev.dev_inv ?w4"
    using assms(1,2) K by (simp_all add: after_pair_inv same)
  have t: "\<exists>out. run_open_test (E a) (E b) (mk path) fl name v = Some (?w a b fl v, out, 0) \<and>
      list_all on_stdout out"
    if "or_dev.dev_inv v" "fdt v = fdt w" "ctxs (drv v) = ctxs (drv w)" for a b fl name v
    using run_open_test_ok[OF that(1)] assms(2) K that by simp
  have d: "\<exists>out. run_dup_test (E 8) (E 9) (E 10) (mk path) ?w4 = Some (?w 8 10 O_RDONLY ?w4, out, 0) \<and>
      list_all on_stdout out"
    using run_dup_test_ok[OF i(4)] assms(2,3) K by (simp add: same)
  obtain o1 o2 o3 o4 o5 where
    "run_open_test (E 0) (E 1) (mk path) O_RDONLY ''O_RDONLY'' w = Some (?w1, o1, 0)"
    "run_open_test (E 2) (E 3) (mk path) (O_RDWR OR O_SYNC) ''O_RDWR | O_SYNC'' ?w1 = Some (?w2, o2, 0)"
    "run_open_test (E 4) (E 5) (mk path) (O_WRONLY OR O_NONBLOCK) ''O_WRONLY | O_NONBLOCK'' ?w2 = Some (?w3, o3, 0)"
    "run_open_test (E 6) (E 7) (mk path) (O_WRONLY OR O_APPEND) ''O_WRONLY | O_APPEND'' ?w3 = Some (?w4, o4, 0)"
    "run_dup_test (E 8) (E 9) (E 10) (mk path) ?w4 = Some (?w 8 10 O_RDONLY ?w4, o5, 0)"
    and o: "list_all on_stdout (o1 @ o2 @ o3 @ o4 @ o5)"
    using t[OF assms(1) refl refl] t[OF i(1)] t[OF i(2)] t[OF i(3)] d unfolding same list_all_append by metis
  then have "cdev_test_main E mk [prog, path] w =
      Some (?w 8 10 O_RDONLY ?w4, o1 @ o2 @ o3 @ o4 @ o5, 0)"
    unfolding cdev_test_main_def by (simp add: and_then_def Let_def)
  with o show ?thesis by (simp add: after_pair_def Let_def add.assoc)
qed

theorem cdev_test_log_witness:
  "let E = (\<lambda>n. \<lparr>kzalloc = ref_kzalloc, now = of_nat n, cur_pid = 1, cur_comm = ''cdev_test''\<rparr>);
       mk = (\<lambda>path fl. \<lparr>imajor = 240, iminor = 0, f_pos = 0, f_mode = fl + 1, f_flags = fl, private_data = 0\<rparr>)
   in map_option (\<lambda>(w, out, st). (st, next_open_id (drv w), active_opens (drv w)))
        (cdev_test_main E mk [''cdev_test'', ''/dev/open_release0''] (loaded 240 [Elsewhere, Free, Free])) =
      Some (0, 5, 0)"
proof -
  let ?E = "\<lambda>n. \<lparr>kzalloc = ref_kzalloc, now = of_nat n, cur_pid = 1, cur_comm = ''cdev_test''\<rparr>"
  let ?mk = "\<lambda>path fl. \<lparr>imajor = 240, iminor = 0, f_pos = 0, f_mode = fl + 1, f_flags = fl, private_data = 0\<rparr>"
  let ?w = "loaded 240 [Elsewhere, Free, Free]"
  have w: "fdt ?w = [Elsewhere, Free, Free]" "ctxs (drv ?w) = Map.empty"
    "next_open_id (drv ?w) = 0" "active_opens (drv ?w) = 0"
    by (simp_all add: loaded_def start_world_def open_release_cdev_init_def orc_static_def Let_def)
  have "\<forall>n. kzalloc_documented (kzalloc (?E n)) \<and> kzalloc (?E n) (dom (ctxs (drv ?w))) \<noteq> 0"
    by (simp add: w ref_kzalloc_documented) (simp add: ref_kzalloc_def)
  note log = cdev_test_log[OF loaded_inv _ _ this, of 1 2 ?mk "''cdev_test''" "''/dev/open_release0''"]
  have "\<exists>w' out. cdev_test_main ?E ?mk [''cdev_test'', ''/dev/open_release0''] ?w = Some (w', out, 0) \<and>
      drv w' = (drv ?w)\<lparr>next_open_id := next_open_id (drv ?w) + 5\<rparr>"
    by (rule exE[OF log], simp, simp add: no_descr_def, simp add: w, simp add: w)
      (elim exE conjE, rule exI, rule exI, rule conjI, assumption, assumption)
  then show ?thesis unfolding Let_def by (auto simp: w)
qed

end
