(* ===== verification/DebugfsSysfs.thy ===== *)
theory DebugfsSysfs
  imports KernelAPI Chunked_Read Step_Systems "HOL-Library.Multiset"
begin

text \<open>
  \<^verbatim>\<open>16_debugfs_sysfs/debugfs_sysfs.c\<close>: two variables behind sysfs files that take a mutex, and
  behind debugfs files that are bound to the variables and do not. First the files as they
  act when nothing else runs, then their critical sections step by step.
\<close>

section \<open>State\<close>

datatype ds_obj = data_lock | demo_kobj | sysfs_attr_group | demo_debugfs_dir

record ds =
  counter :: u32
  enabled :: bool

definition ds_static :: ds where
  "ds_static = \<lparr>counter = 0, enabled = True\<rparr>"

record task =
  cur_comm :: string
  cur_pid :: int

definition by_task :: "task \<Rightarrow> string" where
  "by_task t = '' by '' @ cur_comm t @ ''['' @ fmt_d (cur_pid t) @ '']''"

abbreviation section_calls :: "ds_obj kcall list" where
  "section_calls \<equiv> [Lock data_lock, Unlock data_lock]"

section \<open>sysfs\<close>

definition counter_show :: "ds \<Rightarrow> string \<times> ds_obj kcall list" where
  "counter_show s = (let value = counter s in (sysfs_emit (fmt_u value @ [newline]), section_calls))"

definition enabled_show :: "ds \<Rightarrow> string \<times> ds_obj kcall list" where
  "enabled_show s = (let value = enabled s in (sysfs_emit (fmt_b value @ [newline]), section_calls))"

definition enabled_store ::
    "kstr \<Rightarrow> task \<Rightarrow> string \<Rightarrow> ds \<Rightarrow> ds \<times> ds_obj kcall list \<times> string list \<times> (errno + nat)" where
  "enabled_store K t buf s =
     (case kstrtobool K buf of
        Inl x \<Rightarrow> (s, [], [], Inl x)
      | Inr value \<Rightarrow>
          (s\<lparr>enabled := value\<rparr>, section_calls,
           [''sysfs: enabled='' @ fmt_b value @ by_task t], Inr (length buf)))"

definition increment_store ::
    "task \<Rightarrow> string \<Rightarrow> ds \<Rightarrow> ds \<times> ds_obj kcall list \<times> string list \<times> (errno + nat)" where
  "increment_store t buf s =
     (let s1 = s\<lparr>counter := counter s + 1\<rparr>; value = counter s1
      in (s1, section_calls,
          [''sysfs: increment -> counter='' @ fmt_u value @ by_task t], Inr (length buf)))"

section \<open>debugfs\<close>

definition info_text :: "ds \<Rightarrow> string" where
  "info_text s =
     (let c = counter s; e = enabled s
      in scnprintf 128 (''counter='' @ fmt_u c @ ''\<newline>enabled='' @ fmt_b e
           @ ''\<newline>NOTE: this file has no ABI stability guarantee\<newline>''))"

definition info_read :: "srfb \<Rightarrow> nat \<Rightarrow> int \<Rightarrow> ds \<Rightarrow> (errno + (string \<times> int)) \<times> ds_obj kcall list" where
  "info_read srfb n ppos s = (srfb n ppos (info_text s), section_calls)"

text \<open>A write to a file that \<open>debugfs_create_u32\<close> or \<open>debugfs_create_bool\<close> binds to a variable.\<close>

definition counter_raw_write :: "u32 \<Rightarrow> ds \<Rightarrow> ds" where
  "counter_raw_write v s = s\<lparr>counter := v\<rparr>"

definition enabled_raw_write :: "bool \<Rightarrow> ds \<Rightarrow> ds" where
  "enabled_raw_write v s = s\<lparr>enabled := v\<rparr>"

section \<open>Loading and unloading\<close>

text \<open>
  \<open>e_debugfs\<close>: whether there is a debugfs to create the directory in; when there is none the
  create and remove helpers do nothing.
\<close>

record ds_env =
  e_kobj :: bool
  e_group :: "errno option"
  e_debugfs :: bool

definition debugfs_sysfs_init :: "ds_env \<Rightarrow> ds_obj kcall list \<times> errno option" where
  "debugfs_sysfs_init e =
     (if \<not> e_kobj e then ([], Some ENOMEM)
      else
        (case e_group e of
           Some x \<Rightarrow> ([Acquire demo_kobj, Release demo_kobj], Some x)
         | None \<Rightarrow> ([Acquire demo_kobj, Acquire sysfs_attr_group] @
                    (if e_debugfs e then [Acquire demo_debugfs_dir] else []), None)))"

definition debugfs_sysfs_exit :: "ds_env \<Rightarrow> ds_obj kcall list" where
  "debugfs_sysfs_exit e =
     (if e_debugfs e then [Release demo_debugfs_dir] else []) @
     [Release sysfs_attr_group, Release demo_kobj]"

section \<open>The files as a machine\<close>

datatype ds_op =
    CounterShow | EnabledShow | EnabledStore task string | IncrementStore task string
  | InfoRead nat int | CounterRaw u32 | EnabledRaw bool

fun ds_serve :: "kstr \<Rightarrow> srfb \<Rightarrow> ds \<Rightarrow> ds_op \<Rightarrow> ds \<times> ds_obj kcall list" where
  "ds_serve K srfb s CounterShow = (s, snd (counter_show s))"
| "ds_serve K srfb s EnabledShow = (s, snd (enabled_show s))"
| "ds_serve K srfb s (EnabledStore t buf) = (let (s1, cs, ls, r) = enabled_store K t buf s in (s1, cs))"
| "ds_serve K srfb s (IncrementStore t buf) = (let (s1, cs, ls, r) = increment_store t buf s in (s1, cs))"
| "ds_serve K srfb s (InfoRead n pos) = (s, snd (info_read srfb n pos s))"
| "ds_serve K srfb s (CounterRaw v) = (counter_raw_write v s, [])"
| "ds_serve K srfb s (EnabledRaw v) = (enabled_raw_write v s, [])"

lemma ds_serve_calls: "snd (ds_serve K srfb s p) = [] \<or> snd (ds_serve K srfb s p) = section_calls"
  by (cases p)
    (auto simp: counter_show_def enabled_show_def enabled_store_def increment_store_def info_read_def
      Let_def split: sum.split)

definition ds_live :: "ds_env \<times> ds \<Rightarrow> ds_obj kworld \<Rightarrow> bool" where
  "ds_live z w \<longleftrightarrow> locked w = {} \<and> armed w = {} \<and>
     held w = {demo_kobj, sysfs_attr_group} \<union> (if e_debugfs (fst z) then {demo_debugfs_dir} else {})"

definition ds_load :: "ds_env \<Rightarrow> (ds_env \<times> ds) \<times> ds_obj kcall list \<times> errno option" where
  "ds_load e = (let (t, r) = debugfs_sysfs_init e in ((e, ds_static), t, r))"

definition ds_handle ::
    "kstr \<Rightarrow> srfb \<Rightarrow> ds_env \<times> ds \<Rightarrow> ds_op \<Rightarrow> (ds_env \<times> ds) \<times> ds_obj kcall list" where
  "ds_handle K srfb z p = (let (s', t) = ds_serve K srfb (snd z) p in ((fst z, s'), t))"

interpretation ds_session: module_session ds_load "ds_handle K srfb" "\<lambda>z. debugfs_sysfs_exit (fst z)"
    ds_live for K srfb
proof
  fix e s t x
  assume "ds_load e = (s, t, Some x)"
  then show "kruns quiet t = Some quiet"
    by (auto simp: ds_load_def debugfs_sysfs_init_def quiet_def split: if_splits option.splits)
next
  fix e s t
  assume "ds_load e = (s, t, None)"
  then show "\<exists>w. kruns quiet t = Some w \<and> ds_live s w"
    by (auto simp: ds_load_def debugfs_sysfs_init_def ds_live_def split: if_splits option.splits)
next
  fix z w p z' t
  assume "ds_live z w" "ds_handle K srfb z p = (z', t)"
  then show "\<exists>w'. kruns w t = Some w' \<and> ds_live z' w'"
    using ds_serve_calls[of K srfb "snd z" p] by (auto simp: ds_handle_def ds_live_def split: prod.splits)
next
  fix z w
  assume "ds_live z w"
  then show "kruns w (debugfs_sysfs_exit (fst z)) = Some quiet"
    by (auto simp: ds_live_def debugfs_sysfs_exit_def quiet_iff)
qed

section \<open>The critical sections step by step\<close>

text \<open>
  A task that has written or read a file: a sysfs file or \<open>info\<close>, in front of, in, or past its
  section under \<open>data_lock\<close>; or a raw debugfs file, whose access is one store without the lock.
  \<open>Loaded v\<close> has read \<open>counter\<close> for \<open>counter++\<close>, \<open>Stored v\<close> has stored it and not yet
  read it again for \<open>value = counter\<close>, \<open>Half_info c\<close> has read \<open>counter\<close> but not
  \<open>enabled\<close>; an outcome is what the task prints.
\<close>

datatype request = Increment | Set_enabled bool | Show_counter | Show_info

datatype outcome = Incremented u32 | Was_set | Counter_is u32 | Info_is u32 bool

datatype access =
    Want request | Held request | Loaded u32 | Stored u32 | Half_info u32 | Leaving outcome | Done outcome
  | Raw_counter u32 | Raw_enabled bool | Raw_done

record ds_sys = ds +
  owner :: "nat option"
  tasks :: "access list"

abbreviation at :: "ds_sys \<Rightarrow> nat \<Rightarrow> access \<Rightarrow> bool" where
  "at s i a \<equiv> i < length (tasks s) \<and> tasks s ! i = a"

abbreviation go :: "nat \<Rightarrow> access \<Rightarrow> ds_sys \<Rightarrow> ds_sys" where
  "go i a s \<equiv> s\<lparr>tasks := (tasks s)[i := a]\<rparr>"

inductive section_step :: "nat \<Rightarrow> ds_sys \<Rightarrow> ds_sys \<Rightarrow> bool" where
  lock: "at s i (Want r) \<Longrightarrow> owner s = None \<Longrightarrow>
    section_step i s (go i (Held r) (s\<lparr>owner := Some i\<rparr>))"
| inc_load: "at s i (Held Increment) \<Longrightarrow> section_step i s (go i (Loaded (counter s)) s)"
| inc_store: "at s i (Loaded v) \<Longrightarrow>
    section_step i s (go i (Stored (v + 1)) (s\<lparr>counter := v + 1\<rparr>))"
| inc_value: "at s i (Stored v) \<Longrightarrow>
    section_step i s (go i (Leaving (Incremented (counter s))) s)"
| set_enabled: "at s i (Held (Set_enabled b)) \<Longrightarrow>
    section_step i s (go i (Leaving Was_set) (s\<lparr>enabled := b\<rparr>))"
| show_counter: "at s i (Held Show_counter) \<Longrightarrow>
    section_step i s (go i (Leaving (Counter_is (counter s))) s)"
| info_counter: "at s i (Held Show_info) \<Longrightarrow> section_step i s (go i (Half_info (counter s)) s)"
| info_enabled: "at s i (Half_info c) \<Longrightarrow>
    section_step i s (go i (Leaving (Info_is c (enabled s))) s)"
| unlock: "at s i (Leaving x) \<Longrightarrow> section_step i s (go i (Done x) (s\<lparr>owner := None\<rparr>))"

inductive raw_step :: "nat \<Rightarrow> ds_sys \<Rightarrow> ds_sys \<Rightarrow> bool" where
  raw_counter: "at s i (Raw_counter v) \<Longrightarrow> raw_step i s (go i Raw_done (s\<lparr>counter := v\<rparr>))"
| raw_enabled: "at s i (Raw_enabled b) \<Longrightarrow> raw_step i s (go i Raw_done (s\<lparr>enabled := b\<rparr>))"

definition ds_step :: "ds_sys \<Rightarrow> ds_sys \<Rightarrow> bool" where
  "ds_step s s' \<longleftrightarrow> (\<exists>i. section_step i s s' \<or> raw_step i s s')"

definition ds_start :: "ds \<Rightarrow> access list \<Rightarrow> ds_sys" where
  "ds_start s ts = \<lparr>counter = counter s, enabled = enabled s, owner = None, tasks = ts\<rparr>"

inductive_cases section_stepE: "section_step i s s'"
inductive_cases raw_stepE: "raw_step i s s'"

section \<open>What the lock protects\<close>

fun in_section :: "access \<Rightarrow> bool" where
  "in_section (Held r) = True"
| "in_section (Loaded v) = True"
| "in_section (Stored v) = True"
| "in_section (Half_info c) = True"
| "in_section (Leaving x) = True"
| "in_section _ = False"

fun is_raw :: "access \<Rightarrow> bool" where
  "is_raw (Raw_counter v) = True"
| "is_raw (Raw_enabled b) = True"
| "is_raw _ = False"

fun finished :: "access \<Rightarrow> bool" where
  "finished (Done x) = True"
| "finished Raw_done = True"
| "finished _ = False"

text \<open>The values the increments have stored, and the increments still to store.\<close>

fun stored :: "access \<Rightarrow> u32 multiset" where
  "stored (Stored v) = {#v#}"
| "stored (Leaving (Incremented v)) = {#v#}"
| "stored (Done (Incremented v)) = {#v#}"
| "stored _ = {#}"

fun to_store :: "access \<Rightarrow> nat" where
  "to_store (Want Increment) = 1"
| "to_store (Held Increment) = 1"
| "to_store (Loaded v) = 1"
| "to_store _ = 0"

definition stored_all :: "access list \<Rightarrow> u32 multiset" where
  "stored_all ts = sum_list (map stored ts)"

definition to_store_all :: "access list \<Rightarrow> nat" where
  "to_store_all ts = sum_list (map to_store ts)"

text \<open>\<open>counter + 1\<close>, \<open>counter + 2\<close>, ... up to \<open>n\<close> of them.\<close>

fun next_values :: "u32 \<Rightarrow> nat \<Rightarrow> u32 multiset" where
  "next_values c 0 = {#}"
| "next_values c (Suc n) = add_mset (c + of_nat (Suc n)) (next_values c n)"

definition lock_inv :: "ds_sys \<Rightarrow> bool" where
  "lock_inv s \<longleftrightarrow>
     (\<forall>i. i < length (tasks s) \<and> in_section (tasks s ! i) \<longleftrightarrow> owner s = Some i)"

definition read_inv :: "ds_sys \<Rightarrow> bool" where
  "read_inv s \<longleftrightarrow>
     (\<forall>a \<in> set (tasks s). \<not> is_raw a \<and> a \<noteq> Raw_done) \<and>
     (\<forall>a \<in> set (tasks s). \<forall>v. a = Loaded v \<or> a = Stored v \<or> a = Half_info v \<longrightarrow> v = counter s)"

definition count_inv :: "u32 \<Rightarrow> nat \<Rightarrow> ds_sys \<Rightarrow> bool" where
  "count_inv c n s \<longleftrightarrow>
     (\<exists>k. stored_all (tasks s) = next_values c k \<and> counter s = c + of_nat k \<and>
          k + to_store_all (tasks s) = n)"

lemma lock_invD: "lock_inv s \<Longrightarrow> i < length (tasks s) \<Longrightarrow> in_section (tasks s ! i) \<longleftrightarrow> owner s = Some i"
  by (auto simp: lock_inv_def)

lemma lock_inv_bound: "lock_inv s \<Longrightarrow> owner s = Some i \<Longrightarrow> i < length (tasks s) \<and> in_section (tasks s ! i)"
  by (auto simp: lock_inv_def)

lemma lock_inv_go:
  assumes "lock_inv s" "i < length (tasks s)" "a = tasks s' ! i" "tasks s' = (tasks s)[i := a]"
    and "owner s' = (if in_section a then Some i else if owner s = Some i then None else owner s)"
    and "in_section a \<Longrightarrow> owner s = None \<or> owner s = Some i"
  shows "lock_inv s'"
  unfolding lock_inv_def
proof
  fix j
  show "j < length (tasks s') \<and> in_section (tasks s' ! j) \<longleftrightarrow> owner s' = Some j"
  proof (cases "j = i")
    case True
    then show ?thesis using assms(2,4,5) by simp
  next
    case False
    then have "j < length (tasks s') \<and> in_section (tasks s' ! j) \<longleftrightarrow> owner s = Some j"
      using assms(1,4) by (simp add: lock_inv_def)
    with False assms(5,6) show ?thesis by auto
  qed
qed

lemma lock_inv_section:
  assumes "lock_inv s" "section_step i s s'"
  shows "lock_inv s'"
  using assms(2) lock_invD[OF assms(1), of i]
  by (cases rule: section_step.cases) (rule lock_inv_go[OF assms(1) _ refl, of i]; simp)+

lemma lock_inv_raw:
  assumes "lock_inv s" "raw_step i s s'"
  shows "lock_inv s'"
  using assms(2) lock_invD[OF assms(1), of i]
  by (cases rule: raw_step.cases) (rule lock_inv_go[OF assms(1) _ refl, of i]; simp)+

text \<open>Nobody else is in the section, so nobody else has read a variable and not yet used it.\<close>

lemma read_inv_section:
  assumes "lock_inv s" "read_inv s" "section_step i s s'"
  shows "read_inv s'"
proof -
  have other: "\<not> in_section (tasks s ! j)" if "owner s = Some i" "j < length (tasks s)" "j \<noteq> i" for j
    using lock_invD[OF assms(1) that(2)] that by simp
  have sub: "set ((tasks s)[i := a]) \<subseteq> insert a (set (tasks s))" for a by (rule set_update_subset_insert)
  have stay: "read_inv s'"
    if "tasks s' = (tasks s)[i := tasks s' ! i]" "\<not> is_raw (tasks s' ! i)" "tasks s' ! i \<noteq> Raw_done"
      "counter s' = counter s"
      "\<And>v. tasks s' ! i = Loaded v \<or> tasks s' ! i = Stored v \<or> tasks s' ! i = Half_info v \<Longrightarrow> v = counter s"
  proof -
    have b: "b = tasks s' ! i \<or> b \<in> set (tasks s)" if "b \<in> set (tasks s')" for b
      using sub[of "tasks s' ! i"] that \<open>tasks s' = (tasks s)[i := tasks s' ! i]\<close> by auto
    show ?thesis
      unfolding read_inv_def that(4)
    proof (intro conjI ballI allI impI)
      fix b assume "b \<in> set (tasks s')"
      then show "\<not> is_raw b" "b \<noteq> Raw_done"
        using b[of b] that(2,3) assms(2) by (auto simp: read_inv_def)
    next
      fix b v assume m: "b \<in> set (tasks s')" and r: "b = Loaded v \<or> b = Stored v \<or> b = Half_info v"
      from b[OF m] show "v = counter s"
      proof
        assume "b = tasks s' ! i"
        with r that(5) show ?thesis by simp
      next
        assume "b \<in> set (tasks s)"
        with r assms(2) show ?thesis by (auto simp: read_inv_def)
      qed
    qed
  qed
  from assms(3) show ?thesis
  proof (cases rule: section_step.cases)
    case (inc_store v)
    let ?ts = "(tasks s)[i := Stored (v + 1)]"
    have o: "owner s = Some i" using lock_invD[OF assms(1), of i] inc_store by simp
    have "\<not> in_section b \<or> b = Stored (v + 1)" if b: "b \<in> set ?ts" for b
    proof -
      obtain j where "j < length ?ts" "?ts ! j = b" using b by (metis in_set_conv_nth)
      then show ?thesis using other[OF o, of j] by (cases "j = i") auto
    qed
    then have "\<forall>b \<in> set ?ts. \<forall>w. b = Loaded w \<or> b = Stored w \<or> b = Half_info w \<longrightarrow> w = v + 1" by force
    moreover have "\<forall>b \<in> set ?ts. \<not> is_raw b \<and> b \<noteq> Raw_done"
      using assms(2) sub[of "Stored (v + 1)"] by (auto simp: read_inv_def)
    ultimately show ?thesis using inc_store by (simp add: read_inv_def)
  qed (rule stay; simp)+
qed

lemma count_inv_section:
  assumes "read_inv s" "count_inv c n s" "section_step i s s'"
  shows "count_inv c n s'"
proof -
  obtain k where k: "stored_all (tasks s) = next_values c k" "counter s = c + of_nat k"
    "k + to_store_all (tasks s) = n" using assms(2) by (auto simp: count_inv_def)
  have i: "i < length (tasks s)" using assms(3) by (cases rule: section_step.cases) simp_all
  obtain A where A: "stored_all (tasks s) = A + stored (tasks s ! i)"
    "\<And>v. stored_all ((tasks s)[i := v]) = A + stored v"
    using sum_list_update_split[OF i, of stored] unfolding stored_all_def by metis
  obtain B where B: "to_store_all (tasks s) = B + to_store (tasks s ! i)"
    "\<And>v. to_store_all ((tasks s)[i := v]) = B + to_store v"
    using sum_list_update_split[OF i, of to_store] unfolding to_store_all_def by metis
  have same: "count_inv c n s'"
    if "tasks s' = (tasks s)[i := tasks s' ! i]" "counter s' = counter s"
      "stored (tasks s' ! i) = stored (tasks s ! i)" "to_store (tasks s' ! i) = to_store (tasks s ! i)"
  proof -
    have "stored_all (tasks s') = stored_all (tasks s)" "to_store_all (tasks s') = to_store_all (tasks s)"
      using A B that(1,3,4) by metis+
    with k that(2) show ?thesis unfolding count_inv_def by auto
  qed
  from assms(3) show ?thesis
  proof (cases rule: section_step.cases)
    case (lock r)
    then show ?thesis by (intro same) (cases r; simp)+
  next
    case (inc_store v)
    have "Loaded v \<in> set (tasks s)" using inc_store by (metis nth_mem)
    then have "v = counter s" using assms(1) by (auto simp: read_inv_def)
    then have v: "v + 1 = c + of_nat (Suc k)" using k(2) by simp
    let ?ts = "(tasks s)[i := Stored (v + 1)]"
    have "stored_all ?ts = next_values c (Suc k)"
      using A k(1) inc_store(2) unfolding v by simp
    moreover have "Suc k + to_store_all ?ts = n" using B k(3) inc_store(2) by simp
    ultimately show ?thesis
      using inc_store(1) v unfolding count_inv_def by (intro exI[of _ "Suc k"]) simp
  next
    case (inc_value v)
    have "Stored v \<in> set (tasks s)" using inc_value by (metis nth_mem)
    then have "v = counter s" using assms(1) by (auto simp: read_inv_def)
    with inc_value show ?thesis by (intro same) simp_all
  next
    case (unlock x)
    then show ?thesis by (intro same) (cases x; simp)+
  qed (intro same; simp)+
qed

section \<open>Runs\<close>

text \<open>Runs in which nobody uses the raw files.\<close>

definition sysfs_inv :: "u32 \<Rightarrow> nat \<Rightarrow> ds_sys \<Rightarrow> bool" where
  "sysfs_inv c n s \<longleftrightarrow> lock_inv s \<and> read_inv s \<and> count_inv c n s"

lemma sysfs_inv_step:
  assumes "sysfs_inv c n s" "ds_step s s'"
  shows "sysfs_inv c n s'"
proof -
  from assms(2) obtain i where "section_step i s s' \<or> raw_step i s s'" by (auto simp: ds_step_def)
  moreover have "\<not> raw_step i s s'"
  proof
    assume "raw_step i s s'"
    then obtain a where "a \<in> set (tasks s)" "is_raw a"
      by (cases rule: raw_step.cases) (metis nth_mem is_raw.simps(1,2))+
    with assms(1) show False by (auto simp: sysfs_inv_def read_inv_def)
  qed
  ultimately show ?thesis
    using assms(1) lock_inv_section read_inv_section count_inv_section
    unfolding sysfs_inv_def by blast
qed

lemma sysfs_inv_start:
  "sysfs_inv (counter s) (length (filter (\<lambda>r. r = Increment) rs)) (ds_start s (map Want rs))"
proof -
  have "stored_all (map Want rs) = {#}"
    unfolding stored_all_def by (induction rs) simp_all
  moreover have "to_store_all (map Want rs) = length (filter (\<lambda>r. r = Increment) rs)"
    unfolding to_store_all_def
  proof (induction rs)
    case (Cons r rs)
    then show ?case by (cases r) simp_all
  qed simp
  ultimately show ?thesis
    by (auto simp: sysfs_inv_def ds_start_def lock_inv_def read_inv_def count_inv_def
        intro!: exI[of _ "0 :: nat"])
qed

text \<open>A system that is not finished can go on, whoever uses which file.\<close>

lemma ds_progress:
  assumes "lock_inv s" "a \<in> set (tasks s)" "\<not> finished a"
  shows "\<exists>s'. ds_step s s'"
proof -
  have in_sec: "\<exists>s'. ds_step s s'" if j: "j < length (tasks s)" "in_section (tasks s ! j)" for j
  proof -
    consider r where "tasks s ! j = Held r" | v where "tasks s ! j = Loaded v"
      | u where "tasks s ! j = Stored u"
      | c where "tasks s ! j = Half_info c" | x where "tasks s ! j = Leaving x"
      using j(2) by (cases "tasks s ! j") auto
    then show ?thesis
    proof cases
      case (1 r)
      then show ?thesis
        using j(1) section_step.inc_load[of j s] section_step.set_enabled[of j s]
          section_step.show_counter[of j s] section_step.info_counter[of j s]
        unfolding ds_step_def by (cases r) blast+
    qed (use j(1) section_step.inc_store[of j s] section_step.inc_value[of j s] section_step.info_enabled[of j s]
        section_step.unlock[of j s] in \<open>unfold ds_step_def, blast+\<close>)
  qed
  obtain i where i: "i < length (tasks s)" "tasks s ! i = a" using assms(2) by (metis in_set_conv_nth)
  show ?thesis
  proof (cases "owner s")
    case (Some j)
    then show ?thesis using lock_inv_bound[OF assms(1)] in_sec by blast
  next
    case None
    then have "\<not> in_section a" using lock_invD[OF assms(1) i(1)] i(2) by simp
    then show ?thesis
      using i None assms(3) section_step.lock[of i s] raw_step.raw_counter[of i s] raw_step.raw_enabled[of i s]
      unfolding ds_step_def by (cases a) auto
  qed
qed

text \<open>The steps an access has in front of it.\<close>

fun steps_left :: "access \<Rightarrow> nat" where
  "steps_left (Want Increment) = 5"
| "steps_left (Want Show_info) = 4"
| "steps_left (Want r) = 3"
| "steps_left (Held Increment) = 4"
| "steps_left (Held Show_info) = 3"
| "steps_left (Held r) = 2"
| "steps_left (Loaded v) = 3"
| "steps_left (Stored v) = 2"
| "steps_left (Half_info c) = 2"
| "steps_left (Leaving x) = 1"
| "steps_left (Raw_counter v) = 1"
| "steps_left (Raw_enabled b) = 1"
| "steps_left _ = 0"

definition ds_left :: "ds_sys \<Rightarrow> nat" where
  "ds_left s = sum_list (map steps_left (tasks s))"

lemma ds_left_go:
  assumes "i < length (tasks s)" "tasks s' = (tasks s)[i := tasks s' ! i]"
    and "steps_left (tasks s' ! i) < steps_left (tasks s ! i)"
  shows "ds_left s' < ds_left s"
proof -
  obtain A where "ds_left s = A + steps_left (tasks s ! i)"
    "\<And>v. sum_list (map steps_left ((tasks s)[i := v])) = A + steps_left v"
    using sum_list_update_split[OF assms(1), of steps_left] unfolding ds_left_def by metis
  with assms(2,3) show ?thesis unfolding ds_left_def by (metis nat_add_left_cancel_less)
qed

lemma ds_step_left:
  assumes "ds_step s s'"
  shows "ds_left s' < ds_left s"
proof -
  obtain i where "section_step i s s' \<or> raw_step i s s'" using assms by (auto simp: ds_step_def)
  then show ?thesis
  proof
    assume "section_step i s s'"
    then show ?thesis
    proof (cases rule: section_step.cases)
      case (lock r)
      then show ?thesis by (intro ds_left_go[of i]) (cases r; simp)+
    qed (rule ds_left_go[of i]; simp)+
  next
    assume "raw_step i s s'"
    then show ?thesis by (cases rule: raw_step.cases) (rule ds_left_go[of i]; simp)+
  qed
qed

lemma steps_left_0: "steps_left a = 0 \<longleftrightarrow> finished a"
  by (cases a rule: steps_left.cases) simp_all

lemma ds_left_0: "ds_left s = 0 \<longleftrightarrow> list_all finished (tasks s)"
  by (simp add: ds_left_def sum_list_eq_0_iff list_all_iff steps_left_0)

interpretation sections: live_system ds_step "sysfs_inv c n" ds_left for c n
proof
  show "sysfs_inv c n s \<Longrightarrow> ds_step s s' \<Longrightarrow> sysfs_inv c n s'" for s s' by (rule sysfs_inv_step)
  show "ds_step s s' \<Longrightarrow> ds_left s' < ds_left s" for s s' by (rule ds_step_left)
  show "sysfs_inv c n s \<Longrightarrow> ds_left s \<noteq> 0 \<Longrightarrow> \<exists>s'. ds_step s s'" for s
    using ds_progress[of s] by (auto simp: ds_left_0 list_all_iff sysfs_inv_def)
qed

lemma sysfs_finished:
  assumes "sysfs_inv c n z" "list_all finished (tasks z)"
  shows "counter z = c + of_nat n"
proof -
  have "to_store a = 0" if "finished a" for a using that by (cases a) simp_all
  then have "to_store_all (tasks z) = 0"
    using assms(2) unfolding to_store_all_def list_all_iff by (induction "tasks z") simp_all
  with assms(1) show ?thesis by (auto simp: sysfs_inv_def count_inv_def)
qed

section \<open>Properties\<close>

text \<open>C13: what the lock gives. Any number of tasks use the sysfs files and \<open>info\<close>, interleaved in any way.
  At every moment the increments that are through have stored
  \<open>counter + 1\<close>, \<open>counter + 2\<close>, ... each exactly once (so that each logs a value of its own), and
  \<open>counter\<close> has grown by their number; an \<open>info\<close> that has read \<open>counter\<close> still sees it unchanged when it reads
  \<open>enabled\<close>; and either all tasks are finished and no increment is missing, or some task can go on. From
  wherever they stand all tasks can be brought to their end.\<close>

theorem increments_exact:
  assumes "ds_step\<^sup>*\<^sup>* (ds_start s (map Want rs)) z"
  shows "(\<exists>k \<le> length (filter (\<lambda>r. r = Increment) rs).
       stored_all (tasks z) = next_values (counter s) k \<and> counter z = counter s + of_nat k) \<and>
    (\<forall>c. Half_info c \<in> set (tasks z) \<longrightarrow> c = counter z) \<and>
    (if list_all finished (tasks z)
     then counter z = counter s + of_nat (length (filter (\<lambda>r. r = Increment) rs))
     else \<exists>z'. ds_step z z') \<and>
    (\<exists>z'. ds_step\<^sup>*\<^sup>* z z' \<and> list_all finished (tasks z'))"
proof -
  note i = sections.steps_inv[OF assms sysfs_inv_start]
  then obtain k where k: "stored_all (tasks z) = next_values (counter s) k"
    "counter z = counter s + of_nat k" "k + to_store_all (tasks z) = length (filter (\<lambda>r. r = Increment) rs)"
    by (auto simp: sysfs_inv_def count_inv_def)
  moreover have "\<forall>c. Half_info c \<in> set (tasks z) \<longrightarrow> c = counter z"
    using i by (auto simp: sysfs_inv_def read_inv_def)
  ultimately show ?thesis
    using sections.progress[OF i] sections.completes[OF i] sysfs_finished[OF i]
    by (auto simp: ds_left_0 intro!: exI[of _ k])
qed

lemma ds_stepI:
  "section_step i s s' \<Longrightarrow> ds_step s s'" "raw_step i s s' \<Longrightarrow> ds_step s s'"
  by (auto simp: ds_step_def)

theorem increments_exact_witness:
  "\<exists>z. ds_step\<^sup>*\<^sup>* (ds_start ds_static (map Want [Increment, Show_info])) z \<and>
     (\<forall>c. Half_info c \<in> set (tasks z) \<longrightarrow> c = counter z) \<and> tasks z = [Want Increment, Held Show_info]"
proof -
  let ?s = "ds_start ds_static (map Want [Increment, Show_info])"
  let ?z = "?s\<lparr>owner := Some 1, tasks := [Want Increment, Held Show_info]\<rparr>"
  have "ds_step ?s ?z"
    using section_step.lock[of 1 ?s Show_info] by (intro ds_stepI(1)[of 1]) (simp add: ds_start_def)
  then have "ds_step\<^sup>*\<^sup>* ?s ?z" by simp
  with increments_exact[OF this] show ?thesis by (intro exI[of _ ?z]) simp
qed

lemma raw_write_lost:
  "\<exists>z. ds_step\<^sup>*\<^sup>* (ds_start \<lparr>counter = c, enabled = e\<rparr> [Want Increment, Raw_counter v]) z \<and>
     tasks z = [Done (Incremented (c + 1)), Raw_done] \<and> counter z = c + 1"
proof -
  let ?s = "\<lambda>n ow ts. \<lparr>counter = n, enabled = e, owner = ow, tasks = ts\<rparr>"
  let ?R = "Raw_counter v"
  have "ds_step (?s c None [Want Increment, ?R]) (?s c (Some 0) [Held Increment, ?R])"
    using section_step.lock[of 0 "?s c None [Want Increment, ?R]" Increment] by (intro ds_stepI(1)[of 0]) simp
  moreover have "ds_step \<dots> (?s c (Some 0) [Loaded c, ?R])"
    using section_step.inc_load[of 0 "?s c (Some 0) [Held Increment, ?R]"] by (intro ds_stepI(1)[of 0]) simp
  moreover have "ds_step \<dots> (?s v (Some 0) [Loaded c, Raw_done])"
    using raw_step.raw_counter[of 1 "?s c (Some 0) [Loaded c, ?R]" v] by (intro ds_stepI(2)[of 1]) simp
  moreover have "ds_step \<dots> (?s (c + 1) (Some 0) [Stored (c + 1), Raw_done])"
    using section_step.inc_store[of 0 "?s v (Some 0) [Loaded c, Raw_done]" c] by (intro ds_stepI(1)[of 0]) simp
  moreover have "ds_step \<dots> (?s (c + 1) (Some 0) [Leaving (Incremented (c + 1)), Raw_done])"
    using section_step.inc_value[of 0 "?s (c + 1) (Some 0) [Stored (c + 1), Raw_done]" "c + 1"]
    by (intro ds_stepI(1)[of 0]) simp
  moreover have "ds_step \<dots> (?s (c + 1) None [Done (Incremented (c + 1)), Raw_done])"
    using section_step.unlock[of 0 "?s (c + 1) (Some 0) [Leaving (Incremented (c + 1)), Raw_done]"]
    by (intro ds_stepI(1)[of 0]) simp
  ultimately have "ds_step\<^sup>*\<^sup>* (?s c None [Want Increment, ?R]) (?s (c + 1) None [Done (Incremented (c + 1)), Raw_done])"
    by (meson converse_rtranclp_into_rtranclp rtranclp.rtrancl_refl)
  then show "\<exists>z. ds_step\<^sup>*\<^sup>* (ds_start \<lparr>counter = c, enabled = e\<rparr> [Want Increment, ?R]) z \<and>
      tasks z = [Done (Incremented (c + 1)), Raw_done] \<and> counter z = c + 1"
    unfolding ds_start_def by fastforce
qed

lemma raw_write_logged:
  "\<exists>z. ds_step\<^sup>*\<^sup>* (ds_start \<lparr>counter = c, enabled = e\<rparr> [Want Increment, Raw_counter v]) z \<and>
     tasks z = [Done (Incremented v), Raw_done] \<and> counter z = v"
proof -
  let ?s = "\<lambda>n ow ts. \<lparr>counter = n, enabled = e, owner = ow, tasks = ts\<rparr>"
  let ?R = "Raw_counter v"
  have "ds_step (?s c None [Want Increment, ?R]) (?s c (Some 0) [Held Increment, ?R])"
    using section_step.lock[of 0 "?s c None [Want Increment, ?R]" Increment] by (intro ds_stepI(1)[of 0]) simp
  moreover have "ds_step \<dots> (?s c (Some 0) [Loaded c, ?R])"
    using section_step.inc_load[of 0 "?s c (Some 0) [Held Increment, ?R]"] by (intro ds_stepI(1)[of 0]) simp
  moreover have "ds_step \<dots> (?s (c + 1) (Some 0) [Stored (c + 1), ?R])"
    using section_step.inc_store[of 0 "?s c (Some 0) [Loaded c, ?R]" c] by (intro ds_stepI(1)[of 0]) simp
  moreover have "ds_step \<dots> (?s v (Some 0) [Stored (c + 1), Raw_done])"
    using raw_step.raw_counter[of 1 "?s (c + 1) (Some 0) [Stored (c + 1), ?R]" v] by (intro ds_stepI(2)[of 1]) simp
  moreover have "ds_step \<dots> (?s v (Some 0) [Leaving (Incremented v), Raw_done])"
    using section_step.inc_value[of 0 "?s v (Some 0) [Stored (c + 1), Raw_done]" "c + 1"]
    by (intro ds_stepI(1)[of 0]) simp
  moreover have "ds_step \<dots> (?s v None [Done (Incremented v), Raw_done])"
    using section_step.unlock[of 0 "?s v (Some 0) [Leaving (Incremented v), Raw_done]"]
    by (intro ds_stepI(1)[of 0]) simp
  ultimately have "ds_step\<^sup>*\<^sup>* (?s c None [Want Increment, ?R]) (?s v None [Done (Incremented v), Raw_done])"
    by (meson converse_rtranclp_into_rtranclp rtranclp.rtrancl_refl)
  then show ?thesis unfolding ds_start_def by fastforce
qed

lemma info_torn:
  "\<exists>y z. ds_step\<^sup>*\<^sup>* (ds_start \<lparr>counter = c, enabled = e\<rparr> [Want Show_info, Raw_counter v, Raw_enabled b]) y \<and>
     tasks y ! 1 = Raw_done \<and> tasks y ! 2 = Raw_enabled b \<and> counter y = v \<and>
     ds_step\<^sup>*\<^sup>* y z \<and> tasks z = [Done (Info_is c b), Raw_done, Raw_done]"
proof -
  let ?s = "\<lambda>n x ow ts. \<lparr>counter = n, enabled = x, owner = ow, tasks = ts\<rparr>"
  let ?R = "[Raw_counter v, Raw_enabled b]"
  have "ds_step (?s c e None (Want Show_info # ?R)) (?s c e (Some 0) (Held Show_info # ?R))"
    using section_step.lock[of 0 "?s c e None (Want Show_info # ?R)" Show_info] by (intro ds_stepI(1)[of 0]) simp
  moreover have "ds_step \<dots> (?s c e (Some 0) (Half_info c # ?R))"
    using section_step.info_counter[of 0 "?s c e (Some 0) (Held Show_info # ?R)"] by (intro ds_stepI(1)[of 0]) simp
  moreover have "ds_step \<dots> (?s v e (Some 0) [Half_info c, Raw_done, Raw_enabled b])"
    using raw_step.raw_counter[of 1 "?s c e (Some 0) (Half_info c # ?R)" v] by (intro ds_stepI(2)[of 1]) simp
  ultimately have 1: "ds_step\<^sup>*\<^sup>* (?s c e None (Want Show_info # ?R)) (?s v e (Some 0) [Half_info c, Raw_done, Raw_enabled b])"
    by (meson converse_rtranclp_into_rtranclp rtranclp.rtrancl_refl)
  have "ds_step (?s v e (Some 0) [Half_info c, Raw_done, Raw_enabled b]) (?s v b (Some 0) [Half_info c, Raw_done, Raw_done])"
    using raw_step.raw_enabled[of 2 "?s v e (Some 0) [Half_info c, Raw_done, Raw_enabled b]" b]
    by (intro ds_stepI(2)[of 2]) simp
  moreover have "ds_step \<dots> (?s v b (Some 0) [Leaving (Info_is c b), Raw_done, Raw_done])"
    using section_step.info_enabled[of 0 "?s v b (Some 0) [Half_info c, Raw_done, Raw_done]" c]
    by (intro ds_stepI(1)[of 0]) simp
  moreover have "ds_step \<dots> (?s v b None [Done (Info_is c b), Raw_done, Raw_done])"
    using section_step.unlock[of 0 "?s v b (Some 0) [Leaving (Info_is c b), Raw_done, Raw_done]"]
    by (intro ds_stepI(1)[of 0]) simp
  ultimately have 2: "ds_step\<^sup>*\<^sup>* (?s v e (Some 0) [Half_info c, Raw_done, Raw_enabled b])
      (?s v b None [Done (Info_is c b), Raw_done, Raw_done])"
    by (meson converse_rtranclp_into_rtranclp rtranclp.rtrancl_refl)
  show "\<exists>y z. ds_step\<^sup>*\<^sup>* (ds_start \<lparr>counter = c, enabled = e\<rparr> (Want Show_info # ?R)) y \<and>
      tasks y ! 1 = Raw_done \<and> tasks y ! 2 = Raw_enabled b \<and> counter y = v \<and>
      ds_step\<^sup>*\<^sup>* y z \<and> tasks z = [Done (Info_is c b), Raw_done, Raw_done]"
    using 1 2 unfolding ds_start_def
    by (intro exI[of _ "?s v e (Some 0) [Half_info c, Raw_done, Raw_enabled b]"]
        exI[of _ "?s v b None [Done (Info_is c b), Raw_done, Raw_done]"]) simp
qed

text \<open>C40: what the raw files bypass. A value written to \<open>counter_raw\<close> while an increment is between its load and its
  store is lost without a trace, although the lock was held throughout; one written after the store is
  what the increment logs as its own; and \<open>info\<close>, which takes the
  lock to report the two variables together, reports a pair they never had when one after the other is written
  through the raw files.\<close>

theorem raw_files_bypass:
  "(\<exists>z. ds_step\<^sup>*\<^sup>* (ds_start \<lparr>counter = c, enabled = e\<rparr> [Want Increment, Raw_counter v]) z \<and>
      tasks z = [Done (Incremented (c + 1)), Raw_done] \<and> counter z = c + 1) \<and>
   (\<exists>z. ds_step\<^sup>*\<^sup>* (ds_start \<lparr>counter = c, enabled = e\<rparr> [Want Increment, Raw_counter v]) z \<and>
      tasks z = [Done (Incremented v), Raw_done] \<and> counter z = v) \<and>
   (\<exists>y z. ds_step\<^sup>*\<^sup>* (ds_start \<lparr>counter = c, enabled = e\<rparr> [Want Show_info, Raw_counter v, Raw_enabled b]) y \<and>
      tasks y ! 1 = Raw_done \<and> tasks y ! 2 = Raw_enabled b \<and> counter y = v \<and>
      ds_step\<^sup>*\<^sup>* y z \<and> tasks z = [Done (Info_is c b), Raw_done, Raw_done])"
  by (intro conjI raw_write_lost raw_write_logged info_torn)

end
