(* ===== verification/LogLevels.thy ===== *)
theory LogLevels
  imports KPrelude
begin

text \<open>
  The modules that only write to the kernel log: \<^verbatim>\<open>07_log_level/printk_log_levels.c\<close>, one
  message of each priority, and \<^verbatim>\<open>01_hello_init/hello.c\<close> and \<^verbatim>\<open>02_better_hello/better_hello.c\<close>.
  A message is its priority and its text; whether \<open>pr_debug\<close> emits anything is the kernel's configuration.
\<close>

datatype kern_level =
    KERN_EMERG | KERN_ALERT | KERN_CRIT | KERN_ERR | KERN_WARNING | KERN_NOTICE | KERN_INFO | KERN_DEBUG

fun level :: "kern_level \<Rightarrow> nat" where
  "level KERN_EMERG = 0"
| "level KERN_ALERT = 1"
| "level KERN_CRIT = 2"
| "level KERN_ERR = 3"
| "level KERN_WARNING = 4"
| "level KERN_NOTICE = 5"
| "level KERN_INFO = 6"
| "level KERN_DEBUG = 7"

text \<open>Priorities are ordered by their number, the most urgent first.\<close>

lemma level_inject [simp]: "level a = level b \<longleftrightarrow> a = b"
  by (cases a; cases b) simp_all

instantiation kern_level :: linorder
begin

definition less_eq_kern_level :: "kern_level \<Rightarrow> kern_level \<Rightarrow> bool" where
  "a \<le> b \<longleftrightarrow> level a \<le> level b"

definition less_kern_level :: "kern_level \<Rightarrow> kern_level \<Rightarrow> bool" where
  "a < b \<longleftrightarrow> level a < level b"

instance
  by standard (auto simp: less_eq_kern_level_def less_kern_level_def)

end

type_synonym log_message = "kern_level \<times> string"

definition pr_fmt :: "string \<Rightarrow> string" where
  "pr_fmt s = ''printk_log_levels: '' @ s"

definition printk_emit_all_levels :: "bool \<Rightarrow> log_message list" where
  "printk_emit_all_levels pr_debug_on =
     [(KERN_EMERG, pr_fmt ''level 0: KERN_EMERG demonstration''),
      (KERN_ALERT, pr_fmt ''level 1: KERN_ALERT demonstration''),
      (KERN_CRIT, pr_fmt ''level 2: KERN_CRIT demonstration''),
      (KERN_ERR, pr_fmt ''level 3: KERN_ERR demonstration''),
      (KERN_WARNING, pr_fmt ''level 4: KERN_WARNING demonstration''),
      (KERN_NOTICE, pr_fmt ''level 5: KERN_NOTICE demonstration''),
      (KERN_INFO, pr_fmt ''level 6: KERN_INFO demonstration'')] @
     (if pr_debug_on then [(KERN_DEBUG, pr_fmt ''level 7: KERN_DEBUG through pr_debug()'')] else []) @
     [(KERN_DEBUG, pr_fmt ''level 7: KERN_DEBUG through explicit printk()'')]"

definition printk_log_levels_init :: "bool \<Rightarrow> log_message list \<times> errno option" where
  "printk_log_levels_init pr_debug_on =
     ([(KERN_INFO, pr_fmt ''module loaded - emitting all printk priorities'')] @
      printk_emit_all_levels pr_debug_on @
      [(KERN_INFO, pr_fmt ''all printk priority demonstrations emitted'')], None)"

definition printk_log_levels_exit :: "log_message list" where
  "printk_log_levels_exit = [(KERN_INFO, pr_fmt ''module unloaded'')]"

definition init_module :: "log_message list \<times> errno option" where
  "init_module = ([(KERN_INFO, ''Hello luv .'')], None)"

definition cleanup_module :: "log_message list" where
  "cleanup_module = [(KERN_INFO, ''bye bye my luv'')]"

definition my_init :: "log_message list \<times> errno option" where
  "my_init = ([(KERN_INFO, ''Hello luv .'')], None)"

definition my_exit :: "log_message list" where
  "my_exit = [(KERN_INFO, ''bye bye my luv'')]"

text \<open>
  A console prints the messages whose priority is below its log level. The demonstration goes
  from the most urgent priority to the least, so a console prints a first part of it: one
  message of each priority from 0 up, and at level 7 still nothing of the debug messages.
\<close>

definition on_console :: "nat \<Rightarrow> log_message list \<Rightarrow> log_message list" where
  "on_console loglevel ms = filter (\<lambda>(p, txt). level p < loglevel) ms"

lemma levels_sorted: "sorted (map fst (printk_emit_all_levels d))"
  by (simp add: printk_emit_all_levels_def less_eq_kern_level_def)

lemma console_prefix:
  assumes "sorted (map fst ms)"
  shows "on_console loglevel ms = takeWhile (\<lambda>(p, txt). level p < loglevel) ms"
  using assms
proof (induction ms)
  case Nil
  then show ?case by (simp add: on_console_def)
next
  case (Cons m ms)
  have "filter (\<lambda>(p, txt). level p < loglevel) ms = []" if "\<not> level (fst m) < loglevel"
    using that Cons.prems by (fastforce simp: filter_empty_conv less_eq_kern_level_def)
  with Cons show ?case
    by (cases m; cases "level (fst m) < loglevel") (simp_all add: on_console_def)
qed

lemma console_levels:
  assumes "loglevel \<le> 7"
  shows "map (level \<circ> fst) (on_console loglevel (printk_emit_all_levels d)) = [0..<loglevel]"
proof -
  have "loglevel \<in> {0, 1, 2, 3, 4, 5, 6, 7}" using assms by auto
  then show ?thesis by (auto simp: on_console_def printk_emit_all_levels_def upt_rec)
qed

end
