(* ===== verification/StressTest.thy ===== *)
theory StressTest
  imports ConcurrencyLocking UserLib
begin

text \<open>
  \<^verbatim>\<open>11_concurrency_locking/stress_test.c\<close>: it shows the mode, resets the counter, lets
  threads write to the device and compares the counter with what they should have made of
  it. The threads' steps are those of \<open>ConcurrencyLocking\<close>, in the order of a schedule; the
  outcomes of its library calls are inputs.
\<close>

section \<open>The workers\<close>

abbreviation MAX_CHUNK :: nat where "MAX_CHUNK \<equiv> 65536"
abbreviation DEFAULT_THREADS :: int where "DEFAULT_THREADS \<equiv> 8"
abbreviation DEFAULT_INCREMENTS :: int where "DEFAULT_INCREMENTS \<equiv> 20000"

text \<open>The sizes of the writes a worker makes (a write to this device does not fail).\<close>

function worker :: "nat \<Rightarrow> nat list" where
  "worker remaining =
     (if remaining = 0 then []
      else (let chunk = (if remaining > MAX_CHUNK then MAX_CHUNK else remaining);
                written = race_write chunk
            in written # worker (remaining - written)))"
  by pat_completeness auto
termination
  by (relation "measure id") (auto simp: race_write_def)

declare worker.simps [simp del]

definition start_workers :: "nat \<Rightarrow> nat \<Rightarrow> race \<Rightarrow> race" where
  \<comment> \<open>the threads created, each about to make the increments of its writes\<close>
  "start_workers num_threads increments s =
     s\<lparr>threads := replicate num_threads (Ready (sum_list (worker increments)))\<rparr>"

section \<open>Files\<close>

text \<open>
  How opening a file and reading it turns out, and the two helpers: a failure ends the
  program, with what it has printed.
\<close>

record file_outcome =
  opened :: "errno option"
  readable :: bool

definition MODE_PATH :: string where "MODE_PATH = ''/sys/class/misc/race_demo/mode''"
definition COUNTER_PATH :: string where "COUNTER_PATH = ''/sys/class/misc/race_demo/counter''"
definition RESET_PATH :: string where "RESET_PATH = ''/sys/class/misc/race_demo/reset''"
definition DEVICE_PATH :: string where "DEVICE_PATH = ''/dev/race_demo''"

definition read_long_file :: "string \<Rightarrow> file_outcome \<Rightarrow> string \<Rightarrow> test_out + int" where
  "read_long_file path f content =
     (case opened f of
        Some e \<Rightarrow> Inl (Perror path e)
      | None \<Rightarrow>
          (case fgets 64 (if readable f then content else []) of
             None \<Rightarrow> Inl (Stderr (''failed to read '' @ path @ [newline]))
           | Some buf \<Rightarrow> Inr (strtol10 buf)))"

text \<open>
  \<open>written\<close> tells whether the text reaches the file's \<open>store\<close>; the helper does not look at what
  \<open>fputs\<close> and \<open>fclose\<close> return, so the caller does not learn it.
\<close>

definition write_string_file ::
    "string \<Rightarrow> errno option \<Rightarrow> bool \<Rightarrow> (string \<Rightarrow> race \<Rightarrow> race) \<Rightarrow> string \<Rightarrow> race \<Rightarrow> test_out + race" where
  "write_string_file path op written store value s =
     (case op of
        Some e \<Rightarrow> Inl (Perror path e)
      | None \<Rightarrow> Inr (if written then store value s else s))"

section \<open>The program\<close>

text \<open>
  \<open>reset_written\<close> tells whether the write to the reset file goes through, \<open>create_ok i\<close> whether the \<open>i\<close>-th \<open>pthread_create\<close> succeeds. It reports its failure
  by its result and leaves \<open>errno\<close> alone, so \<open>perror\<close> shows what \<open>errno\<close> was before.
\<close>

record stress_env =
  mode_file :: file_outcome
  reset_file :: "errno option"
  reset_written :: bool
  device :: "errno option"
  memory :: "errno option"
  create_ok :: "nat \<Rightarrow> bool"
  old_errno :: errno
  counter_file :: file_outcome

text \<open>
  \<open>Exits\<close>: the final state of the device, what was printed, and the exit status.
  \<open>Not_a_run\<close>: the schedule is not one of these threads, or does not bring them to the end
  that the joins wait for. \<open>Overflow\<close>: a signed overflow, which C leaves undefined.
\<close>

datatype stress_end = Exits race "test_out list" int | Not_a_run | Overflow

definition created :: "(nat \<Rightarrow> bool) \<Rightarrow> nat \<Rightarrow> nat" where
  \<comment> \<open>the number of threads created before the first failure\<close>
  "created ok k = length (takeWhile ok [0..<k])"

definition stress_report ::
    "stress_env \<Rightarrow> int \<Rightarrow> int \<Rightarrow> test_out list \<Rightarrow> race \<Rightarrow> stress_end" where
  \<comment> \<open>after the joins\<close>
  "stress_report E num_threads increments_per_thread out s =
     (let expected = num_threads * increments_per_thread
      in if \<not> int64 expected then Overflow
         else (case read_long_file COUNTER_PATH (counter_file E) (counter_show s) of
           Inl o' \<Rightarrow> Exits s (out @ [o']) EXIT_FAILURE
         | Inr actual \<Rightarrow>
             if \<not> int64 (expected - actual) then Overflow
             else
               (let out1 = out @
                  [Stdout (''threads='' @ fmt_d num_threads @ '' increments_per_thread='' @
                     fmt_d increments_per_thread @ [newline]),
                   Stdout (''expected='' @ fmt_d expected @ '' actual='' @ fmt_d actual @
                     '' lost='' @ fmt_d (expected - actual) @ [newline])]
                in if actual \<noteq> expected
                   then Exits s (out1 @ [Stdout (''RACE DETECTED: '' @ fmt_d (expected - actual) @
                          '' update(s) were lost\<newline>'')]) EXIT_FAILURE
                   else Exits s (out1 @ [Stdout ''no lost updates\<newline>'']) EXIT_SUCCESS)))"

definition stress_main :: "stress_env \<Rightarrow> string list \<Rightarrow> nat list \<Rightarrow> race \<Rightarrow> stress_end" where
  "stress_main E argv sched s =
     (let num_threads = (if length argv \<ge> 2 then atoi (argv ! 1) else DEFAULT_THREADS);
          increments_per_thread = (if length argv \<ge> 3 then atol (argv ! 2) else DEFAULT_INCREMENTS)
      in if num_threads \<le> 0 \<or> increments_per_thread \<le> 0
         then Exits s [Stderr (''usage: '' @ concat (take 1 argv) @
                '' [num_threads] [increments_per_thread]\<newline>'')] EXIT_FAILURE
         else (case read_long_file MODE_PATH (mode_file E) (mode_show s) of
           Inl o' \<Rightarrow> Exits s [o'] EXIT_FAILURE
         | Inr m \<Rightarrow>
             (let out1 = [Stdout (''mode (from sysfs) = '' @ fmt_d m @
                    ''  (0=none 1=spinlock 2=mutex 3=atomic)\<newline>'')]
              in (case write_string_file RESET_PATH (reset_file E) (reset_written E)
                         (\<lambda>v z. fst (reset_store v z)) ''1'' s of
                    Inl o' \<Rightarrow> Exits s (out1 @ [o']) EXIT_FAILURE
                  | Inr s1 \<Rightarrow>
                      ((case device E of
                             Some e \<Rightarrow> Exits s1 (out1 @ [Perror DEVICE_PATH e]) EXIT_FAILURE
                           | None \<Rightarrow>
                               (case memory E of
                                  Some e \<Rightarrow> Exits s1 (out1 @ [Perror ''malloc'' e]) EXIT_FAILURE
                                | None \<Rightarrow>
                                    (let k = created (create_ok E) (nat num_threads)
                                     in (case schedule sched
                                            (start_workers k (nat increments_per_thread) s1) of
                                           None \<Rightarrow> Not_a_run
                                         | Some s2 \<Rightarrow>
                                             if k < nat num_threads
                                             then Exits s2 (out1 @ [Perror ''pthread_create'' (old_errno E)])
                                                    EXIT_FAILURE
                                             else if total work s2 \<noteq> 0 then Not_a_run
                                             else stress_report E num_threads increments_per_thread
                                                    out1 s2)))))))))"

section \<open>The workers' writes\<close>

lemma worker_total: "sum_list (worker n) = n \<and> (\<forall>k \<in> set (worker n). 0 < k \<and> k \<le> MAX_CHUNK)"
proof (induction n rule: worker.induct)
  case (1 r)
  show ?case
  proof (cases "r = 0")
    case True
    then show ?thesis by (simp add: worker.simps)
  next
    case False
    let ?w = "race_write (if r > MAX_CHUNK then MAX_CHUNK else r)"
    have w: "0 < ?w" "?w \<le> r" "?w \<le> MAX_CHUNK" using False by (auto simp: race_write_def)
    have "worker r = ?w # worker (r - ?w)"
      using False by (subst worker.simps) (simp add: Let_def)
    with 1[OF False refl refl] w show ?thesis by simp
  qed
qed

lemma reset_counters_simps [simp]:
  "mode (reset_counters s) = mode s" "owner (reset_counters s) = owner s"
  "counter_plain (reset_counters s) = 0" "counter_atomic (reset_counters s) = 0"
  by (simp_all add: reset_counters_def Let_def)

lemma workers_start:
  assumes "owner s = (\<lambda>_. None)"
  shows "at_start (start_workers k n (reset_counters s))"
    "mode (start_workers k n (reset_counters s)) = mode s"
    "current_counter_value (start_workers k n (reset_counters s)) = 0"
    "total todo (start_workers k n (reset_counters s)) = k * n"
    "resets_none (start_workers k n (reset_counters s))"
  using assms
  by (auto simp: at_start_def start_workers_def current_counter_value_def total_def worker_total
      sum_list_replicate resets_none_def)

lemma workers_exact:
  assumes "owner s = (\<lambda>_. None)" "mode s \<in> {MODE_SPINLOCK, MODE_MUTEX, MODE_ATOMIC}"
    and "schedule sched (start_workers k n (reset_counters s)) = Some s'" "total work s' = 0"
  shows "current_counter_value s' = of_nat (k * n)"
  using safe_run(1)[OF workers_start(1)[OF assms(1)] _ schedule_increments[OF assms(3)] assms(4)]
    workers_start[OF assms(1)] assms(2) by simp

section \<open>What it reads and prints\<close>

lemma read_long_dec:
  assumes "opened f = None" "readable f" "length (dec v) \<le> 20"
  shows "read_long_file path f (dec v @ [newline]) = Inr (min LONG_MAX (int v))"
proof -
  have "fgets 64 (dec v @ [newline]) = Some (dec v @ [newline])" using assms(3) by (intro fgets_dec) simp
  moreover have "strtol10 (dec v @ [newline]) = min LONG_MAX (int v)"
    by (rule strtol10_dec) (simp add: isdigit_def)
  ultimately show ?thesis using assms(1,2) by (simp add: read_long_file_def)
qed

lemma read_counter:
  assumes "opened f = None" "readable f"
  shows "read_long_file path f (counter_show s) =
    Inr (min LONG_MAX (int (unat (current_counter_value s))))"
proof -
  have l: "length (dec (unat (current_counter_value s))) \<le> 20"
    using length_fmt_u64[of "current_counter_value s"] by (simp add: fmt_u_def)
  then have "counter_show s = dec (unat (current_counter_value s)) @ [newline]"
    by (simp add: counter_show_def sysfs_emit_def scnprintf_id fmt_u_def)
  with l assms show ?thesis by (simp add: read_long_dec)
qed

lemma read_mode:
  assumes "opened f = None" "readable f" "mode s \<in> {MODE_NONE, MODE_SPINLOCK, MODE_MUTEX, MODE_ATOMIC}"
  shows "read_long_file path f (mode_show s) = Inr (sint (mode s))"
proof -
  have m: "sint (mode s) \<in> {0, 1, 2, 3}" using assms(3) by auto
  then have l: "length (dec (nat (sint (mode s)))) \<le> 20" by (intro length_dec) auto
  then have "mode_show s = dec (nat (sint (mode s))) @ [newline]"
    using m by (auto simp: mode_show_def sysfs_emit_def scnprintf_id fmt_d_def)
  with l assms(1,2) m show ?thesis by (auto simp: read_long_dec)
qed

lemma created_all: "\<forall>i. ok i \<Longrightarrow> created ok k = k"
  by (simp add: created_def takeWhile_eq_all_conv[THEN iffD2])

section \<open>Properties\<close>

definition checked_well :: "stress_env \<Rightarrow> bool" where
  \<comment> \<open>every library call whose result the program looks at succeeds\<close>
  "checked_well E \<longleftrightarrow> opened (mode_file E) = None \<and> readable (mode_file E) \<and> reset_file E = None \<and>
     device E = None \<and> memory E = None \<and> (\<forall>i. create_ok E i) \<and>
     opened (counter_file E) = None \<and> readable (counter_file E)"

definition all_well :: "stress_env \<Rightarrow> bool" where
  \<comment> \<open>every library call succeeds\<close>
  "all_well E \<longleftrightarrow> checked_well E \<and> reset_written E"

definition after_reset :: "stress_env \<Rightarrow> race \<Rightarrow> race" where
  \<comment> \<open>the device when the threads start\<close>
  "after_reset E s = (if reset_written E then reset_counters s else s)"

lemma stress_main_joined:
  assumes "checked_well E" "mode s \<in> {MODE_NONE, MODE_SPINLOCK, MODE_MUTEX, MODE_ATOMIC}"
    and k: "0 < k" "k < 2 ^ 31" and n: "0 < n" "n < 2 ^ 63"
    and "schedule sched (start_workers k n (after_reset E s)) = Some s'" "total work s' = 0"
  shows "stress_main E [prog, dec k, dec n] sched s =
    stress_report E (int k) (int n) [Stdout (''mode (from sysfs) = '' @ fmt_d (sint (mode s)) @
      ''  (0=none 1=spinlock 2=mutex 3=atomic)\<newline>'')] s'"
proof -
  have m: "read_long_file MODE_PATH (mode_file E) (mode_show s) = Inr (sint (mode s))"
    using assms(1,2) by (intro read_mode) (simp_all add: checked_well_def)
  have c: "created (create_ok E) k = k" using assms(1) by (intro created_all) (simp add: checked_well_def)
  have a: "atoi (dec k) = int k" "atol (dec n) = int n" using k n by (simp_all add: atoi_dec atol_dec)
  show ?thesis
    using assms(1,7,8) k n
    by (simp add: stress_main_def Let_def a m c checked_well_def write_string_file_def reset_store_def after_reset_def)
qed

definition calls_succeed :: stress_env where
  "calls_succeed = \<lparr>mode_file = \<lparr>opened = None, readable = True\<rparr>, reset_file = None, reset_written = True,
     device = None, memory = None, create_ok = (\<lambda>_. True), old_errno = EINVAL,
     counter_file = \<lparr>opened = None, readable = True\<rparr>\<rparr>"

lemma calls_succeed_well:
  "checked_well calls_succeed" "checked_well (calls_succeed\<lparr>reset_written := False\<rparr>)" "all_well calls_succeed"
  by (simp_all add: calls_succeed_def checked_well_def all_well_def)

lemma worker_one: "worker 1 = [1]"
  by (subst worker.simps) (simp add: race_write_def worker.simps)

lemma replicate_2: "replicate 2 x = [x, x]"
  by (simp add: numeral_2_eq_2)

text \<open>
  A reset that does not happen: the counter starts at 1, both threads load it before either stores, and
  the one update that is left makes it 2, as many as were expected.
\<close>

lemma stale_counter_passes:
  "\<exists>F z sched' z' msgs. \<not> reset_written F \<and> checked_well F \<and>
     stress_main F [''stress_test'', ''2'', ''1''] sched' z = Exits z' (msgs @ [Stdout ''no lost updates\<newline>'']) EXIT_SUCCESS \<and>
     current_counter_value z' = current_counter_value z + 1"
proof -
  let ?E = "calls_succeed\<lparr>reset_written := False\<rparr>" and ?s = "race_static\<lparr>counter_plain := 1\<rparr>"
  let ?s' = "race_static\<lparr>threads := [Ready 0, Ready 0], counter_plain := 2\<rparr>"
  have d: "dec 2 = ''2''" "dec 1 = ''1''" by (simp_all add: print_eval)
  have sched: "schedule [0, 1, 0, 1] (start_workers 2 1 (after_reset ?E ?s)) = Some ?s'"
    using worker_one by (simp add: start_workers_def after_reset_def thread_step_def race_static_def
        goes_def replicate_2)
  have w: "total work ?s' = 0" "mode ?s \<in> {MODE_NONE, MODE_SPINLOCK, MODE_MUTEX, MODE_ATOMIC}"
    "current_counter_value ?s' = 2" "current_counter_value ?s = 1"
    "opened (counter_file ?E) = None" "readable (counter_file ?E)"
    by (simp_all add: calls_succeed_def total_def race_static_def current_counter_value_def)
  have "\<exists>out. stress_main ?E [''stress_test'', dec 2, dec 1] [0, 1, 0, 1] ?s =
      Exits ?s' (out @ [Stdout ''no lost updates\<newline>'']) EXIT_SUCCESS"
    using stress_main_joined[OF calls_succeed_well(2) w(2) _ _ _ _ sched w(1), of "''stress_test''"]
      read_counter[OF w(5,6), of COUNTER_PATH ?s'] w(3)
    by (simp add: stress_report_def int64_def)
  moreover have "current_counter_value ?s' = current_counter_value ?s + 1" "\<not> reset_written ?E" using w(3,4) by simp_all
  ultimately show ?thesis unfolding d using calls_succeed_well(2) by blast
qed

lemma stress_main_pass:
  assumes "stress_main E argv sched s = Exits s' out st"
  defines "num_threads \<equiv> (if length argv \<ge> 2 then atoi (argv ! 1) else DEFAULT_THREADS)"
    and "increments \<equiv> (if length argv \<ge> 3 then atol (argv ! 2) else DEFAULT_INCREMENTS)"
  shows "if st = EXIT_SUCCESS
     then 0 < num_threads \<and> 0 < increments \<and>
       opened (mode_file E) = None \<and> readable (mode_file E) \<and> reset_file E = None \<and> device E = None \<and>
       memory E = None \<and> created (create_ok E) (nat num_threads) = nat num_threads \<and>
       opened (counter_file E) = None \<and> readable (counter_file E) \<and>
       schedule sched (start_workers (nat num_threads) (nat increments)
         (if reset_written E then reset_counters s else s)) = Some s' \<and>
       total work s' = 0 \<and> min LONG_MAX (int (unat (current_counter_value s'))) = num_threads * increments
     else st = EXIT_FAILURE"
proof (cases "st = EXIT_SUCCESS")
  case True
  have created_le: "created ok k \<le> k" for ok k
    using length_takeWhile_le[of ok "[0..<k]"] by (simp add: created_def)
  let ?k = "created (create_ok E) (nat num_threads)"
  from assms(1) True obtain m out1 where main: "0 < num_threads" "0 < increments"
    "read_long_file MODE_PATH (mode_file E) (mode_show s) = Inr m" "reset_file E = None" "device E = None"
    "memory E = None" "\<not> ?k < nat num_threads"
    "schedule sched (start_workers ?k (nat increments) (if reset_written E then reset_counters s else s)) = Some s'" "total work s' = 0"
    "stress_report E num_threads increments out1 s' = Exits s' out EXIT_SUCCESS"
    unfolding stress_main_def num_threads_def[symmetric] increments_def[symmetric]
    by (auto simp: Let_def write_string_file_def reset_store_def stress_report_def
        split: if_splits sum.splits option.splits)
  from main(10) obtain a where a:
    "read_long_file COUNTER_PATH (counter_file E) (counter_show s') = Inr a" "a = num_threads * increments"
    by (auto simp: stress_report_def Let_def split: if_splits sum.splits)
  have ok: "opened f = None" "readable f" if "read_long_file path f c = Inr v" for path f c v
    using that by (auto simp: read_long_file_def fgets_def split: option.splits if_splits)
  have "a = min LONG_MAX (int (unat (current_counter_value s')))"
    using a(1) read_counter[OF ok[OF a(1)], of COUNTER_PATH s'] by simp
  moreover have "?k = nat num_threads" using main(7) created_le[of "create_ok E" "nat num_threads"] by linarith
  ultimately show ?thesis
    using True main ok[OF main(3)] ok[OF a(1)] a(2) by simp
next
  case False
  with assms(1) show ?thesis
    by (auto simp: stress_main_def stress_report_def Let_def split: if_splits sum.splits option.splits)
qed

text \<open>C27: what a pass of the stress test says. Whatever its arguments and however its calls turn out, it
  exits with success only if both numbers are positive, every call whose result it looks at
  succeeded, every thread was created and ran to its end, and the counter, read up to the
  largest \<open>long\<close>, is the expected product; every other way out has status 1. It does not look at
  the result of the write that resets the counter: when that fails the threads count on from the value that was
  there, and there is a run that loses an update, prints \<open>no lost updates\<close> and exits with
  success.\<close>

theorem stress_main_sound:
  assumes "stress_main E argv sched s = Exits s' out st"
  defines "num_threads \<equiv> (if length argv \<ge> 2 then atoi (argv ! 1) else DEFAULT_THREADS)"
    and "increments \<equiv> (if length argv \<ge> 3 then atol (argv ! 2) else DEFAULT_INCREMENTS)"
  shows "(if st = EXIT_SUCCESS
     then 0 < num_threads \<and> 0 < increments \<and>
       opened (mode_file E) = None \<and> readable (mode_file E) \<and> reset_file E = None \<and> device E = None \<and>
       memory E = None \<and> created (create_ok E) (nat num_threads) = nat num_threads \<and>
       opened (counter_file E) = None \<and> readable (counter_file E) \<and>
       schedule sched (start_workers (nat num_threads) (nat increments)
         (if reset_written E then reset_counters s else s)) = Some s' \<and>
       total work s' = 0 \<and> min LONG_MAX (int (unat (current_counter_value s'))) = num_threads * increments
     else st = EXIT_FAILURE) \<and>
    (\<exists>F z sched' z' msgs. \<not> reset_written F \<and> checked_well F \<and>
       stress_main F [''stress_test'', ''2'', ''1''] sched' z = Exits z' (msgs @ [Stdout ''no lost updates\<newline>'']) EXIT_SUCCESS \<and>
       current_counter_value z' = current_counter_value z + 1)"
  using stress_main_pass[OF assms(1)] stale_counter_passes unfolding num_threads_def increments_def
  by (rule conjI)

theorem stress_main_sound_witness:
  "\<exists>s' out. stress_main calls_succeed [''stress_test'', ''2'', ''1''] [0, 1] (race_static\<lparr>mode := MODE_ATOMIC\<rparr>) =
     Exits s' out EXIT_SUCCESS \<and> min LONG_MAX (int (unat (current_counter_value s'))) = 2"
proof -
  let ?s = "race_static\<lparr>mode := MODE_ATOMIC\<rparr>"
  let ?s' = "race_static\<lparr>mode := MODE_ATOMIC, reset_count := 1, threads := [Ready 0, Ready 0], counter_atomic := 2\<rparr>"
  have d: "dec 2 = ''2''" "dec 1 = ''1''" by (simp_all add: print_eval)
  have sched: "schedule [0, 1] (start_workers 2 1 (after_reset calls_succeed ?s)) = Some ?s'"
    using worker_one by (simp add: start_workers_def after_reset_def calls_succeed_def reset_counters_def thread_step_def race_static_def
        goes_def replicate_2 Let_def)
  have w: "checked_well calls_succeed" "total work ?s' = 0" "current_counter_value ?s' = 2"
    "opened (counter_file calls_succeed) = None" "readable (counter_file calls_succeed)"
    by (simp_all add: calls_succeed_def checked_well_def total_def race_static_def current_counter_value_def)
  have "\<exists>out. stress_main calls_succeed [''stress_test'', dec 2, dec 1] [0, 1] ?s = Exits ?s' out EXIT_SUCCESS"
    using stress_main_joined[OF w(1) _ _ _ _ _ sched w(2)] read_counter[OF w(4,5), of COUNTER_PATH ?s'] w(3)
    by (simp add: stress_report_def int64_def)
  then obtain out where
    r: "stress_main calls_succeed [''stress_test'', ''2'', ''1''] [0, 1] ?s = Exits ?s' out EXIT_SUCCESS"
    unfolding d by blast
  have "atoi ''2'' = 2" "atol ''1'' = 1" using atoi_dec[of 2, unfolded d] atol_dec[of 1, unfolded d] by simp_all
  with stress_main_sound[OF r] have "min LONG_MAX (int (unat (current_counter_value ?s'))) = 2" by simp
  with r show ?thesis by blast
qed

text \<open>C26: the stress test reports what happened. When its calls succeed and its numbers fit, a
  complete run of its threads, in whatever order their steps interleave, ends with the two
  lines of figures, computed from the counter as the file shows it, and a verdict: success
  exactly when the counter is the number of threads times the increments of each. In the
  three safe modes that is every run.\<close>

theorem stress_main_verdict:
  assumes "all_well E" and "mode s \<in> {MODE_NONE, MODE_SPINLOCK, MODE_MUTEX, MODE_ATOMIC}"
    and "0 < k" "k < 2 ^ 31" "0 < n" "k * n < 2 ^ 63" and "owner s = (\<lambda>_. None)"
    and "schedule sched (start_workers k n (reset_counters s)) = Some s'" "total work s' = 0"
  shows "(let actual = min LONG_MAX (int (unat (current_counter_value s'))); lost = int (k * n) - actual;
        out = [Stdout (''mode (from sysfs) = '' @ fmt_d (sint (mode s)) @ ''  (0=none 1=spinlock 2=mutex 3=atomic)\<newline>''),
          Stdout (''threads='' @ dec k @ '' increments_per_thread='' @ dec n @ [newline]),
          Stdout (''expected='' @ dec (k * n) @ '' actual='' @ fmt_d actual @ '' lost='' @ fmt_d lost @ [newline])]
      in stress_main E [prog, dec k, dec n] sched s =
         (if lost = 0 then Exits s' (out @ [Stdout ''no lost updates\<newline>'']) EXIT_SUCCESS
          else Exits s' (out @ [Stdout (''RACE DETECTED: '' @ fmt_d lost @ '' update(s) were lost\<newline>'')]) EXIT_FAILURE)) \<and>
    (mode s \<in> {MODE_SPINLOCK, MODE_MUTEX, MODE_ATOMIC} \<longrightarrow> unat (current_counter_value s') = k * n)"
    (is "?report \<and> ?exact")
proof
  have w: "checked_well E" and run: "schedule sched (start_workers k n (after_reset E s)) = Some s'"
    using assms(1,8) by (simp_all add: all_well_def after_reset_def)
  have n: "n < 2 ^ 63" using assms(3,6) by (metis le_less_trans mult_le_mono1 nat_mult_1 Suc_leI One_nat_def)
  let ?a = "min LONG_MAX (int (unat (current_counter_value s')))"
  have r: "read_long_file COUNTER_PATH (counter_file E) (counter_show s') = Inr ?a"
    using assms(1) by (intro read_counter) (simp_all add: all_well_def checked_well_def)
  have e: "int64 (int k * int n)" "int64 (int k * int n - ?a)"
    using int64_diff[of "int k * int n" ?a] assms(6) by (simp_all flip: of_nat_mult)
  have f: "fmt_d (int j) = dec j" for j by (simp add: fmt_d_def)
  show ?report
    unfolding stress_main_joined[OF w assms(2-5) n run assms(9)] stress_report_def r Let_def
    using e f[of k] f[of n] f[of "k * n"] by (simp, metis)
  show ?exact
    using workers_exact[OF assms(7) _ assms(8,9)] assms(6)
    by (auto simp: unat_of_nat simp del: of_nat_mult)
qed

text \<open>The run of two threads that load the counter before either stores it.\<close>

theorem stress_main_verdict_witness:
  "\<exists>s'. stress_main calls_succeed [''stress_test'', ''2'', ''1''] [0, 1, 0, 1] race_static =
   Exits s' [Stdout ''mode (from sysfs) = 0  (0=none 1=spinlock 2=mutex 3=atomic)\<newline>'',
     Stdout ''threads=2 increments_per_thread=1\<newline>'', Stdout ''expected=2 actual=1 lost=1\<newline>'',
     Stdout ''RACE DETECTED: 1 update(s) were lost\<newline>''] EXIT_FAILURE"
proof -
  let ?s = "race_static\<lparr>reset_count := 1, threads := [Ready 0, Ready 0], counter_plain := 1\<rparr>"
  from worker_one have "schedule [0, 1, 0, 1] (start_workers 2 1 (reset_counters race_static)) = Some ?s"
    by (simp add: start_workers_def reset_counters_def thread_step_def race_static_def goes_def
        replicate_2 Let_def)
  note v = stress_main_verdict[OF _ _ _ _ _ _ _ this, of calls_succeed "''stress_test''"]
  have d: "dec 2 = ''2''" "dec 1 = ''1''" "dec (Suc 0) = ''1''" "dec 0 = ''0''" by (simp_all add: print_eval)
  have "mode race_static \<in> {MODE_NONE, MODE_SPINLOCK, MODE_MUTEX, MODE_ATOMIC}" "all_well calls_succeed"
    "owner race_static = (\<lambda>_. None)" "total work ?s = 0" "current_counter_value ?s = 1" "mode race_static = 0"
    by (simp_all add: race_static_def all_well_def checked_well_def calls_succeed_def total_def current_counter_value_def)
  then show ?thesis using v by (simp add: Let_def d fmt_d_def)
qed

end
