(* ===== verification/KthreadReaders.thy ===== *)
theory KthreadReaders
  imports Kthreads Step_Systems
begin

text \<open>
  The read of \<^verbatim>\<open>15_kthreads/kthreads.c\<close> in detail. It drains the ring under \<open>ring_lock\<close>,
  but formats what it drained into \<open>snapshot_buf\<close>, which all readers share, without a lock.
  A read that no other read overlaps is the atomic handler of \<open>Kthreads\<close>, whatever the
  producer does meanwhile; reads that overlap lose items and can make one of them copy
  memory behind the buffer to user space.
\<close>

section \<open>Steps\<close>

text \<open>
  Where a read of \<open>n\<close> bytes at offset \<open>pos\<close> stands: before its first statement; with the
  items it drained, before \<open>snapshot_len = 0\<close>; at the loop test, with the items left; with
  the last text in the buffer, before its length is added to \<open>snapshot_len\<close>; before
  \<open>simple_read_from_buffer\<close>; returned, with the bytes it copied, or \<open>None\<close> for a copy that
  leaves the buffer.
\<close>

datatype read_place =
    At_read nat nat
  | Drained nat "ring_item list"
  | Formatting nat "ring_item list"
  | Adding nat "ring_item list" nat
  | Copying nat nat
  | Returned "string option"

text \<open>
  The device of \<open>Kthreads\<close>, whose \<open>snapshot\<close> is not used here, with the array of 640 bytes
  and the count of those in use instead, and the reads.
\<close>

record kt_readers =
  dev :: kthreads
  snapshot_buf :: string
  snapshot_len :: nat
  readers :: "read_place list"

definition overwrite_at :: "nat \<Rightarrow> string \<Rightarrow> string \<Rightarrow> string" where
  "overwrite_at pos t buf = take pos buf @ t @ drop (pos + length t) buf"

abbreviation at :: "kt_readers \<Rightarrow> nat \<Rightarrow> read_place \<Rightarrow> bool" where
  "at s i r \<equiv> i < length (readers s) \<and> readers s ! i = r"

abbreviation go :: "nat \<Rightarrow> read_place \<Rightarrow> kt_readers \<Rightarrow> kt_readers" where
  "go i r s \<equiv> s\<lparr>readers := (readers s)[i := r]\<rparr>"

definition item_text :: "nat \<Rightarrow> ring_item \<Rightarrow> string" where
  \<comment> \<open>what one \<open>scnprintf\<close> of the loop puts at \<open>snapshot_buf + len\<close>\<close>
  "item_text len it = scnprintf (SNAPSHOT_BUF_SIZE - len) (fmt_item it)"

definition copy_out :: "nat \<Rightarrow> nat \<Rightarrow> kt_readers \<Rightarrow> string option" where
  "copy_out n pos s =
     (if pos \<ge> snapshot_len s then Some []
      else if min (snapshot_len s) (pos + n) \<le> SNAPSHOT_BUF_SIZE
      then Some (take n (drop pos (take (snapshot_len s) (snapshot_buf s))))
      else None)"

text \<open>
  The steps of a read. The test of the loop, the arguments of \<open>scnprintf\<close> and the text it
  writes are one step, the addition to \<open>snapshot_len\<close> is another.
\<close>

inductive read_step :: "nat \<Rightarrow> kt_readers \<Rightarrow> kt_readers \<Rightarrow> bool" where
  drain: "at s i (At_read n 0) \<Longrightarrow>
    read_step i s (go i (Drained n (ring_items (dev s))) (s\<lparr>dev := (dev s)\<lparr>ring_count := 0\<rparr>\<rparr>))"
| later: "at s i (At_read n (Suc pos)) \<Longrightarrow> read_step i s (go i (Copying n (Suc pos)) s)"
| reset: "at s i (Drained n its) \<Longrightarrow> read_step i s (go i (Formatting n its) (s\<lparr>snapshot_len := 0\<rparr>))"
| format: "at s i (Formatting n (it # its)) \<Longrightarrow> snapshot_len s < SNAPSHOT_BUF_SIZE \<Longrightarrow>
    t = item_text (snapshot_len s) it \<Longrightarrow>
    read_step i s (go i (Adding n its (length t))
      (s\<lparr>snapshot_buf := overwrite_at (snapshot_len s) (t @ [NUL]) (snapshot_buf s)\<rparr>))"
| add: "at s i (Adding n its k) \<Longrightarrow>
    read_step i s (go i (Formatting n its) (s\<lparr>snapshot_len := snapshot_len s + k\<rparr>))"
| loop_end: "at s i (Formatting n its) \<Longrightarrow> its = [] \<or> snapshot_len s \<ge> SNAPSHOT_BUF_SIZE \<Longrightarrow>
    read_step i s (go i (Copying n 0) s)"
| copy: "at s i (Copying n pos) \<Longrightarrow> read_step i s (go i (Returned (copy_out n pos s)) s)"

text \<open>The producer's section under \<open>ring_lock\<close>.\<close>

definition pass :: "u64 \<Rightarrow> kt_readers \<Rightarrow> kt_readers" where
  "pass t s = s\<lparr>dev := produce t (dev s)\<rparr>"

definition readers_step :: "kt_readers \<Rightarrow> kt_readers \<Rightarrow> bool" where
  "readers_step s s' \<longleftrightarrow> (\<exists>t. s' = pass t s) \<or> (\<exists>i. read_step i s s')"

text \<open>The module after its load, and the reads there will be.\<close>

definition readers_start :: "read_place list \<Rightarrow> kt_readers" where
  "readers_start rs = \<lparr>dev = kt_static, snapshot_buf = replicate 640 NUL, snapshot_len = 0, readers = rs\<rparr>"

section \<open>A read comes to its end\<close>

fun steps_left :: "kthreads \<Rightarrow> read_place \<Rightarrow> nat" where
  "steps_left d (At_read n 0) = 2 * length (ring_items d) + 4"
| "steps_left d (At_read n (Suc pos)) = 2"
| "steps_left d (Drained n its) = 2 * length its + 3"
| "steps_left d (Formatting n its) = 2 * length its + 2"
| "steps_left d (Adding n its k) = 2 * length its + 3"
| "steps_left d (Copying n pos) = 1"
| "steps_left d (Returned r) = 0"

lemma read_progress:
  assumes "i < length (readers s)" "steps_left (dev s) (readers s ! i) \<noteq> 0"
  shows "\<exists>s'. read_step i s s'"
proof (cases "readers s ! i")
  case (At_read n pos)
  then show ?thesis using assms(1) by (cases pos) (blast intro: read_step.drain read_step.later)+
next
  case (Formatting n its)
  then show ?thesis using assms(1) read_step.format[of i s n] read_step.loop_end[of i s n its]
    by (cases its; cases "snapshot_len s < SNAPSHOT_BUF_SIZE") (auto simp: not_less)
qed (use assms in \<open>auto intro: read_step.intros\<close>)

interpretation reading: live_system "read_step i" "\<lambda>s. i < length (readers s)"
    "\<lambda>s. steps_left (dev s) (readers s ! i)" for i
proof
  fix s s'
  assume "read_step i s s'"
  then show "i < length (readers s')"
    and "steps_left (dev s') (readers s' ! i) < steps_left (dev s) (readers s ! i)"
    by (cases rule: read_step.cases; simp)+
qed (rule read_progress)

section \<open>A read that no other read overlaps\<close>

definition alone_step :: "nat \<Rightarrow> kt_readers \<Rightarrow> kt_readers \<Rightarrow> bool" where
  "alone_step i s s' \<longleftrightarrow> read_step i s s' \<or> (\<exists>t. s' = pass t s)"

text \<open>
  What a read that has drained \<open>D\<close> has made of the buffer: finishing its loop from here gives
  the text that formatting all of \<open>D\<close> gives.
\<close>

fun formats :: "nat \<Rightarrow> ring_item list \<Rightarrow> kt_readers \<Rightarrow> read_place \<Rightarrow> bool" where
  "formats n D s (Drained m its) \<longleftrightarrow> m = n \<and> its = D"
| "formats n D s (Formatting m its) \<longleftrightarrow> m = n \<and> snapshot_len s < 640 \<and>
     snapshot_loop its (take (snapshot_len s) (snapshot_buf s)) = snapshot_loop D []"
| "formats n D s (Adding m its k) \<longleftrightarrow> m = n \<and> snapshot_len s + k < 640 \<and>
     snapshot_loop its (take (snapshot_len s + k) (snapshot_buf s)) = snapshot_loop D []"
| "formats n D s (Copying m pos) \<longleftrightarrow> m = n \<and> pos = 0 \<and> snapshot_len s < 640 \<and>
     take (snapshot_len s) (snapshot_buf s) = snapshot_loop D []"
| "formats n D s (Returned r) \<longleftrightarrow> r = Some (take n (snapshot_loop D []))"
| "formats n D s (At_read m pos) \<longleftrightarrow> False"

definition alone_inv :: "kthreads \<Rightarrow> nat \<Rightarrow> nat \<Rightarrow> kt_readers \<Rightarrow> bool" where
  "alone_inv d n i s \<longleftrightarrow> length (snapshot_buf s) = 640 \<and> i < length (readers s) \<and>
     (\<exists>ts. let u = fold produce ts d in
        readers s ! i = At_read n 0 \<and> dev s = u \<or>
        (\<exists>ts'. dev s = fold produce ts' (u\<lparr>ring_count := 0\<rparr>)) \<and> formats n (ring_items u) s (readers s ! i))"

lemma alone_inv_drained:
  assumes "length (snapshot_buf s) = 640" "i < length (readers s)"
    and "dev s = fold produce ts' ((fold produce ts d)\<lparr>ring_count := 0\<rparr>)"
    and "formats n (ring_items (fold produce ts d)) s (readers s ! i)"
  shows "alone_inv d n i s"
  unfolding alone_inv_def Let_def using assms by blast

lemma alone_inv_at:
  "length (snapshot_buf s) = 640 \<Longrightarrow> i < length (readers s) \<Longrightarrow> readers s ! i = At_read n 0 \<Longrightarrow>
   dev s = fold produce ts d \<Longrightarrow> alone_inv d n i s"
  unfolding alone_inv_def Let_def by blast

lemma length_overwrite_at: "pos + length t \<le> length buf \<Longrightarrow> length (overwrite_at pos t buf) = length buf"
  by (simp add: overwrite_at_def)

lemma take_overwrite_at:
  "pos + length t \<le> length buf \<Longrightarrow> take (pos + length t) (overwrite_at pos (t @ [c]) buf) = take pos buf @ t"
  by (simp add: overwrite_at_def)

lemma item_text_fits: "len < 640 \<Longrightarrow> len + length (item_text len it) < 640"
  by (auto simp: item_text_def scnprintf_def)

lemma formats_step:
  assumes "read_step i s s'" "formats n D s (readers s ! i)" "length (snapshot_buf s) = 640"
  shows "formats n D s' (readers s' ! i) \<and> length (snapshot_buf s') = 640 \<and> dev s' = dev s"
  using assms(1)
proof (cases rule: read_step.cases)
  case (format m it its t)
  have f: "snapshot_len s + length t < 640" using format item_text_fits by simp
  have l: "length (take (snapshot_len s) (snapshot_buf s)) = snapshot_len s" using format assms(3) by simp
  have "snapshot_loop (it # its) (take (snapshot_len s) (snapshot_buf s)) =
      snapshot_loop its (take (snapshot_len s) (snapshot_buf s) @ t)"
    using format(3) l by (simp add: format(4) item_text_def)
  with format assms(2,3) f show ?thesis
    by (simp add: take_overwrite_at length_overwrite_at)
next
  case (loop_end m its)
  with assms show ?thesis by (cases its) simp_all
next
  case (copy m pos)
  have "copy_out n 0 s = Some (take n (take (snapshot_len s) (snapshot_buf s)))"
    using copy assms(2) by (auto simp: copy_out_def)
  with copy assms show ?thesis by simp
qed (use assms in simp_all)

lemma alone_inv_step:
  assumes "alone_inv d n i s" "alone_step i s s'"
  shows "alone_inv d n i s'"
proof -
  obtain ts where l: "length (snapshot_buf s) = 640" "i < length (readers s)"
    and ph: "readers s ! i = At_read n 0 \<and> dev s = fold produce ts d \<or>
      (\<exists>ts'. dev s = fold produce ts' ((fold produce ts d)\<lparr>ring_count := 0\<rparr>)) \<and>
      formats n (ring_items (fold produce ts d)) s (readers s ! i)"
    using assms(1) by (auto simp: alone_inv_def Let_def)
  from assms(2) show ?thesis
    unfolding alone_step_def
  proof
    assume r: "read_step i s s'"
    have i': "i < length (readers s')" using r l(2) by (cases rule: read_step.cases) simp_all
    from ph show ?thesis
    proof
      assume "readers s ! i = At_read n 0 \<and> dev s = fold produce ts d"
      with r l show ?thesis
        by (cases rule: read_step.cases) (simp_all add: alone_inv_drained[of _ _ "[]" ts])
    next
      assume "(\<exists>ts'. dev s = fold produce ts' ((fold produce ts d)\<lparr>ring_count := 0\<rparr>)) \<and>
        formats n (ring_items (fold produce ts d)) s (readers s ! i)"
      with formats_step[OF r _ l(1)] i' show ?thesis
        unfolding alone_inv_def Let_def by metis
    qed
  next
    assume "\<exists>t. s' = pass t s"
    then obtain t where t: "s' = pass t s" by blast
    have same: "formats n D s' r = formats n D s r" for D r by (cases r) (simp_all add: t pass_def)
    have l': "length (snapshot_buf s') = 640" "i < length (readers s')" "readers s' = readers s"
      "dev s' = produce t (dev s)"
      using l by (simp_all add: t pass_def)
    from ph show ?thesis
    proof (elim disjE conjE exE)
      assume "readers s ! i = At_read n 0" "dev s = fold produce ts d"
      with l' show ?thesis by (intro alone_inv_at[of _ _ _ "ts @ [t]"]) simp_all
    next
      fix ts'
      assume "dev s = fold produce ts' ((fold produce ts d)\<lparr>ring_count := 0\<rparr>)"
        "formats n (ring_items (fold produce ts d)) s (readers s ! i)"
      with l' show ?thesis by (intro alone_inv_drained[of _ _ "ts' @ [t]" ts]) (simp_all add: same)
    qed
  qed
qed

interpretation alone: invariant_system "alone_step i" "alone_inv d n i" for i d n
  by unfold_locales (rule alone_inv_step)

lemma drain_ring_count: "drain_ring s = s\<lparr>ring_count := 0, snapshot := snapshot_loop (ring_items s) []\<rparr>"
  by (simp add: drain_ring_def)

lemma produce_snapshot: "produce t (s\<lparr>snapshot := x\<rparr>) = (produce t s)\<lparr>snapshot := x\<rparr>"
  by (simp add: produce_def Let_def)

lemma fold_produce_snapshot: "fold produce ts (s\<lparr>snapshot := x\<rparr>) = (fold produce ts s)\<lparr>snapshot := x\<rparr>"
  by (induction ts arbitrary: s) (simp_all add: produce_snapshot)

lemma ring_items_snapshot [simp]: "ring_items (s\<lparr>snapshot := x\<rparr>) = ring_items s"
  by (simp add: ring_items_def ring_start_def)

section \<open>Properties\<close>

text \<open>C15: a read that no other read overlaps is the handler of the atomic model. Its steps come to
  an end; whatever the producer does between them, it copies out the snapshot that the
  atomic read makes if it runs at the moment of the drain, and leaves the ring as that read and the
  passes of the producer after it do.\<close>

theorem read_alone_atomic:
  assumes "i < length (readers s)" "readers s ! i = At_read n 0" "length (snapshot_buf s) = 640"
    and "(alone_step i)\<^sup>*\<^sup>* s z"
  shows "(\<exists>z' r. (read_step i)\<^sup>*\<^sup>* z z' \<and> readers z' ! i = Returned r) \<and>
    (case readers z ! i of
       Returned r \<Rightarrow> (\<exists>ts ts' u cs. kthread_demo_read srfb n 0 (fold produce ts (dev s)) = (u, cs, srfb n 0 (snapshot u)) \<and>
         r = Some (take n (snapshot u)) \<and> ring_items (dev z) = ring_items (fold produce ts' u))
     | _ \<Rightarrow> True)"
proof
  have "alone_inv (dev s) n i s" using assms(1-3) by (intro alone_inv_at[of _ _ _ "[]"]) simp_all
  then have z: "alone_inv (dev s) n i z" using alone.steps_inv[OF assms(4)] by blast
  then have "i < length (readers z)" by (simp add: alone_inv_def)
  then obtain z' where z': "(read_step i)\<^sup>*\<^sup>* z z'" "steps_left (dev z') (readers z' ! i) = 0"
    using reading.completes by blast
  have "\<exists>r. readers z' ! i = Returned r"
    using z'(2) by (cases "(dev z', readers z' ! i)" rule: steps_left.cases) simp_all
  with z'(1) show "\<exists>z' r. (read_step i)\<^sup>*\<^sup>* z z' \<and> readers z' ! i = Returned r" by blast
  show "case readers z ! i of
       Returned r \<Rightarrow> (\<exists>ts ts' u cs. kthread_demo_read srfb n 0 (fold produce ts (dev s)) = (u, cs, srfb n 0 (snapshot u)) \<and>
         r = Some (take n (snapshot u)) \<and> ring_items (dev z) = ring_items (fold produce ts' u))
     | _ \<Rightarrow> True"
  proof (cases "readers z ! i")
    case (Returned r)
    obtain ts ts' where d: "dev z = fold produce ts' ((fold produce ts (dev s))\<lparr>ring_count := 0\<rparr>)"
      and r: "r = Some (take n (snapshot_loop (ring_items (fold produce ts (dev s))) []))"
      using z Returned by (auto simp: alone_inv_def Let_def)
    let ?u = "fold produce ts (dev s)"
    have "kthread_demo_read srfb n 0 ?u = (drain_ring ?u, [Lock ring_lock, Unlock ring_lock],
        srfb n 0 (snapshot (drain_ring ?u)))" "snapshot (drain_ring ?u) = snapshot_loop (ring_items ?u) []"
      by (simp_all add: kthread_demo_read_def drain_ring_def)
    moreover have "ring_items (dev z) = ring_items (fold produce ts' (drain_ring ?u))"
      by (simp add: d drain_ring_count fold_produce_snapshot)
    ultimately show ?thesis
      unfolding Returned read_place.case r
      by (intro exI[of _ ts] exI[of _ ts'] exI[of _ "drain_ring ?u"] exI conjI) simp_all
  qed simp_all
qed

theorem read_alone_atomic_witness:
  "\<exists>z r. (read_step 0)\<^sup>*\<^sup>* (readers_start [At_read 100 0]) z \<and> readers z ! 0 = Returned r"
  using read_alone_atomic[of 0 "readers_start [At_read 100 0]" 100 "readers_start [At_read 100 0]" ref_srfb]
  by (simp add: readers_start_def)

section \<open>Reads that overlap\<close>

lemma format_one:
  assumes "at s i (Formatting n (it # its))" "snapshot_len s + length (fmt_item it) < 640"
  shows "\<exists>b. (read_step i)\<^sup>*\<^sup>* s (s\<lparr>snapshot_buf := b, snapshot_len := snapshot_len s + length (fmt_item it),
    readers := (readers s)[i := Formatting n its]\<rparr>)"
proof -
  have t: "item_text (snapshot_len s) it = fmt_item it"
    using assms(2) by (simp add: item_text_def scnprintf_id)
  let ?b = "overwrite_at (snapshot_len s) (fmt_item it @ [NUL]) (snapshot_buf s)"
  let ?u = "go i (Adding n its (length (fmt_item it))) (s\<lparr>snapshot_buf := ?b\<rparr>)"
  have "read_step i s ?u" using read_step.format[OF assms(1) _ refl] assms(2) by (simp add: t)
  moreover have "read_step i ?u (s\<lparr>snapshot_buf := ?b, snapshot_len := snapshot_len s + length (fmt_item it),
    readers := (readers s)[i := Formatting n its]\<rparr>)"
    using read_step.add[of i ?u n its "length (fmt_item it)"] assms(1) by simp
  ultimately show ?thesis by (meson converse_rtranclp_into_rtranclp r_into_rtranclp)
qed

lemma format_run:
  assumes "at s i (Formatting n (xs @ ys))" "snapshot_len s + length (concat (map fmt_item xs)) < 640"
  shows "\<exists>b. (read_step i)\<^sup>*\<^sup>* s (s\<lparr>snapshot_buf := b,
    snapshot_len := snapshot_len s + length (concat (map fmt_item xs)),
    readers := (readers s)[i := Formatting n ys]\<rparr>)"
  using assms
proof (induction xs arbitrary: s)
  case Nil
  then have "s\<lparr>snapshot_buf := snapshot_buf s, snapshot_len := snapshot_len s,
      readers := (readers s)[i := Formatting n ys]\<rparr> = s"
    by (simp add: list_update_same_conv[THEN iffD2])
  then show ?case by (intro exI[of _ "snapshot_buf s"]) simp
next
  case (Cons x xs)
  obtain b where b: "(read_step i)\<^sup>*\<^sup>* s (s\<lparr>snapshot_buf := b, snapshot_len := snapshot_len s + length (fmt_item x),
      readers := (readers s)[i := Formatting n (xs @ ys)]\<rparr>)"
    using format_one[of i s n x "xs @ ys"] Cons.prems by auto
  let ?u = "s\<lparr>snapshot_buf := b, snapshot_len := snapshot_len s + length (fmt_item x),
      readers := (readers s)[i := Formatting n (xs @ ys)]\<rparr>"
  obtain b' where "(read_step i)\<^sup>*\<^sup>* ?u (?u\<lparr>snapshot_buf := b',
      snapshot_len := snapshot_len ?u + length (concat (map fmt_item xs)),
      readers := (readers ?u)[i := Formatting n ys]\<rparr>)"
    using Cons.IH[of ?u] Cons.prems by auto
  with b show ?case by (intro exI[of _ b']) (simp add: add.assoc)
qed

lemma read_steps: "(read_step i)\<^sup>*\<^sup>* s s' \<Longrightarrow> readers_step\<^sup>*\<^sup>* s s'"
  by (erule rtranclp_mono[THEN predicate2D, rotated]) (auto simp: readers_step_def)

lemma passes: "readers_step\<^sup>*\<^sup>* s (s\<lparr>dev := fold produce ts (dev s)\<rparr>)"
proof (induction ts rule: rev_induct)
  case Nil
  then show ?case by simp
next
  case (snoc t ts)
  have "readers_step (s\<lparr>dev := fold produce ts (dev s)\<rparr>) (s\<lparr>dev := fold produce (ts @ [t]) (dev s)\<rparr>)"
    unfolding readers_step_def by (intro disjI1 exI[of _ t]) (simp add: pass_def)
  with snoc show ?case by (rule rtranclp.rtrancl_into_rtrancl)
qed

text \<open>Sixteen items made \<open>10^12\<close> nanoseconds after boot, from number \<open>k\<close> on.\<close>

definition ticks :: "u64 list" where
  "ticks = replicate 16 (10 ^ 12)"

definition sixteen :: "nat \<Rightarrow> ring_item list" where
  "sixteen k = map (\<lambda>j. \<lparr>seq = of_nat (k + j), ns = 10 ^ 12\<rparr>) [0..<16]"

lemma sixteen_produced:
  assumes "ring_inv d" "ring_items d = []" "next_seq d = of_nat k"
  shows "ring_items (fold produce ticks d) = sixteen k" and "ring_inv (fold produce ticks d)"
proof -
  have "length ticks = 16" by (simp add: ticks_def)
  with rq.contents_puts[OF assms(1), of ticks] assms(2,3)
  show "ring_items (fold produce ticks d) = sixteen k"
    by (auto simp: elems_produce last_n_all sixteen_def ticks_def simp del: fold_replicate)
  show "ring_inv (fold produce ticks d)" by (rule rq.invar_puts[OF assms(1)])
qed

lemma next_seq_fold: "next_seq (fold produce ts d) = next_seq d + of_nat (length ts)"
  by (induction ts arbitrary: d) (simp_all add: produce_def Let_def)

lemma length_line:
  assumes "k < 100"
  shows "length (fmt_item \<lparr>seq = of_nat k, ns = 10 ^ 12\<rparr>) = (if k < 10 then 23 else 24)"
proof -
  have "length (dec k) = (if k < 10 then 1 else 2)"
    using div_less_iff_less_mult[of 10 k 10] assms by (subst dec.simps, subst dec.simps) simp
  moreover have "length (dec (10 ^ 12)) = 13" by (simp add: dec.simps)
  ultimately show ?thesis using assms by (simp add: fmt_item_def fmt_u_def unat_of_nat)
qed

text \<open>Two reads, and their steps as steps of the system.\<close>

definition two :: "kthreads \<Rightarrow> string \<Rightarrow> nat \<Rightarrow> read_place \<Rightarrow> read_place \<Rightarrow> kt_readers" where
  "two d b l r0 r1 = \<lparr>dev = d, snapshot_buf = b, snapshot_len = l, readers = [r0, r1]\<rparr>"

lemma two_passes: "readers_step\<^sup>*\<^sup>* (two d b l r0 r1) (two (fold produce ts d) b l r0 r1)"
  using passes[of "two d b l r0 r1" ts] by (simp add: two_def)

lemma two_read:
  "read_step 0 (two d b l r0 r1) s \<Longrightarrow> readers_step\<^sup>*\<^sup>* (two d b l r0 r1) s"
  "read_step 1 (two d b l r0 r1) s \<Longrightarrow> readers_step\<^sup>*\<^sup>* (two d b l r0 r1) s"
  by (rule read_steps, erule r_into_rtranclp)+

lemma two_drain:
  "readers_step\<^sup>*\<^sup>* (two d b l (At_read n 0) r1) (two (d\<lparr>ring_count := 0\<rparr>) b l (Drained n (ring_items d)) r1)"
  "readers_step\<^sup>*\<^sup>* (two d b l r0 (At_read n 0)) (two (d\<lparr>ring_count := 0\<rparr>) b l r0 (Drained n (ring_items d)))"
  using read_step.drain[of 0 "two d b l (At_read n 0) r1" n] read_step.drain[of 1 "two d b l r0 (At_read n 0)" n]
  by (intro two_read; simp add: two_def)+

lemma two_reset:
  "readers_step\<^sup>*\<^sup>* (two d b l (Drained n its) r1) (two d b 0 (Formatting n its) r1)"
  "readers_step\<^sup>*\<^sup>* (two d b l r0 (Drained n its)) (two d b 0 r0 (Formatting n its))"
  using read_step.reset[of 0 "two d b l (Drained n its) r1" n its]
    read_step.reset[of 1 "two d b l r0 (Drained n its)" n its]
  by (intro two_read; simp add: two_def)+

lemma two_format:
  assumes "l + length (concat (map fmt_item xs)) < 640" "l' = l + length (concat (map fmt_item xs))"
  shows "\<exists>b'. readers_step\<^sup>*\<^sup>* (two d b l (Formatting n (xs @ ys)) r1) (two d b' l' (Formatting n ys) r1)"
    "\<exists>b'. readers_step\<^sup>*\<^sup>* (two d b l r0 (Formatting n (xs @ ys))) (two d b' l' r0 (Formatting n ys))"
  using format_run[of 0 "two d b l (Formatting n (xs @ ys)) r1" n xs ys]
    format_run[of 1 "two d b l r0 (Formatting n (xs @ ys))" n xs ys] assms
  by (auto simp: two_def dest!: read_steps)

lemma two_call:
  assumes "l + length (fmt_item it) < 640" "k = length (fmt_item it)"
  shows "\<exists>b'. readers_step\<^sup>*\<^sup>* (two d b l (Formatting n (it # its)) r1) (two d b' l (Adding n its k) r1)"
    "\<exists>b'. readers_step\<^sup>*\<^sup>* (two d b l r0 (Formatting n (it # its))) (two d b' l r0 (Adding n its k))"
proof -
  have t: "item_text l it = fmt_item it" using assms(1) by (simp add: item_text_def scnprintf_id)
  show "\<exists>b'. readers_step\<^sup>*\<^sup>* (two d b l (Formatting n (it # its)) r1) (two d b' l (Adding n its k) r1)"
    using read_step.format[of 0 "two d b l (Formatting n (it # its)) r1" n it its] assms
    by (intro exI two_read(1)) (simp add: two_def t)
  show "\<exists>b'. readers_step\<^sup>*\<^sup>* (two d b l r0 (Formatting n (it # its))) (two d b' l r0 (Adding n its k))"
    using read_step.format[of 1 "two d b l r0 (Formatting n (it # its))" n it its] assms
    by (intro exI two_read(2)) (simp add: two_def t)
qed

lemma two_add:
  "readers_step\<^sup>*\<^sup>* (two d b l (Adding n its k) r1) (two d b (l + k) (Formatting n its) r1)"
  "readers_step\<^sup>*\<^sup>* (two d b l r0 (Adding n its k)) (two d b (l + k) r0 (Formatting n its))"
  using read_step.add[of 0 "two d b l (Adding n its k) r1" n its k]
    read_step.add[of 1 "two d b l r0 (Adding n its k)" n its k]
  by (intro two_read; simp add: two_def)+

lemma two_copy:
  assumes "its = [] \<or> 640 \<le> l" "x = copy_out n 0 (two d b l r r)"
  shows "readers_step\<^sup>*\<^sup>* (two d b l (Formatting n its) r1) (two d b l (Returned x) r1)"
    "readers_step\<^sup>*\<^sup>* (two d b l r0 (Formatting n its)) (two d b l r0 (Returned x))"
proof -
  have c: "copy_out n 0 (two d b l u v) = x" for u v by (simp add: assms(2) copy_out_def two_def)
  have "readers_step\<^sup>*\<^sup>* (two d b l (Formatting n its) r1) (two d b l (Copying n 0) r1)"
    using read_step.loop_end[of 0 "two d b l (Formatting n its) r1" n its] assms(1)
    by (intro two_read(1)) (simp add: two_def)
  moreover have "readers_step\<^sup>*\<^sup>* (two d b l (Copying n 0) r1) (two d b l (Returned x) r1)"
    using read_step.copy[of 0 "two d b l (Copying n 0) r1" n 0] unfolding c
    by (intro two_read(1)) (simp add: two_def)
  ultimately show "readers_step\<^sup>*\<^sup>* (two d b l (Formatting n its) r1) (two d b l (Returned x) r1)"
    by (rule rtranclp_trans)
  have "readers_step\<^sup>*\<^sup>* (two d b l r0 (Formatting n its)) (two d b l r0 (Copying n 0))"
    using read_step.loop_end[of 1 "two d b l r0 (Formatting n its)" n its] assms(1)
    by (intro two_read(2)) (simp add: two_def)
  moreover have "readers_step\<^sup>*\<^sup>* (two d b l r0 (Copying n 0)) (two d b l r0 (Returned x))"
    using read_step.copy[of 1 "two d b l r0 (Copying n 0)" n 0] unfolding c
    by (intro two_read(2)) (simp add: two_def)
  ultimately show "readers_step\<^sup>*\<^sup>* (two d b l r0 (Formatting n its)) (two d b l r0 (Returned x))"
    by (rule rtranclp_trans)
qed

lemma sixteen_parts:
  assumes "k = 0 \<or> k = 16"
  shows "\<exists>xs y. sixteen k = xs @ [y] \<and> length (fmt_item y) = 24 \<and>
      length (concat (map fmt_item xs)) = (if k = 0 then 350 else 360)"
    and "\<exists>xs y ys. sixteen k = xs @ y # ys \<and> length (fmt_item y) = 24 \<and>
      length (concat (map fmt_item xs)) = (if k = 0 then 254 else 264)"
proof -
  have l: "length (fmt_item \<lparr>seq = of_nat j, ns = 10 ^ 12\<rparr>) = (if j < 10 then 23 else 24)" if "j < 32" for j
    using that by (intro length_line) simp
  let ?it = "\<lambda>j. \<lparr>seq = of_nat (k + j) :: u64, ns = 10 ^ 12\<rparr>"
  have line: "length (fmt_item (?it j)) = (if k + j < 10 then 23 else 24)" if "j < 16" for j
    using l[of "k + j"] that assms by auto
  have sum: "length (concat (map fmt_item (map ?it js))) = sum_list (map (\<lambda>j. if k + j < 10 then 23 else 24) js)"
    if "set js \<subseteq> {..<16}" for js
    using that line by (induction js) auto
  have "sixteen k = map ?it [0..<15] @ [?it 15]" "sixteen k = map ?it [0..<11] @ ?it 11 # map ?it [12..<16]"
    unfolding sixteen_def by (simp_all add: upt_rec)
  moreover have "length (concat (map fmt_item (map ?it [0..<15]))) = (if k = 0 then 350 else 360)"
    "length (concat (map fmt_item (map ?it [0..<11]))) = (if k = 0 then 254 else 264)"
    using assms sum[of "[0..<15]"] sum[of "[0..<11]"] by (auto simp: upt_rec)
  moreover have "length (fmt_item (?it 15)) = 24" "length (fmt_item (?it 11)) = 24"
    using line[of 15] line[of 11] by simp_all
  ultimately show "\<exists>xs y. sixteen k = xs @ [y] \<and> length (fmt_item y) = 24 \<and>
      length (concat (map fmt_item xs)) = (if k = 0 then 350 else 360)"
    and "\<exists>xs y ys. sixteen k = xs @ y # ys \<and> length (fmt_item y) = 24 \<and>
      length (concat (map fmt_item xs)) = (if k = 0 then 254 else 264)"
    by blast+
qed

text \<open>Two reads that have both emptied the ring and set \<open>snapshot_len\<close> to 0.\<close>

abbreviation whole :: read_place where "whole \<equiv> At_read 4096 0"

lemma both_drained:
  "\<exists>d. readers_step\<^sup>*\<^sup>* (two kt_static b 0 whole whole)
     (two d b 0 (Formatting 4096 (sixteen 0)) (Formatting 4096 (sixteen 16)))"
proof -
  define d1 where "d1 = fold produce ticks kt_static"
  define e1 where "e1 = d1\<lparr>ring_count := 0\<rparr>"
  define d2 where "d2 = fold produce ticks e1"
  have s: "ring_inv kt_static" "ring_items kt_static = []" "next_seq kt_static = of_nat 0"
    by (simp_all add: kt_static_def ring_inv_def ring_items_def)
  have 1: "ring_items d1 = sixteen 0" "ring_inv d1"
    unfolding d1_def by (rule sixteen_produced[OF s])+
  have e1: "ring_inv e1" "ring_items e1 = []" "next_seq e1 = of_nat 16"
    using 1(2) by (simp_all add: e1_def ring_inv_def ring_items_def d1_def next_seq_fold ticks_def kt_static_def
        del: fold_replicate)
  have 2: "ring_items d2 = sixteen 16" unfolding d2_def by (rule sixteen_produced(1)[OF e1])
  note r = two_passes[of kt_static b 0 whole whole ticks, folded d1_def]
  note r = rtranclp_trans[OF r two_drain(1), unfolded 1(1), folded e1_def]
  note r = rtranclp_trans[OF r two_passes[of _ _ _ _ _ ticks], folded d2_def]
  note r = rtranclp_trans[OF r two_drain(2), unfolded 2]
  note r = rtranclp_trans[OF r two_reset(1)]
  note r = rtranclp_trans[OF r two_reset(2)]
  then show ?thesis by blast
qed

lemma overlapping_reads:
  "\<exists>z. readers_step\<^sup>*\<^sup>* (readers_start [whole, whole]) z \<and> snapshot_len z = 662 \<and>
     readers z = [Returned None, Returned None]"
proof -
  let ?b = "replicate 640 NUL"
  obtain xs y where A: "sixteen 0 = xs @ [y]" "length (fmt_item y) = 24" "length (concat (map fmt_item xs)) = 350"
    using sixteen_parts(1)[of 0] by auto
  obtain us v vs where B: "sixteen 16 = us @ v # vs" "length (fmt_item v) = 24" "length (concat (map fmt_item us)) = 264"
    using sixteen_parts(2)[of 16] by auto
  obtain d where r: "readers_step\<^sup>*\<^sup>* (two kt_static ?b 0 whole whole)
      (two d ?b 0 (Formatting 4096 (xs @ [y])) (Formatting 4096 (us @ v # vs)))"
    using both_drained[of ?b] unfolding A(1) B(1) by blast
  have lens: "0 + length (concat (map fmt_item xs)) < 640" "350 = 0 + length (concat (map fmt_item xs))"
    "350 + length (concat (map fmt_item us)) < 640" "614 = 350 + length (concat (map fmt_item us))"
    "614 + length (fmt_item y) < 640" "24 = length (fmt_item y)"
    "614 + length (fmt_item v) < 640" "24 = length (fmt_item v)"
    by (simp_all add: A B)
  obtain b1 where b1: "readers_step\<^sup>*\<^sup>* (two kt_static ?b 0 whole whole)
      (two d b1 350 (Formatting 4096 [y]) (Formatting 4096 (us @ v # vs)))"
    using two_format(1)[OF lens(1,2)] rtranclp_trans[OF r] by blast
  obtain b2 where b2: "readers_step\<^sup>*\<^sup>* (two kt_static ?b 0 whole whole)
      (two d b2 614 (Formatting 4096 [y]) (Formatting 4096 (v # vs)))"
    using two_format(2)[OF lens(3,4)] rtranclp_trans[OF b1] by blast
  obtain b3 where b3: "readers_step\<^sup>*\<^sup>* (two kt_static ?b 0 whole whole)
      (two d b3 614 (Adding 4096 [] 24) (Formatting 4096 (v # vs)))"
    using two_call(1)[OF lens(5,6)] rtranclp_trans[OF b2] by blast
  obtain b4 where b4: "readers_step\<^sup>*\<^sup>* (two kt_static ?b 0 whole whole)
      (two d b4 614 (Adding 4096 [] 24) (Adding 4096 vs 24))"
    using two_call(2)[OF lens(7,8)] rtranclp_trans[OF b3] by blast
  have none: "None = copy_out 4096 0 (two d b4 662 r r)" for r by (simp add: copy_out_def two_def)
  have end_a: "[] = [] \<or> (640 :: nat) \<le> 662" and end_b: "vs = [] \<or> (640 :: nat) \<le> 662" by simp_all
  note r = rtranclp_trans[OF rtranclp_trans[OF b4 two_add(1)] two_add(2), simplified]
  note r = rtranclp_trans[OF rtranclp_trans[OF r two_copy(1)[OF end_a none]] two_copy(2)[OF end_b none]]
  then show ?thesis
    by (intro exI[of _ "two d b4 662 (Returned None) (Returned None)"]) (simp add: two_def readers_start_def)
qed

text \<open>Two readers that take turns, on the atomic handler.\<close>

lemma alternating_reads:
  fixes T :: u64
  defines "T \<equiv> 10 ^ 12"
  shows "let s0 = produce T (produce T kt_static);
        (s1, c1, r1) = kthread_demo_read ref_srfb 23 0 s0;
        (s2, c2, r2) = kthread_demo_read ref_srfb 23 0 (produce T s1);
        (s3, c3, r3) = kthread_demo_read ref_srfb 23 23 s2
      in ring_items s0 = [\<lparr>seq = 0, ns = T\<rparr>, \<lparr>seq = 1, ns = T\<rparr>] \<and>
         r1 = Inr (fmt_item \<lparr>seq = 0, ns = T\<rparr>, 23) \<and> r2 = Inr (fmt_item \<lparr>seq = 2, ns = T\<rparr>, 23) \<and>
         r3 = Inr ([], 23) \<and> ring_items s3 = []"
proof -
  let ?i = "\<lambda>k. \<lparr>seq = k, ns = T\<rparr> :: ring_item"
  let ?s0 = "produce T (produce T kt_static)"
  have s: "ring_inv kt_static" "ring_items kt_static = []" "next_seq kt_static = 0"
    by (simp_all add: kt_static_def ring_inv_def ring_items_def)
  have i0: "ring_inv ?s0" and n0: "next_seq ?s0 = 2"
    using s by (simp_all add: rq.invar_put produce_fields)
  have r0: "ring_items ?s0 = [?i 0, ?i 1]"
    using s by (simp add: ring_items_produce rq.invar_put produce_fields last_n_all)
  have d: "ring_items (drain_ring u) = []" for u by (simp add: drain_ring_def ring_items_def)
  have nd: "next_seq (drain_ring u) = next_seq u" for u by (simp add: drain_ring_def)
  have r1: "ring_items (produce T (drain_ring ?s0)) = [?i 2]"
    using i0 n0 by (simp add: ring_items_produce rq.invar_drain d nd last_n_all)
  have l: "length (fmt_item (?i 0)) = 23" "length (fmt_item (?i 1)) = 23" "length (fmt_item (?i 2)) = 23"
    using length_line[of 0] length_line[of 1] length_line[of 2] by (simp_all add: T_def)
  have snap: "snapshot (drain_ring u) = take 639 (concat (map fmt_item (ring_items u)))" for u
    by (simp add: drain_ring_def snapshot_loop_take)
  have read: "kthread_demo_read ref_srfb n pos u = (let v = (if pos = 0 then drain_ring u else u)
      in (v, if pos = 0 then [Lock ring_lock, Unlock ring_lock] else [], ref_srfb n pos (snapshot v)))" for n pos u
    by (simp add: kthread_demo_read_def drain_ring_def Let_def)
  show ?thesis
    using l by (simp add: read Let_def r0 r1 snap ref_srfb_def d del: produce_fields)
qed

text \<open>C17: overlapping reads share one snapshot. From the module's load, two reads of 4096 bytes can
  both come past their \<open>snapshot_len = 0\<close> before either formats, and both find room at 614
  bytes: then \<open>snapshot_len\<close> is 662, more than \<open>snapshot_buf\<close> has, and each read copies memory
  behind it to user space. And readers that only take turns lose items: with two items in
  the ring a first reader gets the first, another read overwrites its snapshot, and the second item
  is delivered to nobody.\<close>

theorem reads_overlap:
  "(\<exists>z. readers_step\<^sup>*\<^sup>* (readers_start [At_read 4096 0, At_read 4096 0]) z \<and>
      SNAPSHOT_BUF_SIZE < snapshot_len z \<and> readers z = [Returned None, Returned None]) \<and>
   (let T = 10 ^ 12;
        s0 = produce T (produce T kt_static);
        (s1, c1, r1) = kthread_demo_read ref_srfb 23 0 s0;
        (s2, c2, r2) = kthread_demo_read ref_srfb 23 0 (produce T s1);
        (s3, c3, r3) = kthread_demo_read ref_srfb 23 23 s2
    in ring_items s0 = [\<lparr>seq = 0, ns = T\<rparr>, \<lparr>seq = 1, ns = T\<rparr>] \<and>
       r1 = Inr (fmt_item \<lparr>seq = 0, ns = T\<rparr>, 23) \<and> r2 = Inr (fmt_item \<lparr>seq = 2, ns = T\<rparr>, 23) \<and>
       r3 = Inr ([], 23) \<and> ring_items s3 = [])"
  using overlapping_reads alternating_reads by (auto simp: Let_def)

end
