(* ===== verification/GpioPolling.thy ===== *)
theory GpioPolling
  imports GpioCtrl Step_Systems
begin

text \<open>
  The polling of \<^verbatim>\<open>03_gpio_sim/gpioctrl.c\<close> over time: the work function, the pending timer of
  its work item and the requests of user space as steps. The handlers of \<open>GpioCtrl\<close> are one
  step up to the arming of the work item, which they do after they have dropped the mutex,
  and each arming is a step of its own. Polling never stops; which interval is in force
  depends on the order of those last steps.
\<close>

section \<open>Steps\<close>

text \<open>
  Where the work function stands: not running; before the sample; before it reads the
  interval; before \<open>schedule_delayed_work\<close> with the delay it computed.
\<close>

datatype work_place = Idle | Started | Sampled | Rearming nat

text \<open>A request of user space: to be handled, or handled with the armings it has still to do.\<close>

datatype user_request = Asked gpio_ctx gpio_op | Arming "nat list"

text \<open>\<open>pending\<close> is the delay of the work item when it is pending.\<close>

record polling =
  device :: gpio
  pending :: "nat option"
  worker :: work_place
  requests :: "user_request list"

fun schedule_delayed_work :: "nat \<Rightarrow> nat option \<Rightarrow> nat option" where
  "schedule_delayed_work d None = Some d"
| "schedule_delayed_work d (Some e) = Some e"

definition mod_delayed_work :: "nat \<Rightarrow> nat option \<Rightarrow> nat option" where
  "mod_delayed_work d p = Some d"

fun armings :: "gpio_obj kcall list \<Rightarrow> nat list" where
  "armings [] = []"
| "armings (x # t) = (case x of Arm w d \<Rightarrow> d # armings t | _ \<Rightarrow> armings t)"

text \<open>
  The statements of \<open>gpioctrl_work_fn\<close>. The work item can become pending again while it runs,
  but it does not run twice at once.
\<close>

inductive work_step :: "(u32 \<Rightarrow> nat) \<Rightarrow> gpio_ctx \<Rightarrow> polling \<Rightarrow> polling \<Rightarrow> bool" for J c where
  samples: "worker s = Started \<Longrightarrow> gpioctrl_sample_once c False (device s) = (d', cs, log, r) \<Longrightarrow>
    work_step J c s (s\<lparr>device := d', worker := Sampled\<rparr>)"
| looks: "worker s = Sampled \<Longrightarrow> gpioctrl_get_poll_ms (device s) = (delay, cs) \<Longrightarrow>
    work_step J c s (s\<lparr>worker := Rearming (J delay)\<rparr>)"
| rearms: "worker s = Rearming d \<Longrightarrow>
    work_step J c s (s\<lparr>worker := Idle, pending := schedule_delayed_work d (pending s)\<rparr>)"

definition timer_step :: "polling \<Rightarrow> polling \<Rightarrow> bool" where
  "timer_step s s' \<longleftrightarrow> pending s \<noteq> None \<and> worker s = Idle \<and> s' = s\<lparr>pending := None, worker := Started\<rparr>"

inductive request_step ::
    "kstr \<Rightarrow> (u32 \<Rightarrow> nat) \<Rightarrow> srfb \<Rightarrow> gpio_params \<Rightarrow> polling \<Rightarrow> polling \<Rightarrow> bool" for K J srfb P where
  handles: "i < length (requests s) \<Longrightarrow> requests s ! i = Asked c op \<Longrightarrow> op \<noteq> Work \<Longrightarrow>
    gpio_serve K J srfb P (device s) (c, op) = (d', t) \<Longrightarrow>
    request_step K J srfb P s (s\<lparr>device := d', requests := (requests s)[i := Arming (armings t)]\<rparr>)"
| modifies: "i < length (requests s) \<Longrightarrow> requests s ! i = Arming (d # ds) \<Longrightarrow>
    request_step K J srfb P s
      (s\<lparr>pending := mod_delayed_work d (pending s), requests := (requests s)[i := Arming ds]\<rparr>)"

definition polling_step ::
    "kstr \<Rightarrow> (u32 \<Rightarrow> nat) \<Rightarrow> srfb \<Rightarrow> gpio_params \<Rightarrow> polling \<Rightarrow> polling \<Rightarrow> bool" where
  "polling_step K J srfb P s s' \<longleftrightarrow>
     (\<exists>c. work_step J c s s') \<or> timer_step s s' \<or> request_step K J srfb P s s'"

text \<open>After a load with trace \<open>t\<close>, with the requests there will be.\<close>

definition polling_start :: "gpio_obj kcall list \<Rightarrow> gpio \<Rightarrow> (gpio_ctx \<times> gpio_op) list \<Rightarrow> polling" where
  "polling_start t s ps =
     \<lparr>device = s, pending = fold schedule_delayed_work (armings t) None, worker = Idle,
      requests = map (\<lambda>(c, op). Asked c op) ps\<rparr>"

inductive_simps work_step_simps: "work_step J c s s'"
inductive_simps request_step_simps: "request_step K J srfb P s s'"

section \<open>The work function comes to its end and is the one of the atomic model\<close>

fun work_left :: "work_place \<Rightarrow> nat" where
  "work_left Idle = 0"
| "work_left Started = 3"
| "work_left Sampled = 2"
| "work_left (Rearming d) = 1"

lemma work_progress: "work_left (worker s) \<noteq> 0 \<Longrightarrow> \<exists>s'. work_step J c s s'"
  by (cases "worker s") (simp_all add: work_step_simps sample_once_eq gpioctrl_get_poll_ms_def)

interpretation work: live_system "work_step J c" "\<lambda>_. True" "\<lambda>s. work_left (worker s)" for J c
  by unfold_locales (auto simp: work_progress elim: work_step.cases)

lemma work_requests: "work_step J c s s' \<Longrightarrow> requests s' = requests s \<and> poll_ms (device s') = poll_ms (device s)"
  by (auto simp: work_step_simps sample_once_eq sampled_fields)

lemma work_alone:
  assumes "worker s = Started" "pending s = None"
  shows "(work_step J c)\<^sup>*\<^sup>* s (s\<lparr>device := sampled c (device s), worker := Idle,
      pending := Some (J (poll_ms (device s)))\<rparr>)"
proof -
  let ?u = "s\<lparr>device := sampled c (device s), worker := Sampled\<rparr>"
  let ?v = "?u\<lparr>worker := Rearming (J (poll_ms (device s)))\<rparr>"
  have "work_step J c s ?u" using assms by (simp add: work_step_simps sample_once_eq)
  moreover have "work_step J c ?u ?v" by (simp add: work_step_simps gpioctrl_get_poll_ms_def sampled_fields)
  moreover have "work_step J c ?v (?v\<lparr>worker := Idle, pending := Some (J (poll_ms (device s)))\<rparr>)"
    using assms(2) by (simp add: work_step_simps)
  ultimately show ?thesis by (auto intro: converse_rtranclp_into_rtranclp)
qed

lemma work_steps_polling: "(work_step J c)\<^sup>*\<^sup>* s s' \<Longrightarrow> (polling_step K J srfb P)\<^sup>*\<^sup>* s s'"
  by (erule rtranclp_mono[THEN predicate2D, rotated]) (auto simp: polling_step_def)

section \<open>Polling goes on\<close>

definition polls :: "polling \<Rightarrow> bool" where
  "polls s \<longleftrightarrow> pending s \<noteq> None \<or> worker s \<noteq> Idle"

lemma schedule_pending: "schedule_delayed_work d p \<noteq> None"
  by (cases p) simp_all

lemma polls_step: "polls s \<Longrightarrow> polling_step K J srfb P s s' \<Longrightarrow> polls s'"
  by (auto simp: polling_step_def polls_def timer_step_def work_step_simps request_step_simps
      schedule_pending mod_delayed_work_def)

interpretation going: invariant_system "polling_step K J srfb P" polls for K J srfb P
  by unfold_locales (rule polls_step)

text \<open>What every handler other than the work function arms, if anything, is the interval it stores.\<close>

lemma serve_armings:
  assumes "gpio_serve K J srfb P s (c, op) = (s', t)"
  shows "armings t = [] \<and> poll_ms s' = poll_ms s \<or> armings t = [J (poll_ms s')]"
  using gpio_serve_change[OF assms]
  by (cases rule: gpio_change.cases) (simp_all add: sampled_fields sample_calls_def)

section \<open>Which interval is in force\<close>

fun under_way :: "user_request \<Rightarrow> bool" where
  "under_way (Asked c op) = False"
| "under_way (Arming ds) = (ds \<noteq> [])"

text \<open>Runs in which no two requests are between their change of the interval and its arming.\<close>

definition serial_step ::
    "kstr \<Rightarrow> (u32 \<Rightarrow> nat) \<Rightarrow> srfb \<Rightarrow> gpio_params \<Rightarrow> polling \<Rightarrow> polling \<Rightarrow> bool" where
  "serial_step K J srfb P s s' \<longleftrightarrow>
     polling_step K J srfb P s s' \<and> length (filter under_way (requests s')) \<le> 1"

fun in_force :: "nat \<Rightarrow> nat option \<Rightarrow> work_place \<Rightarrow> bool" where
  "in_force j p Idle = (p = Some j)"
| "in_force j p (Rearming d) = (p = Some j \<or> p = None \<and> d = j)"
| "in_force j p w = (p = Some j \<or> p = None)"

definition settled :: "(u32 \<Rightarrow> nat) \<Rightarrow> polling \<Rightarrow> bool" where
  "settled J s \<longleftrightarrow> (let j = J (poll_ms (device s)) in
     filter under_way (requests s) = [] \<and> in_force j (pending s) (worker s) \<or>
     filter under_way (requests s) = [Arming [j]])"

lemma in_force_now: "in_force j (Some j) w"
  by (cases w) simp_all

lemma filter_update:
  assumes "i < length xs"
  shows "\<exists>us vs. filter Q xs = us @ (if Q (xs ! i) then [xs ! i] else []) @ vs \<and>
    (\<forall>y. filter Q (xs[i := y]) = us @ (if Q y then [y] else []) @ vs)"
proof -
  have "xs = take i xs @ xs ! i # drop (Suc i) xs" by (rule id_take_nth_drop[OF assms])
  then have "filter Q xs = filter Q (take i xs @ xs ! i # drop (Suc i) xs)" by simp
  then show ?thesis using assms by (auto simp: upd_conv_take_nth_drop)
qed

lemma settled_work: "settled J s \<Longrightarrow> work_step J c s s' \<Longrightarrow> settled J s'"
  using work_requests[of J c s s']
  by (cases "pending s") (auto simp: settled_def Let_def work_step_simps gpioctrl_get_poll_ms_def)

lemma settled_timer: "settled J s \<Longrightarrow> timer_step s s' \<Longrightarrow> settled J s'"
  by (auto simp: settled_def Let_def timer_step_def)

lemma settled_request:
  assumes "settled J s" "request_step K J srfb P s s'" "length (filter under_way (requests s')) \<le> 1"
  shows "settled J s'"
  using assms(2)
proof (cases rule: request_step.cases)
  case (handles i c op d' t)
  obtain us vs where f: "filter under_way (requests s) = us @ vs"
    "\<And>y. filter under_way ((requests s)[i := y]) = us @ (if under_way y then [y] else []) @ vs"
    using filter_update[OF handles(2), of under_way] handles(3) by auto
  show ?thesis
    using serve_armings[OF handles(5)]
  proof
    assume "armings t = [] \<and> poll_ms d' = poll_ms (device s)"
    with handles assms(1) f show ?thesis by (simp add: settled_def Let_def)
  next
    assume "armings t = [J (poll_ms d')]"
    with handles assms(3) f show ?thesis by (auto simp: settled_def Let_def)
  qed
next
  case (modifies i d ds)
  obtain us vs where f: "filter under_way (requests s) = us @ Arming (d # ds) # vs"
    "\<And>y. filter under_way ((requests s)[i := y]) = us @ (if under_way y then [y] else []) @ vs"
    using filter_update[OF modifies(2), of under_way] modifies(3) by auto
  have "us = [] \<and> vs = [] \<and> ds = [] \<and> d = J (poll_ms (device s))"
    using assms(1) f(1) by (auto simp: settled_def Let_def Cons_eq_append_conv append_eq_Cons_conv)
  with modifies f(2) show ?thesis by (simp add: settled_def mod_delayed_work_def in_force_now)
qed

interpretation serial: invariant_system "serial_step K J srfb P" "settled J" for K J srfb P
proof
  fix s s' assume "settled J s" "serial_step K J srfb P s s'"
  then show "settled J s'"
    using settled_work settled_timer settled_request unfolding serial_step_def polling_step_def by blast
qed

lemma start_settled:
  assumes "gpioctrl_init P J e c line = (Some s, l, t, lg, None)"
  shows "settled J (polling_start t s ps)" "polls (polling_start t s ps)"
proof -
  have "armings t = [J (poll_ms s)]"
    using assms by (auto simp: gpio_init_defs Let_def split: if_splits option.splits)
  moreover have "filter under_way (map (\<lambda>(c, op). Asked c op) ps) = []" by (induction ps) auto
  ultimately show "settled J (polling_start t s ps)" "polls (polling_start t s ps)"
    by (simp_all add: settled_def polls_def polling_start_def)
qed

lemma work_finishes:
  assumes "polls z"
  shows "\<exists>u. (polling_step K J srfb P)\<^sup>*\<^sup>* z u \<and> worker u = Idle \<and> pending u \<noteq> None \<and>
    requests u = requests z \<and> poll_ms (device u) = poll_ms (device z)"
proof -
  fix c
  obtain u where u: "(work_step J c)\<^sup>*\<^sup>* z u" "work_left (worker u) = 0"
    using work.completes[where J = J and c = c] by blast
  have same: "requests u = requests z \<and> poll_ms (device u) = poll_ms (device z)"
    using u(1) by (induction rule: rtranclp_induct) (simp_all add: work_requests)
  have idle: "worker u = Idle" using u(2) by (cases "worker u") simp_all
  note r = work_steps_polling[OF u(1), of K srfb P]
  have "polls u" by (rule going.steps_inv[OF r assms])
  with r same idle show ?thesis by (auto simp: polls_def)
qed

lemma polls_again:
  fixes c :: gpio_ctx
  assumes "polls z"
  shows "\<exists>v. (polling_step K J srfb P)\<^sup>*\<^sup>* z (v\<lparr>device := sampled c (device v), worker := Idle,
      pending := Some (J (poll_ms (device v)))\<rparr>) \<and> requests v = requests z \<and>
      poll_ms (device v) = poll_ms (device z)"
proof -
  obtain u where u: "(polling_step K J srfb P)\<^sup>*\<^sup>* z u" "worker u = Idle" "pending u \<noteq> None"
    "requests u = requests z" "poll_ms (device u) = poll_ms (device z)"
    using work_finishes[OF assms] by blast
  define v where "v = u\<lparr>pending := None, worker := Started\<rparr>"
  have "polling_step K J srfb P u v" using u(2,3) by (simp add: v_def polling_step_def timer_step_def)
  with u(1) have "(polling_step K J srfb P)\<^sup>*\<^sup>* z v" by (rule rtranclp.rtrancl_into_rtrancl)
  with work_steps_polling[OF work_alone[of v J c], of K srfb P] u(4,5) show ?thesis
    by (intro exI[of _ v]) (auto simp: v_def)
qed

text \<open>Two requests that store an interval, one after the other, and arm in the other order.\<close>

lemma overlapping_requests:
  assumes "kstr_documented K" "10 \<le> m" "m \<le> 60000" "10 \<le> n" "n \<le> 60000"
  shows "\<exists>z. (polling_step K J srfb P)\<^sup>*\<^sup>*
      (polling_start t s [(c, Poll_ms_store (dec m @ [newline])), (c', Poll_ms_store (dec n @ [newline]))]) z \<and>
    worker z = Idle \<and> filter under_way (requests z) = [] \<and>
    poll_ms (device z) = of_nat n \<and> pending z = Some (J (of_nat m))"
proof -
  let ?step = "polling_step K J srfb P"
  let ?a = "Asked c (Poll_ms_store (dec m @ [newline]))" and ?b = "Asked c' (Poll_ms_store (dec n @ [newline]))"
  define p where "p d q rs = \<lparr>device = d, pending = q, worker = Idle, requests = rs\<rparr>" for d q rs
  define d1 d2 where "d1 = s\<lparr>poll_ms := of_nat m\<rparr>" and "d2 = d1\<lparr>poll_ms := of_nat n\<rparr>"
  have step: "request_step K J srfb P x y \<Longrightarrow> ?step x y" for x y by (simp add: polling_step_def)
  have 1: "?step (p s q [?a, ?b]) (p d1 q [Arming [J (of_nat m)], ?b])" for q
    using handles[of 0 "p s q [?a, ?b]" c "Poll_ms_store (dec m @ [newline])" K J srfb P d1]
    by (intro step) (simp add: p_def d1_def poll_ms_stored[OF assms(1-3)])
  have 2: "?step (p d1 q [x, ?b]) (p d2 q [x, Arming [J (of_nat n)]])" for q x
    using handles[of 1 "p d1 q [x, ?b]" c' "Poll_ms_store (dec n @ [newline])" K J srfb P d2]
    by (intro step) (simp add: p_def d2_def poll_ms_stored[OF assms(1,4,5)])
  have 3: "?step (p d q [x, Arming [k]]) (p d (Some k) [x, Arming []])" for d q x k
    using modifies[of 1 "p d q [x, Arming [k]]" k "[]"] by (intro step) (simp add: p_def mod_delayed_work_def)
  have 4: "?step (p d q [Arming [k], y]) (p d (Some k) [Arming [], y])" for d q y k
    using modifies[of 0 "p d q [Arming [k], y]" k "[]"] by (intro step) (simp add: p_def mod_delayed_work_def)
  have start: "polling_start t s [(c, Poll_ms_store (dec m @ [newline])), (c', Poll_ms_store (dec n @ [newline]))]
      = p s (fold schedule_delayed_work (armings t) None) [?a, ?b]"
    by (simp add: polling_start_def p_def)
  have "?step\<^sup>*\<^sup>* (p s q [?a, ?b]) (p d2 (Some (J (of_nat m))) [Arming [], Arming []])" for q
    using converse_rtranclp_into_rtranclp[of ?step, OF 3 r_into_rtranclp[of ?step, OF 4]]
    by (rule converse_rtranclp_into_rtranclp[of ?step, OF 1 converse_rtranclp_into_rtranclp[of ?step, OF 2]])
  then show ?thesis
    unfolding start by (intro exI[of _ "p d2 (Some (J (of_nat m))) [Arming [], Arming []]"])
      (simp add: p_def d2_def)
qed

section \<open>Properties\<close>

text \<open>C9: polling never stops. After a successful load, whatever requests come and wherever the
  steps of the work function and theirs fall, the work item is pending or running; and from
  there on the timer and the work function alone, with requests left in the middle, lead to another
  sample of the button and to the work item pending with the interval that sysfs shows.\<close>

theorem polling_goes_on:
  fixes c :: gpio_ctx
  assumes "gpioctrl_init P J e c0 line = (Some s, l, t, lg, None)"
    and "(polling_step K J srfb P)\<^sup>*\<^sup>* (polling_start t s ps) z" and "0 \<le> button_in c"
  shows "\<not> (pending z = None \<and> worker z = Idle) \<and>
    (\<exists>z'. (polling_step K J srfb P)\<^sup>*\<^sup>* z z' \<and> worker z' = Idle \<and> requests z' = requests z \<and>
       button (device z') = button_in c \<and>
       led (device z') = desired_led (invert (device z')) (button_in c) \<and>
       poll_ms (device z') = poll_ms (device z) \<and> pending z' = Some (J (poll_ms (device z'))))"
proof
  have p: "polls z" by (rule going.steps_inv[OF assms(2) start_settled(2)[OF assms(1)]])
  then show "\<not> (pending z = None \<and> worker z = Idle)" by (simp add: polls_def)
  obtain v where v: "(polling_step K J srfb P)\<^sup>*\<^sup>* z (v\<lparr>device := sampled c (device v), worker := Idle,
      pending := Some (J (poll_ms (device v)))\<rparr>)" "requests v = requests z"
      "poll_ms (device v) = poll_ms (device z)"
    using polls_again[OF p, where c = c] by blast
  have "sampled c (device v) = sample_locked c (device v)" using assms(3) by (simp add: sampled_def)
  with v show "\<exists>z'. (polling_step K J srfb P)\<^sup>*\<^sup>* z z' \<and> worker z' = Idle \<and> requests z' = requests z \<and>
       button (device z') = button_in c \<and>
       led (device z') = desired_led (invert (device z')) (button_in c) \<and>
       poll_ms (device z') = poll_ms (device z) \<and> pending z' = Some (J (poll_ms (device z')))"
    by (intro exI[of _ "v\<lparr>device := sampled c (device v), worker := Idle,
      pending := Some (J (poll_ms (device v)))\<rparr>"]) simp
qed

theorem polling_goes_on_witness:
  "\<exists>z'. (polling_step ref_kstr unat ref_srfb (ref_params 500))\<^sup>*\<^sup>*
      (polling_start [Arm gpio_work 500] (ref_loaded 500 0) [(ref_ctx 0, Poll_ms_store ''20'')]) z' \<and>
    button (device z') = 1"
proof -
  have t: "polling_start [Acquire state_mem, Acquire gdev_ref, Lock state_lock, Unlock state_lock,
      Acquire gpioctrl_miscdev, Acquire gpioctrl_attr_group, Arm gpio_work (unat (500 :: u32))] = polling_start [Arm gpio_work 500]"
    by (simp add: polling_start_def fun_eq_iff)
  from polling_goes_on[OF ref_init[of 0 500] rtranclp.rtrancl_refl, of "ref_ctx 1" 
      "[(ref_ctx 0, Poll_ms_store ''20'')]" ref_kstr ref_srfb]
  show ?thesis unfolding t by (auto simp: ref_ctx_def)
qed

text \<open>C8: the interval in force. As long as requests do not overlap between their change of the
  interval and its arming, the work item, when it is not running and no request is under way,
  is pending with exactly the interval that is stored. Two writers that overlap there can
  leave it pending with the interval of the other: 10 milliseconds stored and shown, 60000
  armed.\<close>

theorem interval_in_force:
  assumes "gpioctrl_init P J e c0 line = (Some s, l, t, lg, None)"
    and "(serial_step K J srfb P)\<^sup>*\<^sup>* (polling_start t s ps) z"
    and "worker z = Idle" and "filter under_way (requests z) = []" and "kstr_documented K"
  shows "pending z = Some (J (poll_ms (device z))) \<and>
    (\<exists>y. (polling_step K J srfb P)\<^sup>*\<^sup>* (polling_start t s
         [(c, Poll_ms_store (''60000'' @ [newline])), (c', Poll_ms_store (''10'' @ [newline]))]) y \<and>
       worker y = Idle \<and> filter under_way (requests y) = [] \<and>
       poll_ms (device y) = 10 \<and> pending y = Some (J 60000))"
proof
  have "settled J z" by (rule serial.steps_inv[OF assms(2) start_settled(1)[OF assms(1)]])
  with assms(3,4) show "pending z = Some (J (poll_ms (device z)))" by (simp add: settled_def)
  have "dec 60000 = ''60000''" "dec 10 = ''10''" by (simp_all add: dec.simps digit_eval)
  then show "\<exists>y. (polling_step K J srfb P)\<^sup>*\<^sup>* (polling_start t s
         [(c, Poll_ms_store (''60000'' @ [newline])), (c', Poll_ms_store (''10'' @ [newline]))]) y \<and>
       worker y = Idle \<and> filter under_way (requests y) = [] \<and>
       poll_ms (device y) = 10 \<and> pending y = Some (J 60000)"
    using overlapping_requests[OF assms(5), of 60000 10 J srfb P t s c c'] by simp
qed

theorem interval_in_force_witness:
  "pending (polling_start [Arm gpio_work 500] (ref_loaded 500 0) []) = Some 500"
proof -
  let ?t = "[Acquire state_mem, Acquire gdev_ref, Lock state_lock, Unlock state_lock,
      Acquire gpioctrl_miscdev, Acquire gpioctrl_attr_group, Arm gpio_work (unat (500 :: u32))]"
  have t: "polling_start ?t = polling_start [Arm gpio_work 500]" by (simp add: polling_start_def fun_eq_iff)
  have i: "worker (polling_start ?t (ref_loaded 500 0) []) = Idle"
    "filter under_way (requests (polling_start ?t (ref_loaded 500 0) [])) = []"
    by (simp_all add: polling_start_def)
  from interval_in_force[OF ref_init[of 0 500] rtranclp.rtrancl_refl i ref_kstr_documented]
  show ?thesis unfolding t by (auto simp: polling_start_def ref_loaded_def)
qed

end
