(* ===== verification/GpioSampling.thy ===== *)
theory GpioSampling
  imports GpioCtrl Step_Systems
begin

text \<open>
  \<^verbatim>\<open>03_gpio_sim/gpioctrl.c\<close>: samples that overlap. \<open>gpioctrl_sample_once\<close> reads the button
  line before it takes the mutex, and the work function, every writer of \<open>sync\<close> and every writer
  of \<open>invert\<close> call it. Here a sample is two steps, the read and the section under the mutex,
  and the line moves between any two of them.
\<close>

section \<open>Steps\<close>

text \<open>
  Where a caller of \<open>gpioctrl_sample_once\<close> stands: before its store to \<open>invert\<close>, before the read,
  with the value it read, or returned, with success or with the error of the read.
\<close>

datatype sampler = Sets_invert bool | Reads | Has int | Returned | Read_failed

text \<open>\<open>line_moves\<close> counts how often the line moved; it is no variable of the code.\<close>

record sampling =
  driver :: gpio
  button_line :: int
  samplers :: "sampler list"
  line_moves :: nat

abbreviation stands_at :: "sampling \<Rightarrow> nat \<Rightarrow> sampler \<Rightarrow> bool" where
  "stands_at s i p \<equiv> i < length (samplers s) \<and> samplers s ! i = p"

abbreviation goes_to :: "nat \<Rightarrow> sampler \<Rightarrow> sampling \<Rightarrow> sampling" where
  "goes_to i p s \<equiv> s\<lparr>samplers := (samplers s)[i := p]\<rparr>"

inductive sampler_step :: "nat \<Rightarrow> sampling \<Rightarrow> sampling \<Rightarrow> bool" for i where
  stores: "stands_at s i (Sets_invert v) \<Longrightarrow>
    sampler_step i s (goes_to i Reads (s\<lparr>driver := (driver s)\<lparr>invert := v\<rparr>\<rparr>))"
| reads: "stands_at s i Reads \<Longrightarrow> sampler_step i s (goes_to i (Has (button_line s)) s)"
| fails: "stands_at s i Reads \<Longrightarrow> sampler_step i s (goes_to i Read_failed s)"
| updates: "stands_at s i (Has v) \<Longrightarrow>
    sampler_step i s (goes_to i Returned (s\<lparr>driver := sample_locked (c\<lparr>button_in := v\<rparr>) (driver s)\<rparr>))"

inductive calm_step :: "sampling \<Rightarrow> sampling \<Rightarrow> bool" where
  caller: "p \<in> {Sets_invert v, Reads} \<Longrightarrow> calm_step s (s\<lparr>samplers := samplers s @ [p]\<rparr>)"
| sampler: "sampler_step i s s' \<Longrightarrow> calm_step s s'"

inductive sampling_step :: "sampling \<Rightarrow> sampling \<Rightarrow> bool" where
  calm: "calm_step s s' \<Longrightarrow> sampling_step s s'"
| line: "0 \<le> b \<Longrightarrow> b \<noteq> button_line s \<Longrightarrow>
    sampling_step s (s\<lparr>button_line := b, line_moves := Suc (line_moves s)\<rparr>)"

definition sampling_start :: "gpio \<Rightarrow> int \<Rightarrow> sampling" where
  "sampling_start d b = \<lparr>driver = d, button_line = b, samplers = [], line_moves = 0\<rparr>"

inductive_simps sampler_step_iff: "sampler_step i s s'"
inductive_simps calm_step_iff: "calm_step s s'"
inductive_simps sampling_step_iff: "sampling_step s s'"

text \<open>A sample that nothing interrupts is the handler of \<open>GpioCtrl\<close>.\<close>

lemma sample_alone:
  assumes "stands_at s i Reads" "0 \<le> button_line s"
    and "gpioctrl_sample_once (c\<lparr>button_in := button_line s\<rparr>) f (driver s) = (d, cs, lg, r)"
  shows "(sampler_step i)\<^sup>*\<^sup>* s (goes_to i Returned (s\<lparr>driver := d\<rparr>)) \<and> r = Inr ()"
proof -
  let ?u = "goes_to i (Has (button_line s)) s"
  have "sampler_step i s ?u" using assms(1) by (rule reads)
  moreover have "sampler_step i ?u (goes_to i Returned (?u\<lparr>driver :=
      sample_locked (c\<lparr>button_in := button_line s\<rparr>) (driver ?u)\<rparr>))"
    by (rule updates) (use assms(1) in simp)
  moreover have "d = sample_locked (c\<lparr>button_in := button_line s\<rparr>) (driver s)" "r = Inr ()"
    using assms(2,3) by (auto simp: sample_once_eq sampled_def)
  ultimately show ?thesis by (auto intro: converse_rtranclp_into_rtranclp)
qed

section \<open>What holds of the LED in every interleaving\<close>

fun on_the_way :: "sampler \<Rightarrow> bool" where
  "on_the_way Reads = True"
| "on_the_way (Has v) = True"
| "on_the_way p = False"

fun has_value :: "sampler \<Rightarrow> bool" where
  "has_value (Has v) = True"
| "has_value p = False"

definition led_right :: "gpio \<Rightarrow> bool" where
  "led_right d \<longleftrightarrow> led d = desired_led (invert d) (button d)"

definition led_inv :: "sampling \<Rightarrow> bool" where
  "led_inv s \<longleftrightarrow> led_line (driver s) = led (driver s) \<and>
     (led_right (driver s) \<or> (\<exists>p \<in> set (samplers s). on_the_way p) \<or> Read_failed \<in> set (samplers s))"

lemma stands_member: "stands_at s i p \<Longrightarrow> p \<in> set (samplers s)"
  by (metis nth_mem)

lemma bex_update: "i < length xs \<Longrightarrow> P p \<Longrightarrow> \<exists>q \<in> set (xs[i := p]). P q"
  by (rule bexI[OF _ set_update_memI])

lemma sampler_step_led: "led_inv s \<Longrightarrow> sampler_step i s s' \<Longrightarrow> led_inv s'"
  by (auto simp: led_inv_def led_right_def sampler_step_iff sample_locked_line set_update_memI bex_update)

interpretation leds: invariant_system sampling_step led_inv
proof
  fix s s'
  assume i: "led_inv s" and s: "sampling_step s s'"
  from s show "led_inv s'"
  proof cases
    case calm
    then show ?thesis
    proof cases
      case (caller p v)
      with i show ?thesis by (auto simp: led_inv_def)
    next
      case (sampler i)
      with i show ?thesis by (blast intro: sampler_step_led)
    qed
  next
    case (line b)
    with i show ?thesis by (simp add: led_inv_def)
  qed
qed

section \<open>A line that stays is shown\<close>

text \<open>
  While the line does not move and no caller has an older value, every sample brings its value.
\<close>

definition fresh_values :: "sampling \<Rightarrow> bool" where
  "fresh_values s \<longleftrightarrow> (\<forall>v. Has v \<in> set (samplers s) \<longrightarrow> v = button_line s)"

definition shown :: "sampling \<Rightarrow> bool" where
  "shown s \<longleftrightarrow> button (driver s) = button_line s"

definition returned :: "sampling \<Rightarrow> nat" where
  "returned s = length (filter (\<lambda>p. p = Returned) (samplers s))"

definition settling :: "int \<Rightarrow> nat \<Rightarrow> sampling \<Rightarrow> bool" where
  "settling b n s \<longleftrightarrow> button_line s = b \<and> fresh_values s \<and> (shown s \<or> returned s = n)"

lemma filter_update_same:
  "i < length xs \<Longrightarrow> \<not> P (xs ! i) \<Longrightarrow> \<not> P p \<Longrightarrow> length (filter P (xs[i := p])) = length (filter P xs)"
  by (induction xs arbitrary: i) (auto split: nat.split simp: nth_Cons' list_update_code)

lemma set_updateD: "x \<in> set (xs[i := p]) \<Longrightarrow> x = p \<or> x \<in> set xs"
  using set_update_subset_insert by fastforce

interpretation settles: invariant_system calm_step "settling b n" for b n
proof
  fix s s'
  assume i: "settling b n s" and s: "calm_step s s'"
  from s show "settling b n s'"
  proof cases
    case (caller p v)
    with i show ?thesis by (auto simp: settling_def fresh_values_def shown_def returned_def)
  next
    case (sampler i)
    from this i show ?thesis
      by cases (auto simp: settling_def fresh_values_def shown_def returned_def filter_update_same
          dest!: set_updateD, (metis nth_mem)+)
  qed
qed

text \<open>The callers come to their end, and one more then shows the line.\<close>

fun steps_left :: "sampler \<Rightarrow> nat" where
  "steps_left (Sets_invert v) = 3"
| "steps_left Reads = 2"
| "steps_left (Has v) = 1"
| "steps_left p = 0"

definition sampler_work :: "sampling \<Rightarrow> nat" where
  "sampler_work s = sum_list (map steps_left (samplers s))"

lemma work_left:
  assumes "i < length ps" "steps_left p < steps_left (ps ! i)"
  shows "sum_list (map steps_left (ps[i := p])) < sum_list (map steps_left ps)"
proof -
  obtain A where "sum_list (map steps_left ps) = A + steps_left (ps ! i)"
      "sum_list (map steps_left (ps[i := p])) = A + steps_left p"
    using sum_list_update_split[OF assms(1), of steps_left] by metis
  with assms(2) show ?thesis by simp
qed

interpretation callers: live_system "\<lambda>s s'. \<exists>i. sampler_step i s s'" "\<lambda>_. True" sampler_work
proof
  fix s s'
  assume "\<exists>i. sampler_step i s s'"
  then show "sampler_work s' < sampler_work s"
    by (auto simp: sampler_work_def sampler_step_iff intro!: work_left)
next
  fix s
  assume "sampler_work s \<noteq> 0"
  then obtain p where "p \<in> set (samplers s)" "steps_left p \<noteq> 0" by (auto simp: sampler_work_def)
  then obtain i where "stands_at s i p" "steps_left p \<noteq> 0" by (auto simp: in_set_conv_nth)
  then show "\<exists>s'. \<exists>i. sampler_step i s s'"
    by (cases p) (auto intro: stores reads updates)
qed simp

lemma callers_calm: "(\<lambda>s s'. \<exists>i. sampler_step i s s')\<^sup>*\<^sup>* s s' \<Longrightarrow> calm_step\<^sup>*\<^sup>* s s'"
  by (induction rule: rtranclp_induct) (auto intro: rtranclp.rtrancl_into_rtrancl sampler)

lemma sampler_line: "sampler_step i s s' \<Longrightarrow> button_line s' = button_line s"
  by (auto simp: sampler_step_iff)

lemma callers_line: "(\<lambda>s s'. \<exists>i. sampler_step i s s')\<^sup>*\<^sup>* s s' \<Longrightarrow> button_line s' = button_line s"
  by (induction rule: rtranclp_induct) (auto dest: sampler_line)

lemma settles_at_last:
  assumes "led_inv s"
  shows "\<exists>z. calm_step\<^sup>*\<^sup>* s z \<and> filter on_the_way (samplers z) = [] \<and>
    button (driver z) = button_line s \<and>
    led_line (driver z) = desired_led (invert (driver z)) (button_line s)"
proof -
  obtain u where u: "(\<lambda>s s'. \<exists>i. sampler_step i s s')\<^sup>*\<^sup>* s u" "sampler_work u = 0"
    using callers.completes[of s] by auto
  have l: "led_inv u"
    using leds.steps_inv[of s u] callers_calm[OF u(1)] assms
    by (meson mono_rtranclp sampling_step.calm)
  let ?b = "button_line u" and ?n = "length (samplers u)"
  let ?r = "u\<lparr>samplers := samplers u @ [Reads]\<rparr>"
  let ?h = "u\<lparr>samplers := samplers u @ [Has ?b]\<rparr>"
  let ?z = "u\<lparr>driver := sample_locked ((ref_ctx 0)\<lparr>button_in := ?b\<rparr>) (driver u),
      samplers := samplers u @ [Returned]\<rparr>"
  have "calm_step u ?r" by (rule caller) simp
  moreover have "calm_step ?r ?h" using sampler[OF reads[of ?n ?r]] by simp
  moreover have "calm_step ?h ?z" using sampler[OF updates[of ?n ?h ?b "ref_ctx 0"]] by simp
  ultimately have "calm_step\<^sup>*\<^sup>* s ?z"
    using callers_calm[OF u(1)] by (meson rtranclp.rtrancl_into_rtrancl)
  moreover have "\<not> on_the_way p" if "p \<in> set (samplers u)" for p
    using u(2) that by (cases p) (auto simp: sampler_work_def)
  ultimately show ?thesis
    using callers_line[OF u(1)] l sample_locked_line
    by (intro exI[of _ ?z]) (auto simp: filter_empty_conv led_inv_def)
qed

section \<open>Counting changes\<close>

text \<open>
  Each counted change is a move of the line as long as at most one caller is between its read and
  its section under the mutex.
\<close>

definition differs :: "int \<Rightarrow> int \<Rightarrow> nat" where
  "differs a b = (if a = b then 0 else 1)"

fun in_hand :: "sampler list \<Rightarrow> int list" where
  "in_hand [] = []"
| "in_hand (Has v # ps) = v # in_hand ps"
| "in_hand (p # ps) = in_hand ps"

definition serial_sampling :: "sampling \<Rightarrow> sampling \<Rightarrow> bool" where
  "serial_sampling s s' \<longleftrightarrow> sampling_step s s' \<and> length (in_hand (samplers s')) \<le> 1"

fun gap :: "int \<Rightarrow> int list \<Rightarrow> int \<Rightarrow> nat" where
  "gap b [] l = differs b l"
| "gap b (v # vs) l = differs b v + differs v l"

definition changes_inv :: "sampling \<Rightarrow> bool" where
  "changes_inv s \<longleftrightarrow> length (in_hand (samplers s)) \<le> 1 \<and>
     unat (changes (driver s)) + gap (button (driver s)) (in_hand (samplers s)) (button_line s) \<le> line_moves s"

lemma unat_add_if: "unat (x + (if b then 1 else 0) :: u64) \<le> unat x + (if b then 1 else 0)"
  by (simp add: unat_word_ariths)

lemma in_hand_Cons: "in_hand (p # ps) = in_hand [p] @ in_hand ps"
  by (cases p) simp_all

lemma in_hand_append [simp]: "in_hand (ps @ qs) = in_hand ps @ in_hand qs"
  by (induction ps rule: in_hand.induct) simp_all

lemma in_hand_update:
  assumes "i < length ps"
  obtains as bs where "in_hand ps = as @ in_hand [ps ! i] @ bs" "in_hand (ps[i := p]) = as @ in_hand [p] @ bs"
proof
  show "in_hand ps = in_hand (take i ps) @ in_hand [ps ! i] @ in_hand (drop (Suc i) ps)"
    using assms by (metis append_Cons append_Nil id_take_nth_drop in_hand_append)
  show "in_hand (ps[i := p]) = in_hand (take i ps) @ in_hand [p] @ in_hand (drop (Suc i) ps)"
    using assms by (metis append_Cons append_Nil upd_conv_take_nth_drop in_hand_append)
qed

lemma sampler_changes:
  assumes "changes_inv s" "sampler_step i s s'" "length (in_hand (samplers s')) \<le> 1"
  shows "changes_inv s'"
  using assms(2)
proof cases
  case (stores v)
  then obtain as bs where "in_hand (samplers s) = as @ bs" "in_hand (samplers s') = as @ bs"
    using in_hand_update[of i "samplers s" Reads] by auto
  with stores assms(1) show ?thesis by (auto simp: changes_inv_def)
next
  case reads
  then obtain as bs where "in_hand (samplers s) = as @ bs" "in_hand (samplers s') = as @ button_line s # bs"
    using in_hand_update[of i "samplers s" "Has (button_line s)"] by auto
  with assms(3) have "in_hand (samplers s) = []" "in_hand (samplers s') = [button_line s]" by auto
  with reads assms(1) show ?thesis by (auto simp: changes_inv_def differs_def)
next
  case fails
  then obtain as bs where "in_hand (samplers s) = as @ bs" "in_hand (samplers s') = as @ bs"
    using in_hand_update[of i "samplers s" Read_failed] by auto
  with fails assms(1) show ?thesis by (auto simp: changes_inv_def)
next
  case (updates v c)
  then obtain as bs where "in_hand (samplers s) = as @ v # bs" "in_hand (samplers s') = as @ bs"
    using in_hand_update[of i "samplers s" Returned] by auto
  with assms(1) have h: "in_hand (samplers s) = [v]" "in_hand (samplers s') = []"
    by (auto simp: changes_inv_def)
  have "unat (changes (driver s')) \<le> unat (changes (driver s)) + differs (button (driver s)) v"
    using updates unat_add_if[of "changes (driver s)" "button_changed v (driver s)"]
    by (auto simp: button_changed_def differs_def)
  with h updates assms(1) show ?thesis by (auto simp: changes_inv_def)
qed

interpretation counted_changes: invariant_system serial_sampling changes_inv
proof
  fix s s'
  assume i: "changes_inv s" and "serial_sampling s s'"
  then have s: "sampling_step s s'" and l: "length (in_hand (samplers s')) \<le> 1"
    by (simp_all add: serial_sampling_def)
  from s show "changes_inv s'"
  proof cases
    case calm
    then show ?thesis
    proof cases
      case (caller p v)
      with i show ?thesis by (auto simp: changes_inv_def)
    next
      case (sampler j)
      with i l show ?thesis by (blast intro: sampler_changes)
    qed
  next
    case (line b)
    with i show ?thesis
      by (cases "in_hand (samplers s)") (auto simp: changes_inv_def differs_def split: if_splits)
  qed
qed

section \<open>Properties\<close>

lemma init_sampled:
  assumes "gpioctrl_init P J e c line0 = (Some d, l, t, lg, None)"
  shows "led_line d = led d" "led_right d" "button d = button_in c" "changes d = 0" "0 \<le> button_in c"
  using assms by (auto simp: gpio_init_defs led_right_def Let_def split: if_splits option.splits)

lemma in_hand_fresh: "in_hand (samplers s) = [] \<Longrightarrow> fresh_values s"
proof -
  have "v \<in> set (in_hand ps)" if "Has v \<in> set ps" for v ps
    using that by (induction ps rule: in_hand.induct) auto
  then show "in_hand (samplers s) = [] \<Longrightarrow> fresh_values s" by (fastforce simp: fresh_values_def)
qed

text \<open>C10: the LED shows the button. From a successful load on, with samples of the work function and of any
  writers overlapping, the line and \<open>invert\<close> changing in between: once the line stays where it is and
  nobody holds a value read before, each sample that returns brings the value of the line, and
  it stays; the LED is that value, inverted as set, unless a caller is between its store to
  \<open>invert\<close> and the end of its sample or a read failed. And the callers and one more sample do reach such
  a state from wherever they are.\<close>

theorem samples_settle:
  assumes "gpioctrl_init P J e c line0 = (Some d, l, t, lg, None)"
    and "sampling_step\<^sup>*\<^sup>* (sampling_start d (button_in c)) s" and "in_hand (samplers s) = []"
    and "calm_step\<^sup>*\<^sup>* s z" and "returned s < returned z"
  shows "button (driver z) = button_line s \<and> led_line (driver z) = led (driver z) \<and>
    (if filter on_the_way (samplers z) = [] \<and> Read_failed \<notin> set (samplers z)
     then led_line (driver z) = desired_led (invert (driver z)) (button_line s) else True) \<and>
    (\<exists>y. calm_step\<^sup>*\<^sup>* z y \<and> filter on_the_way (samplers y) = [] \<and> button (driver y) = button_line s \<and>
       led_line (driver y) = desired_led (invert (driver y)) (button_line s))"
proof -
  have "led_inv (sampling_start d (button_in c))"
    using init_sampled[OF assms(1)] by (simp add: led_inv_def sampling_start_def)
  with assms(2) have s: "led_inv s" by (rule leds.steps_inv)
  have "sampling_step\<^sup>*\<^sup>* s z" using assms(4) by (meson mono_rtranclp sampling_step.calm)
  from this s have z: "led_inv z" by (rule leds.steps_inv)
  have "settling (button_line s) (returned s) s"
    using in_hand_fresh[OF assms(3)] by (simp add: settling_def)
  with assms(4) have "settling (button_line s) (returned s) z" by (rule settles.steps_inv)
  with assms(5) have b: "button (driver z) = button_line s" "button_line z = button_line s"
    by (simp_all add: settling_def shown_def)
  with z settles_at_last[OF z] show ?thesis
    by (auto simp: led_inv_def led_right_def filter_empty_conv)
qed

theorem samples_settle_witness:
  "\<exists>z. calm_step\<^sup>*\<^sup>* (sampling_start (ref_loaded 500 0) 0) z \<and> samplers z = [Returned] \<and>
     button (driver z) = 0 \<and> led_line (driver z) = 0"
proof -
  let ?w = "\<lambda>g ps. \<lparr>driver = g, button_line = 0, samplers = ps, line_moves = 0\<rparr>"
  let ?d = "ref_loaded 500 0" and ?c = "(ref_ctx 0)\<lparr>button_in := 0\<rparr>"
  let ?z = "?w (sample_locked ?c ?d) [Returned]"
  have "calm_step (?w ?d []) (?w ?d [Reads])" using caller[of Reads undefined "?w ?d []"] by simp
  moreover have "calm_step (?w ?d [Reads]) (?w ?d [Has 0])"
    using sampler[OF reads[of 0 "?w ?d [Reads]"]] by simp
  moreover have "calm_step (?w ?d [Has 0]) ?z"
    using sampler[OF updates[of 0 "?w ?d [Has 0]" 0 "ref_ctx 0"]] by simp
  ultimately have z: "calm_step\<^sup>*\<^sup>* (sampling_start ?d 0) ?z"
    unfolding sampling_start_def by (meson converse_rtranclp_into_rtranclp rtranclp.rtrancl_refl)
  have b: "button_in (ref_ctx 0) = 0" "invert ?d = False" by (simp_all add: ref_ctx_def ref_loaded_def)
  have "button (driver ?z) = 0 \<and> led_line (driver ?z) = 0"
    using samples_settle[OF ref_init[of 0 500] rtranclp.rtrancl_refl, of ?z] z b
    by (simp add: sampling_start_def returned_def desired_led_def)
  with z show ?thesis by (intro exI[of _ ?z]) simp
qed

text \<open>C16: the statistics of overlapping samples. When at most one caller at a time is between its read and its
  section under the mutex, the changes counted are at most the moves of the line. Two callers can turn one
  move into two changes: the one that read the old value enters last, so that after both
  have returned the recorded button and the LED are as before the move, and stay so until the next sample.\<close>

theorem changes_counted:
  assumes "gpioctrl_init P J e c line0 = (Some d, l, t, lg, None)"
    and "serial_sampling\<^sup>*\<^sup>* (sampling_start d (button_in c)) s"
  shows "unat (changes (driver s)) \<le> line_moves s \<and>
    (\<exists>z. sampling_step\<^sup>*\<^sup>* (sampling_start d (button_in c)) z \<and> samplers z = [Returned, Returned] \<and>
       line_moves z = 1 \<and> button_line z \<noteq> button_in c \<and> changes (driver z) = 2 \<and>
       button (driver z) = button_in c \<and> led_line (driver z) = desired_led (invert d) (button_in c))"
proof
  note i = init_sampled[OF assms(1)]
  have "changes_inv (sampling_start d (button_in c))"
    using i by (simp add: changes_inv_def sampling_start_def differs_def)
  with assms(2) have "changes_inv s" by (rule counted_changes.steps_inv)
  then show "unat (changes (driver s)) \<le> line_moves s" by (simp add: changes_inv_def)
  let ?v = "button_in c" let ?b = "if ?v = 0 then 1 else 0 :: int"
  let ?w = "\<lambda>g b ps n. \<lparr>driver = g, button_line = b, samplers = ps, line_moves = n\<rparr>"
  let ?d1 = "sample_locked (c\<lparr>button_in := ?b\<rparr>) d"
  let ?d2 = "sample_locked (c\<lparr>button_in := ?v\<rparr>) ?d1"
  have "sampling_step (?w d ?v [] 0) (?w d ?v [Reads] 0)"
    using calm[OF caller[of Reads undefined "?w d ?v [] 0"]] by simp
  moreover have "sampling_step (?w d ?v [Reads] 0) (?w d ?v [Reads, Reads] 0)"
    using calm[OF caller[of Reads undefined "?w d ?v [Reads] 0"]] by simp
  moreover have "sampling_step (?w d ?v [Reads, Reads] 0) (?w d ?v [Has ?v, Reads] 0)"
    using calm[OF sampler[OF reads[of 0 "?w d ?v [Reads, Reads] 0"]]] by simp
  moreover have "sampling_step (?w d ?v [Has ?v, Reads] 0) (?w d ?b [Has ?v, Reads] 1)"
    using line[of ?b "?w d ?v [Has ?v, Reads] 0"] by simp
  moreover have "sampling_step (?w d ?b [Has ?v, Reads] 1) (?w d ?b [Has ?v, Has ?b] 1)"
    using calm[OF sampler[OF reads[of 1 "?w d ?b [Has ?v, Reads] 1"]]] by simp
  moreover have "sampling_step (?w d ?b [Has ?v, Has ?b] 1) (?w ?d1 ?b [Has ?v, Returned] 1)"
    using calm[OF sampler[OF updates[of 1 "?w d ?b [Has ?v, Has ?b] 1" ?b c]]] by simp
  moreover have "sampling_step (?w ?d1 ?b [Has ?v, Returned] 1) (?w ?d2 ?b [Returned, Returned] 1)"
    using calm[OF sampler[OF updates[of 0 "?w ?d1 ?b [Has ?v, Returned] 1" ?v c]]] by simp
  ultimately have "sampling_step\<^sup>*\<^sup>* (sampling_start d ?v) (?w ?d2 ?b [Returned, Returned] 1)"
    unfolding sampling_start_def by (meson converse_rtranclp_into_rtranclp rtranclp.rtrancl_refl)
  moreover have "changes ?d2 = 2" "button ?d2 = ?v" "led_line ?d2 = desired_led (invert d) ?v"
    using i sample_locked_line[OF sample_locked_line[OF i(1)], of "c\<lparr>button_in := ?v\<rparr>" "c\<lparr>button_in := ?b\<rparr>"]
    by (auto simp: button_changed_def)
  ultimately show "\<exists>z. sampling_step\<^sup>*\<^sup>* (sampling_start d ?v) z \<and> samplers z = [Returned, Returned] \<and>
       line_moves z = 1 \<and> button_line z \<noteq> ?v \<and> changes (driver z) = 2 \<and>
       button (driver z) = ?v \<and> led_line (driver z) = desired_led (invert d) ?v"
    by (intro exI[of _ "?w ?d2 ?b [Returned, Returned] 1"]) simp
qed

theorem changes_counted_witness:
  "\<exists>z. sampling_step\<^sup>*\<^sup>* (sampling_start (ref_loaded 500 0) 0) z \<and> changes (driver z) = 2 \<and>
     button_line z \<noteq> 0 \<and> led_line (driver z) = 0"
  using changes_counted[OF ref_init[of 0 500] rtranclp.rtrancl_refl]
  by (auto simp: ref_ctx_def ref_loaded_def desired_led_def)

end
