(* ===== verification/WaitSleep.thy ===== *)
theory WaitSleep
  imports WaitQueues Step_Systems
begin

text \<open>
  \<^verbatim>\<open>12_wait_queues_blocking/wait_queues_blocking.c\<close> with readers that sleep. In
  \<open>WaitQueues\<close> a reader in the wait may go on whenever the flag is up. The wait of the kernel
  promises less: \<open>wait_event_interruptible\<close> looks at the condition, sleeps while it is false, and
  looks again only when \<open>wake_up_interruptible\<close> or a signal has woken the task. Here the wake-up is a
  step of its own, made by a producer after it set the flag, and a reader that sleeps makes none. Every run
  is one of \<open>WaitQueues\<close>, so what is proved there holds here; and no wake-up is lost.
\<close>

section \<open>Steps\<close>

text \<open>
  \<open>asleep\<close> are the readers that found the condition false and sleep in the queue; \<open>wakes\<close> counts
  the producers between \<open>atomic_set\<close> and the end of \<open>wake_up_interruptible\<close>.
\<close>

record sleeping =
  queue :: bq
  asleep :: "nat set"
  wakes :: nat

definition sleeping_start :: sleeping where
  "sleeping_start = \<lparr>queue = bq_static, asleep = {}, wakes = 0\<rparr>"

inductive awake_step :: "nat \<Rightarrow> sleeping \<Rightarrow> sleeping \<Rightarrow> bool" for i where
  runs: "i \<notin> asleep w \<Longrightarrow> reader_step i (queue w) q \<Longrightarrow> awake_step i w (w\<lparr>queue := q\<rparr>)"
| sleeps: "at (queue w) i Waiting \<Longrightarrow> \<not> data_ready (queue w) \<Longrightarrow>
    awake_step i w (w\<lparr>asleep := insert i (asleep w)\<rparr>)"

inductive publish_step :: "sleeping \<Rightarrow> sleeping \<Rightarrow> bool" where
  counts: "publish_step w (w\<lparr>queue := (queue w)\<lparr>event_id := event_id (queue w) + 1,
    produced := Suc (produced (queue w)), pending := Suc (pending (queue w))\<rparr>\<rparr>)"
| sets: "pending (queue w) = Suc n \<Longrightarrow>
    publish_step w (w\<lparr>queue := (queue w)\<lparr>data_ready := True, pending := n\<rparr>, wakes := Suc (wakes w)\<rparr>)"
| wakes_all: "wakes w = Suc n \<Longrightarrow> publish_step w (w\<lparr>asleep := {}, wakes := n\<rparr>)"

text \<open>A signal ends the sleep of one reader.\<close>

inductive sleeping_step :: "sleeping \<Rightarrow> sleeping \<Rightarrow> bool" where
  arrives: "sleeping_step w (w\<lparr>queue := (queue w)\<lparr>readers := readers (queue w) @ [Xchg nonblock]\<rparr>\<rparr>)"
| reader: "awake_step i w w' \<Longrightarrow> sleeping_step w w'"
| producer: "publish_step w w' \<Longrightarrow> sleeping_step w w'"
| signalled: "sleeping_step w (w\<lparr>asleep := asleep w - {i}\<rparr>)"

inductive_simps awake_step_iff: "awake_step i w w'"
inductive_simps publish_step_iff: "publish_step w w'"
inductive_simps sleeping_step_iff: "sleeping_step w w'"

section \<open>Every run is a run of the readers that never sleep\<close>

lemma publish_step_core: "publish_step w w' \<Longrightarrow> queue w' = queue w \<or> bq_step (queue w) (queue w')"
  by (auto simp: publish_step_iff intro: bq_step.count_event bq_step.set_flag)

lemma sleeping_step_core: "sleeping_step w w' \<Longrightarrow> queue w' = queue w \<or> bq_step (queue w) (queue w')"
  by (auto simp: sleeping_step_iff awake_step_iff intro: bq_step.arrive bq_step.reads dest: publish_step_core)

lemma sleeping_core: "sleeping_step\<^sup>*\<^sup>* w w' \<Longrightarrow> bq_step\<^sup>*\<^sup>* (queue w) (queue w')"
  by (induction rule: rtranclp_induct) (auto dest!: sleeping_step_core intro: rtranclp.rtrancl_into_rtrancl)

section \<open>No wake-up is lost\<close>

definition wake_inv :: "sleeping \<Rightarrow> bool" where
  "wake_inv w \<longleftrightarrow> (\<forall>i \<in> asleep w. at (queue w) i Waiting) \<and>
     (if data_ready (queue w) then asleep w = {} \<or> 0 < wakes w else True)"

text \<open>A reader moves itself only, and raises no flag.\<close>

lemma reader_step_others: "reader_step i s s' \<Longrightarrow> j \<noteq> i \<Longrightarrow> at s j r \<Longrightarrow> at s' j r"
  by (auto elim!: reader_step.cases simp: at_def move_def)

lemma reader_step_flag: "reader_step i s s' \<Longrightarrow> data_ready s' \<Longrightarrow> data_ready s"
  by (auto elim!: reader_step.cases)

lemma awake_step_inv:
  assumes "wake_inv w" "awake_step i w w'"
  shows "wake_inv w'"
  using assms(2)
proof cases
  case (runs q)
  then have "at q j Waiting" if "j \<in> asleep w" for j
    using that assms(1) reader_step_others[OF runs(3)] by (metis wake_inv_def)
  with runs assms(1) show ?thesis
    by (auto simp: wake_inv_def dest: reader_step_flag split: if_splits)
next
  case sleeps
  with assms(1) show ?thesis by (auto simp: wake_inv_def)
qed

lemma publish_step_inv: "wake_inv w \<Longrightarrow> publish_step w w' \<Longrightarrow> wake_inv w'"
  by (auto simp: wake_inv_def publish_step_iff at_def split: if_splits)

interpretation wakeful: invariant_system sleeping_step wake_inv
proof
  fix w w'
  assume i: "wake_inv w" and s: "sleeping_step w w'"
  from s show "wake_inv w'"
  proof cases
    case (arrives nonblock)
    with i show ?thesis by (auto simp: wake_inv_def at_def nth_append split: if_splits)
  next
    case (reader i)
    with i show ?thesis by (rule awake_step_inv)
  next
    case producer
    with i show ?thesis by (rule publish_step_inv)
  next
    case (signalled i)
    with i show ?thesis by (auto simp: wake_inv_def split: if_splits)
  qed
qed


lemma sleeping_start_inv: "wake_inv sleeping_start"
  by (simp add: wake_inv_def sleeping_start_def)

section \<open>A sleeping reader is served\<close>

text \<open>The producers that have set the flag come to their end, and wake everybody.\<close>

lemma wakes_end: "publish_step\<^sup>*\<^sup>* w (w\<lparr>asleep := {}, wakes := 0\<rparr>)" if "0 < wakes w"
  using that
proof (induction "wakes w" arbitrary: w)
  case (Suc n)
  have s: "publish_step w (w\<lparr>asleep := {}, wakes := n\<rparr>)" using Suc(2) by (intro wakes_all) simp
  show ?case
  proof (cases "n = 0")
    case False
    with Suc(1)[of "w\<lparr>asleep := {}, wakes := n\<rparr>"] s show ?thesis
      by (auto intro: converse_rtranclp_into_rtranclp)
  qed (use s in auto)
qed simp

text \<open>A reader that is awake makes the steps of \<open>WaitQueues\<close>.\<close>

lemma awake_runs:
  "(reader_step i)\<^sup>*\<^sup>* (queue w) q \<Longrightarrow> i \<notin> asleep w \<Longrightarrow> (awake_step i)\<^sup>*\<^sup>* w (w\<lparr>queue := q\<rparr>)"
proof (induction rule: rtranclp_induct)
  case (step q q')
  then have "awake_step i (w\<lparr>queue := q\<rparr>) (w\<lparr>queue := q\<rparr>\<lparr>queue := q'\<rparr>)"
    by (intro runs) simp_all
  with step show ?case by (auto intro: rtranclp.rtrancl_into_rtrancl)
qed simp

text \<open>C12: no wake-up is lost. Readers sleep in the wait and look at the flag again only when they are
  woken. In every interleaving with the producers, each of which sets the flag before it wakes the queue,
  the readers and variables are in a state that \<open>WaitQueues\<close> reaches; a reader sleeps only in the wait,
  and while the flag is up only if a producer has its wake-up still to make. So wherever a reader is on its
  way to the exchange while the flag is up, the wake-ups that are due and its own steps let it
  return the current event.\<close>

theorem no_wakeup_lost:
  assumes "sleeping_step\<^sup>*\<^sup>* sleeping_start w"
  shows "bq_reach (queue w) \<and> (\<forall>i. if i \<in> asleep w then at (queue w) i Waiting else True) \<and>
    \<not> (data_ready (queue w) \<and> wakes w = 0 \<and> asleep w \<noteq> {}) \<and>
    (if data_ready (queue w) \<and> at (queue w) i r \<and> r \<in> {Xchg nonblock, Enter, Waiting, Woken}
     then \<exists>v z. publish_step\<^sup>*\<^sup>* w v \<and> (awake_step i)\<^sup>*\<^sup>* v z \<and> at (queue z) i (Result (event_id (queue w)))
     else True)"
proof (intro conjI)
  have i: "wake_inv w" by (rule wakeful.steps_inv[OF assms sleeping_start_inv])
  show "bq_reach (queue w)"
    by (rule bq_reach_steps[OF bq_reach.start]) (use sleeping_core[OF assms] in \<open>simp add: sleeping_start_def\<close>)
  show "\<forall>i. if i \<in> asleep w then at (queue w) i Waiting else True"
    "\<not> (data_ready (queue w) \<and> wakes w = 0 \<and> asleep w \<noteq> {})"
    using i by (auto simp: wake_inv_def)
  have "\<exists>v z. publish_step\<^sup>*\<^sup>* w v \<and> (awake_step i)\<^sup>*\<^sup>* v z \<and> at (queue z) i (Result (event_id (queue w)))"
    if a: "data_ready (queue w) \<and> at (queue w) i r \<and> r \<in> {Xchg nonblock, Enter, Waiting, Woken}"
  proof -
    obtain q where q: "(reader_step i)\<^sup>*\<^sup>* (queue w) q" "at q i (Result (event_id (queue w)))"
      using a reader_served[of "queue w" i r nonblock] by blast
    obtain v where v: "publish_step\<^sup>*\<^sup>* w v" "queue v = queue w" "asleep v = {}"
    proof (cases "asleep w = {}")
      case False
      with a i have "0 < wakes w" by (simp add: wake_inv_def)
      from that[OF wakes_end[OF this]] show ?thesis by simp
    qed (rule that, auto)
    with q have "(awake_step i)\<^sup>*\<^sup>* v (v\<lparr>queue := q\<rparr>)" by (intro awake_runs) simp_all
    with v q show ?thesis by (intro exI conjI) (assumption, assumption, simp)
  qed
  then show "if data_ready (queue w) \<and> at (queue w) i r \<and> r \<in> {Xchg nonblock, Enter, Waiting, Woken}
     then \<exists>v z. publish_step\<^sup>*\<^sup>* w v \<and> (awake_step i)\<^sup>*\<^sup>* v z \<and> at (queue z) i (Result (event_id (queue w)))
     else True" by simp
qed

text \<open>A reader arrives, goes to sleep, and an event is published; when the queue has been woken it gets it.\<close>

definition ref_sleeper :: sleeping where
  \<comment> \<open>the first reader sleeps, the flag is up and the wake-up is still to come\<close>
  "ref_sleeper = \<lparr>queue = publish (bq_static\<lparr>readers := [Waiting], waiter_count := 1\<rparr>), asleep = {0}, wakes = 1\<rparr>"

lemma ref_sleeper_reached: "sleeping_step\<^sup>*\<^sup>* sleeping_start ref_sleeper"
proof -
  let ?q = "\<lambda>r n. bq_static\<lparr>readers := [r], waiter_count := n\<rparr>"
  let ?w = "\<lambda>r n a. \<lparr>queue = ?q r n, asleep = a, wakes = 0\<rparr>"
  have 1: "sleeping_step sleeping_start (?w (Xchg False) 0 {})"
    using arrives[of sleeping_start False] by (simp add: sleeping_start_def bq_static_def)
  have "reader_step 0 (?q (Xchg False) 0) (?q Enter 0)"
    using miss[of "?q (Xchg False) 0" 0] by (simp add: at_def move_def bq_static_def)
  then have 2: "sleeping_step (?w (Xchg False) 0 {}) (?w Enter 0 {})"
    using reader[OF runs[of 0 "?w (Xchg False) 0 {}" "?q Enter 0"]] by simp
  have "reader_step 0 (?q Enter 0) (?q Waiting 1)"
    using enter[of "?q Enter 0" 0] by (simp add: at_def move_def bq_static_def)
  then have 3: "sleeping_step (?w Enter 0 {}) (?w Waiting 1 {})"
    using reader[OF runs[of 0 "?w Enter 0 {}" "?q Waiting 1"]] by simp
  have 4: "sleeping_step (?w Waiting 1 {}) (?w Waiting 1 {0})"
    using reader[OF sleeps[of "?w Waiting 1 {}" 0]] by (simp add: at_def bq_static_def)
  let ?c = "?q Waiting 1\<lparr>event_id := 1, produced := 1, pending := 1\<rparr>"
  have 5: "sleeping_step (?w Waiting 1 {0}) (?w Waiting 1 {0}\<lparr>queue := ?c\<rparr>)"
    using producer[OF counts[of "?w Waiting 1 {0}"]] by (simp add: bq_static_def)
  have 6: "sleeping_step (?w Waiting 1 {0}\<lparr>queue := ?c\<rparr>) ref_sleeper"
    using producer[OF sets[of "?w Waiting 1 {0}\<lparr>queue := ?c\<rparr>" 0]]
    by (simp add: ref_sleeper_def publish_def bq_static_def)
  from 1 2 3 4 5 6 show ?thesis by (meson converse_rtranclp_into_rtranclp rtranclp.rtrancl_refl)
qed

theorem no_wakeup_lost_witness:
  "\<exists>v z. publish_step\<^sup>*\<^sup>* ref_sleeper v \<and> (awake_step 0)\<^sup>*\<^sup>* v z \<and> at (queue z) 0 (Result 1)"
  using no_wakeup_lost[OF ref_sleeper_reached, of 0 Waiting False]
  by (simp add: ref_sleeper_def publish_def at_def bq_static_def)

end
