(* ===== verification/Interfaces.thy ===== *)
theory Interfaces
  imports TokenBucket Kthreads ReadWriteCdev IoctlBasics GpioCtrl KernelMemory WaitQueues
    TimersWorkqueues ProcfsSeqfile DebugfsSysfs StressTest
begin

text \<open>
  The files through which user space reaches the modules: the tables (\<open>file_operations\<close>,
  \<open>proc_ops\<close>, \<open>kernel_param_ops\<close>, attribute groups, \<open>miscdevice\<close>) that the code hands to the
  kernel, as functions from an access to the operation of the module's machine that serves
  it; a missing member of a table is \<open>None\<close>. They show that the machines have exactly the
  operations that files can ask for, besides those that timers, workers and threads run.
\<close>

section \<open>Tables\<close>

datatype access = Opening | Releasing | Reads nat int | Writes string int | Seeking | Polling | Ioctls u32

text \<open>\<open>perm\<close> has the digits of the octal mode, or none where the driver leaves it to the kernel.\<close>

record 'p node =
  place :: string
  perm :: "nat list"
  operations :: "access \<Rightarrow> 'p option"

definition attr_ops :: "'p option \<Rightarrow> (string \<Rightarrow> 'p) option \<Rightarrow> access \<Rightarrow> 'p option" where
  "attr_ops show store a =
     (case a of Reads n pos \<Rightarrow> show | Writes b pos \<Rightarrow> map_option (\<lambda>f. f b) store | _ \<Rightarrow> None)"

definition attr_ro :: "string \<Rightarrow> string \<Rightarrow> 'p \<Rightarrow> 'p node" where
  "attr_ro dir name show = \<lparr>place = dir @ name, perm = [4, 4, 4], operations = attr_ops (Some show) None\<rparr>"

definition attr_wo :: "string \<Rightarrow> string \<Rightarrow> (string \<Rightarrow> 'p) \<Rightarrow> 'p node" where
  "attr_wo dir name store = \<lparr>place = dir @ name, perm = [2, 0, 0], operations = attr_ops None (Some store)\<rparr>"

definition attr_rw :: "string \<Rightarrow> string \<Rightarrow> 'p \<Rightarrow> (string \<Rightarrow> 'p) \<Rightarrow> 'p node" where
  "attr_rw dir name show store =
     \<lparr>place = dir @ name, perm = [6, 4, 4], operations = attr_ops (Some show) (Some store)\<rparr>"

text \<open>The operations that some access to one of the files asks for.\<close>

definition reached :: "'p node list \<Rightarrow> 'p set" where
  "reached fs = {p. \<exists>f \<in> set fs. \<exists>a. operations f a = Some p}"

lemma reached_Nil [simp]: "reached [] = {}"
  by (simp add: reached_def)

lemma reached_Cons [simp]: "reached (f # fs) = {p. \<exists>a. operations f a = Some p} \<union> reached fs"
  by (auto simp: reached_def)

lemma ex_access:
  "(\<exists>a. Q a) \<longleftrightarrow> Q Opening \<or> Q Releasing \<or> (\<exists>n pos. Q (Reads n pos)) \<or> (\<exists>b pos. Q (Writes b pos)) \<or>
     Q Seeking \<or> Q Polling \<or> (\<exists>c. Q (Ioctls c))"
  by (metis access.exhaust)

lemma attr_ops_simps [simp]:
  "attr_ops show store Opening = None" "attr_ops show store Releasing = None"
  "attr_ops show store (Reads n pos) = show"
  "attr_ops show store (Writes b pos) = map_option (\<lambda>f. f b) store"
  "attr_ops show store Seeking = None" "attr_ops show store Polling = None"
  "attr_ops show store (Ioctls c) = None"
  by (simp_all add: attr_ops_def)

lemmas node_defs = attr_ro_def attr_wo_def attr_rw_def ex_access

text \<open>Every argument a machine can be given comes from some access.\<close>

lemma ex_length [simp]: "\<exists>b :: string. length b = n"
  by (rule Ex_list_of_length)

lemma ex_word_length [simp]: "\<exists>b :: string. word_of_nat (length b) = (n :: u64)"
  by (metis Ex_list_of_length word_nat_cases)

lemma ex_bytes [simp]: "\<exists>b. bytes b = xs"
proof
  have "unat x < 256" for x :: u8 using unsigned_less[of x] by simp
  then show "bytes (map (\<lambda>x. char_of (unat x)) xs) = xs"
    by (simp add: bytes_def o_def of_char_of)
qed

lemma ex_nat [simp]: "\<exists>pos. nat pos = k"
  by (metis nat_int)

section \<open>03: the GPIO driver\<close>

definition gpioctrl_fops :: "(string \<Rightarrow> string \<times> nat) \<Rightarrow> access \<Rightarrow> gpio_op option" where
  "gpioctrl_fops cfu a =
     (case a of Opening \<Rightarrow> Some Dev_open | Releasing \<Rightarrow> Some Dev_release
      | Reads n pos \<Rightarrow> Some (Dev_read n pos) | Writes b pos \<Rightarrow> Some (Dev_write cfu b) | _ \<Rightarrow> None)"

definition gpioctrl_node :: "(string \<Rightarrow> string \<times> nat) \<Rightarrow> gpio_op node" where
  "gpioctrl_node cfu = \<lparr>place = ''/dev/gpioctrl'', perm = [6, 6, 0], operations = gpioctrl_fops cfu\<rparr>"

fun gpioctrl_attr :: "gpio_attr \<Rightarrow> gpio_op node" where
  "gpioctrl_attr A_button = attr_ro ''/sys/class/misc/gpioctrl/'' ''button'' (gpio_op.Show A_button)"
| "gpioctrl_attr A_led = attr_ro ''/sys/class/misc/gpioctrl/'' ''led'' (gpio_op.Show A_led)"
| "gpioctrl_attr A_samples = attr_ro ''/sys/class/misc/gpioctrl/'' ''samples'' (gpio_op.Show A_samples)"
| "gpioctrl_attr A_changes = attr_ro ''/sys/class/misc/gpioctrl/'' ''changes'' (gpio_op.Show A_changes)"
| "gpioctrl_attr A_output_updates =
     attr_ro ''/sys/class/misc/gpioctrl/'' ''output_updates'' (gpio_op.Show A_output_updates)"
| "gpioctrl_attr A_uptime_ms = attr_ro ''/sys/class/misc/gpioctrl/'' ''uptime_ms'' (gpio_op.Show A_uptime_ms)"
| "gpioctrl_attr A_invert = attr_rw ''/sys/class/misc/gpioctrl/'' ''invert'' (gpio_op.Show A_invert) Invert_store"
| "gpioctrl_attr A_poll_ms = attr_rw ''/sys/class/misc/gpioctrl/'' ''poll_ms'' (gpio_op.Show A_poll_ms) Poll_ms_store"

definition gpioctrl_attr_nodes :: "gpio_op node list" where
  "gpioctrl_attr_nodes = map gpioctrl_attr gpioctrl_attrs"

definition gpioctrl_files :: "(string \<Rightarrow> string \<times> nat) \<Rightarrow> gpio_op node list" where
  "gpioctrl_files cfu = gpioctrl_node cfu # gpioctrl_attr_nodes"

lemma gpioctrl_reached: "(\<Union>cfu. reached (gpioctrl_files cfu)) = - {Work}"
proof (rule set_eqI)
  fix p
  show "p \<in> (\<Union>cfu. reached (gpioctrl_files cfu)) \<longleftrightarrow> p \<in> - {Work}"
  proof (cases p)
    case (Show k)
    then show ?thesis
      by (cases k) (auto simp: gpioctrl_files_def gpioctrl_attr_nodes_def gpioctrl_attrs_def node_defs)
  qed (auto simp: gpioctrl_files_def gpioctrl_node_def gpioctrl_fops_def gpioctrl_attr_nodes_def
      gpioctrl_attrs_def node_defs)
qed

section \<open>06: procfs\<close>

definition events_proc_ops ::
    "errno option \<Rightarrow> u64 \<Rightarrow> int \<Rightarrow> string \<Rightarrow> (string \<Rightarrow> string \<times> nat) \<Rightarrow> access \<Rightarrow> pf_op option" where
  "events_proc_ops r t q w cfu a =
     (case a of Opening \<Rightarrow> Some (pf_op.Open r t q w) | Reads n pos \<Rightarrow> Some (pf_op.Read n (nat pos))
      | Writes b pos \<Rightarrow> Some (pf_op.Write cfu b) | _ \<Rightarrow> None)"

definition procfs_files ::
    "errno option \<Rightarrow> u64 \<Rightarrow> int \<Rightarrow> string \<Rightarrow> (string \<Rightarrow> string \<times> nat) \<Rightarrow> pf_op node list" where
  "procfs_files r t q w cfu =
     [attr_ro ''/proc/procfs_demo/'' ''info'' (Info t),
      \<lparr>place = ''/proc/procfs_demo/events'', perm = [6, 4, 4], operations = events_proc_ops r t q w cfu\<rparr>]"

lemma procfs_reached: "(\<Union>r t q w cfu. reached (procfs_files r t q w cfu)) = UNIV"
proof -
  have "p \<in> (\<Union>r t q w cfu. reached (procfs_files r t q w cfu))" for p
    by (cases p) (auto simp: procfs_files_def events_proc_ops_def node_defs)
  then show ?thesis by blast
qed

section \<open>04, 09, 10: character devices\<close>

definition module_params_fops :: "access \<Rightarrow> (nat \<times> int) option" where
  "module_params_fops a = (case a of Reads n pos \<Rightarrow> Some (n, pos) | _ \<Rightarrow> None)"

definition module_params_node :: "(nat \<times> int) node" where
  "module_params_node =
     \<lparr>place = ''/dev/module_params_demo'', perm = [4, 4, 4], operations = module_params_fops\<rparr>"

datatype rw_request = Rw_open | Rw_release | Rw_llseek | Rw_op rw_op

definition rw_fops ::
    "(u8 list \<Rightarrow> nat) \<Rightarrow> (u8 list \<Rightarrow> u8 list \<times> nat) \<Rightarrow> access \<Rightarrow> rw_request option" where
  "rw_fops ctu cfu a =
     (case a of Opening \<Rightarrow> Some Rw_open | Releasing \<Rightarrow> Some Rw_release
      | Reads n pos \<Rightarrow> Some (Rw_op (Rw_read ctu n pos))
      | Writes b pos \<Rightarrow> Some (Rw_op (Rw_write cfu (bytes b) pos)) | Seeking \<Rightarrow> Some Rw_llseek | _ \<Rightarrow> None)"

definition rw_node :: "(u8 list \<Rightarrow> nat) \<Rightarrow> (u8 list \<Rightarrow> u8 list \<times> nat) \<Rightarrow> rw_request node" where
  "rw_node ctu cfu = \<lparr>place = ''/dev/read_write_cdev0'', perm = [], operations = rw_fops ctu cfu\<rparr>"

lemma rw_reached: "(\<Union>ctu cfu. reached [rw_node ctu cfu]) = UNIV"
proof -
  have "p \<in> (\<Union>ctu cfu. reached [rw_node ctu cfu])" for p
  proof (cases p)
    case (Rw_op q)
    then show ?thesis
      by (cases q) (auto simp: rw_node_def rw_fops_def node_defs)
  qed (auto simp: rw_node_def rw_fops_def node_defs)
  then show ?thesis by blast
qed

text \<open>The open handler of the ioctl device only succeeds: \<open>None\<close>.\<close>

definition ioctl_basics_fops :: "user_arg \<Rightarrow> access \<Rightarrow> (u32 \<times> user_arg) option option" where
  "ioctl_basics_fops arg a =
     (case a of Opening \<Rightarrow> Some None | Ioctls cmd \<Rightarrow> Some (Some (cmd, arg)) | _ \<Rightarrow> None)"

definition ioctl_basics_node :: "user_arg \<Rightarrow> (u32 \<times> user_arg) option node" where
  "ioctl_basics_node arg =
     \<lparr>place = ''/dev/ioctl_basics0'', perm = [], operations = ioctl_basics_fops arg\<rparr>"

lemma ioctl_reached: "(\<Union>arg. reached [ioctl_basics_node arg]) = UNIV"
proof -
  have "p \<in> (\<Union>arg. reached [ioctl_basics_node arg])" for p
    by (cases p) (auto simp: ioctl_basics_node_def ioctl_basics_fops_def node_defs)
  then show ?thesis by blast
qed

section \<open>13, 14, 15: files under /sys/kernel\<close>

definition km_attrs :: "u64 \<Rightarrow> km_op node list" where
  "km_attrs m =
     [attr_wo ''/sys/kernel/kernel_memory/'' ''allocate'' Allocate,
      attr_wo ''/sys/kernel/kernel_memory/'' ''free'' km_op.Free,
      attr_ro ''/sys/kernel/kernel_memory/'' ''info'' km_op.Show_info,
      attr_ro ''/sys/kernel/kernel_memory/'' ''stats'' (km_op.Show_stats m)]"

lemma km_reached: "(\<Union>m. reached (km_attrs m)) = UNIV"
proof -
  have "p \<in> (\<Union>m. reached (km_attrs m))" for p
    by (cases p) (auto simp: km_attrs_def node_defs)
  then show ?thesis by blast
qed

definition tw_attrs :: "tw_op node list" where
  "tw_attrs = [attr_ro ''/sys/kernel/timers_workqueues/'' ''stats'' tw_op.Show_stats]"

lemma tw_reached: "reached tw_attrs = {tw_op.Show_stats}"
  by (auto simp: tw_attrs_def node_defs)

definition kthread_demo_fops :: "access \<Rightarrow> kt_op option" where
  "kthread_demo_fops a = (case a of Reads n pos \<Rightarrow> Some (kt_op.Read n pos) | _ \<Rightarrow> None)"

definition kthread_demo_node :: "kt_op node" where
  "kthread_demo_node = \<lparr>place = ''/dev/kthread_demo'', perm = [4, 4, 4], operations = kthread_demo_fops\<rparr>"

definition kt_attrs :: "errno + int \<Rightarrow> kt_op node list" where
  "kt_attrs run =
     [attr_ro ''/sys/kernel/kthreads_demo/'' ''status'' Status,
      attr_wo ''/sys/kernel/kthreads_demo/'' ''control'' (Control run)]"

lemma kt_reached: "(\<Union>run. reached (kthread_demo_node # kt_attrs run)) = - range Pass"
proof (rule set_eqI)
  fix p
  show "p \<in> (\<Union>run. reached (kthread_demo_node # kt_attrs run)) \<longleftrightarrow> p \<in> - range Pass"
    by (cases p) (auto simp: kthread_demo_node_def kthread_demo_fops_def kt_attrs_def
        node_defs)
qed

section \<open>16, 17: debugfs and parameters\<close>

text \<open>\<open>None\<close>: served by the kernel alone. \<open>v\<close> and \<open>x\<close> are what it parses a write to a raw file as.\<close>

definition ds_attrs :: "task \<Rightarrow> ds_op option node list" where
  "ds_attrs t =
     [attr_ro ''/sys/kernel/debugfs_sysfs_demo/'' ''counter'' (Some CounterShow),
      attr_rw ''/sys/kernel/debugfs_sysfs_demo/'' ''enabled'' (Some EnabledShow) (\<lambda>b. Some (EnabledStore t b)),
      attr_wo ''/sys/kernel/debugfs_sysfs_demo/'' ''increment'' (\<lambda>b. Some (IncrementStore t b))]"

definition info_fops :: "access \<Rightarrow> ds_op option option" where
  "info_fops a =
     (case a of Opening \<Rightarrow> Some None | Reads n pos \<Rightarrow> Some (Some (InfoRead n pos)) | _ \<Rightarrow> None)"

definition ds_debugfs :: "u32 \<Rightarrow> bool \<Rightarrow> ds_op option node list" where
  "ds_debugfs v x =
     [attr_rw ''/sys/kernel/debug/debugfs_sysfs_demo/'' ''counter_raw'' None (\<lambda>b. Some (CounterRaw v)),
      attr_rw ''/sys/kernel/debug/debugfs_sysfs_demo/'' ''enabled_raw'' None (\<lambda>b. Some (EnabledRaw x)),
      \<lparr>place = ''/sys/kernel/debug/debugfs_sysfs_demo/info'', perm = [4, 4, 4], operations = info_fops\<rparr>]"

lemma ds_reached: "(\<Union>t v x. reached (ds_attrs t @ ds_debugfs v x)) = UNIV"
proof -
  have "p \<in> (\<Union>t v x. reached (ds_attrs t @ ds_debugfs v x))" for p
  proof (cases p)
    case (Some q)
    then show ?thesis
      by (cases q) (auto simp: ds_attrs_def ds_debugfs_def info_fops_def node_defs)
  qed (auto simp: ds_attrs_def ds_debugfs_def node_defs)
  then show ?thesis by blast
qed

definition mode_ops :: "access \<Rightarrow> tb_op option" where
  "mode_ops = attr_ops (Some Mode_get) (Some Mode_set)"

definition capacity_ops :: "access \<Rightarrow> tb_op option" where
  "capacity_ops = attr_ops (Some Capacity_get) (Some Capacity_set)"

definition refill_rate_ops :: "access \<Rightarrow> tb_op option" where
  "refill_rate_ops = attr_ops (Some Refill_rate_get) (Some Refill_rate_set)"

definition tokens_ops :: "access \<Rightarrow> tb_op option" where
  "tokens_ops = attr_ops (Some Tokens_get) None"

definition tb_params :: "tb_op node list" where
  "tb_params =
     [\<lparr>place = ''/sys/module/token_bucket/parameters/mode'', perm = [6, 4, 4], operations = mode_ops\<rparr>,
      \<lparr>place = ''/sys/module/token_bucket/parameters/capacity'', perm = [6, 4, 4], operations = capacity_ops\<rparr>,
      \<lparr>place = ''/sys/module/token_bucket/parameters/refill_rate'', perm = [6, 4, 4],
       operations = refill_rate_ops\<rparr>,
      \<lparr>place = ''/sys/module/token_bucket/parameters/tokens_available'', perm = [4, 4, 4],
       operations = tokens_ops\<rparr>]"

definition consume_fops :: "access \<Rightarrow> tb_op option" where
  "consume_fops a = (case a of Writes b pos \<Rightarrow> Some (Consume (of_nat (length b))) | _ \<Rightarrow> None)"

definition consume_node :: "tb_op node" where
  "consume_node = \<lparr>place = ''/dev/token_bucket_consume'', perm = [], operations = consume_fops\<rparr>"

lemma tb_reached: "reached (consume_node # tb_params) = - {p. \<exists>j h. p = Refill j h}"
proof (rule set_eqI)
  fix p
  show "p \<in> reached (consume_node # tb_params) \<longleftrightarrow> p \<in> - {p. \<exists>j h. p = Refill j h}"
    by (cases p) (auto simp: consume_node_def consume_fops_def tb_params_def mode_ops_def capacity_ops_def
        refill_rate_ops_def tokens_ops_def node_defs)
qed

section \<open>11, 12: the devices with step relations\<close>

text \<open>
  These modules are step relations. What a request does to them: a write or a reset is a
  thread of its own, a read of the blocking device is a reader; the others answer at once.
\<close>

datatype race_request =
    Race_write nat | Race_read nat int | Mode_show | Mode_store string | Counter_show | Reset_store string

definition race_fops :: "access \<Rightarrow> race_request option" where
  "race_fops a =
     (case a of Reads n pos \<Rightarrow> Some (Race_read n pos) | Writes b pos \<Rightarrow> Some (Race_write (length b)) | _ \<Rightarrow> None)"

definition race_node :: "race_request node" where
  "race_node = \<lparr>place = ''/dev/race_demo'', perm = [6, 6, 6], operations = race_fops\<rparr>"

definition race_attrs :: "race_request node list" where
  "race_attrs =
     [attr_rw ''/sys/class/misc/race_demo/'' ''mode'' Mode_show Mode_store,
      attr_ro ''/sys/class/misc/race_demo/'' ''counter'' Counter_show,
      attr_wo ''/sys/class/misc/race_demo/'' ''reset'' Reset_store]"

fun race_accept :: "kstr \<Rightarrow> race_request \<Rightarrow> race \<Rightarrow> race" where
  "race_accept K (Race_write n) s = s\<lparr>threads := threads s @ [Ready (race_write n)]\<rparr>"
| "race_accept K (Mode_store b) s = fst (mode_store K b s)"
| "race_accept K (Reset_store b) s = s\<lparr>threads := threads s @ [Reset_want]\<rparr>"
| "race_accept K _ s = s"

lemma race_reached: "reached (race_node # race_attrs) = UNIV"
proof -
  have "p \<in> reached (race_node # race_attrs)" for p
    by (cases p) (auto simp: race_node_def race_fops_def race_attrs_def node_defs)
  then show ?thesis by blast
qed

datatype bq_request = Bq_read bool nat int | Bq_poll | Bq_op bq_op

definition bq_fops :: "bool \<Rightarrow> access \<Rightarrow> bq_request option" where
  \<comment> \<open>\<open>nonblock\<close> is a flag of the open file\<close>
  "bq_fops nonblock a =
     (case a of Reads n pos \<Rightarrow> Some (Bq_read nonblock n pos) | Polling \<Rightarrow> Some Bq_poll | _ \<Rightarrow> None)"

definition bq_node :: "bool \<Rightarrow> bq_request node" where
  "bq_node nonblock = \<lparr>place = ''/dev/blocking_demo'', perm = [4, 4, 4], operations = bq_fops nonblock\<rparr>"

definition bq_attrs :: "bq_request node list" where
  "bq_attrs =
     [attr_ro ''/sys/class/misc/blocking_demo/'' ''event_id'' (Bq_op Show_event_id),
      attr_ro ''/sys/class/misc/blocking_demo/'' ''waiters'' (Bq_op Show_waiters),
      attr_wo ''/sys/class/misc/blocking_demo/'' ''trigger'' (\<lambda>b. Bq_op (Trigger b))]"

lemma bq_reached: "(\<Union>nb. reached (bq_node nb # bq_attrs)) = - {p. \<exists>j ms. p = Bq_op (Producer j ms)}"
proof (rule set_eqI)
  fix p
  show "p \<in> (\<Union>nb. reached (bq_node nb # bq_attrs)) \<longleftrightarrow> p \<in> - {p. \<exists>j ms. p = Bq_op (Producer j ms)}"
  proof (cases p)
    case (Bq_op q)
    then show ?thesis
      by (cases q) (auto simp: bq_node_def bq_fops_def bq_attrs_def node_defs)
  qed (auto simp: bq_node_def bq_fops_def bq_attrs_def node_defs)
qed

section \<open>All files\<close>

text \<open>What a file offers: its place, its mode, and whether it has a read and a write.\<close>

definition outline :: "'p node \<Rightarrow> string \<times> nat list \<times> bool \<times> bool" where
  "outline f = (place f, perm f, operations f (Reads 0 0) \<noteq> None, operations f (Writes [] 0) \<noteq> None)"

definition all_files ::
    "(string \<Rightarrow> string \<times> nat) \<Rightarrow> (u8 list \<Rightarrow> nat) \<Rightarrow> (u8 list \<Rightarrow> u8 list \<times> nat) \<Rightarrow> user_arg \<Rightarrow>
     errno option \<Rightarrow> u64 \<Rightarrow> errno + int \<Rightarrow> task \<Rightarrow> (string \<times> nat list \<times> bool \<times> bool) list" where
  "all_files cfu ctu cfb arg r t run tk =
     map outline (gpioctrl_files cfu) @ [outline module_params_node] @
     map outline (procfs_files r t (cur_pid tk) (cur_comm tk) cfu) @ [outline (rw_node ctu cfb)] @
     [outline (ioctl_basics_node arg)] @ map outline (race_node # race_attrs) @
     map outline (bq_node False # bq_attrs) @ map outline (km_attrs t) @ map outline tw_attrs @
     map outline (kthread_demo_node # kt_attrs run) @ map outline (ds_attrs tk @ ds_debugfs 0 False) @
     map outline (consume_node # tb_params)"

text \<open>A mode that the driver gives lets somebody read exactly when there is a read, and likewise write.\<close>

fun mode_fits :: "string \<times> nat list \<times> bool \<times> bool \<Rightarrow> bool" where
  "mode_fits (p, ds, r, w) \<longleftrightarrow>
     ds = [] \<or> (list_ex (\<lambda>d. 4 \<le> d) ds = r \<and> list_ex (\<lambda>d. odd (d div 2)) ds = w)"

definition request_at :: "'p node list \<Rightarrow> string \<Rightarrow> access \<Rightarrow> 'p option" where
  "request_at fs p a = (case find (\<lambda>f. place f = p) fs of None \<Rightarrow> None | Some f \<Rightarrow> operations f a)"

lemmas file_defs = all_files_def outline_def gpioctrl_files_def gpioctrl_node_def gpioctrl_fops_def
  gpioctrl_attr_nodes_def gpioctrl_attrs_def module_params_node_def module_params_fops_def
  procfs_files_def events_proc_ops_def rw_node_def rw_fops_def ioctl_basics_node_def
  ioctl_basics_fops_def race_node_def race_fops_def race_attrs_def bq_node_def bq_fops_def
  bq_attrs_def km_attrs_def tw_attrs_def kthread_demo_node_def kthread_demo_fops_def kt_attrs_def
  ds_attrs_def ds_debugfs_def info_fops_def consume_node_def consume_fops_def tb_params_def
  mode_ops_def capacity_ops_def refill_rate_ops_def tokens_ops_def attr_ro_def attr_wo_def attr_rw_def

lemma all_files_fit: "list_all mode_fits (all_files cfu ctu cfb arg r t run tk)"
  by (simp add: file_defs)

lemma all_files_distinct: "distinct (map fst (all_files cfu ctu cfb arg r t run tk))"
  by (simp add: file_defs)

lemma race_accept_steps: "race_step\<^sup>*\<^sup>* s (race_accept K p s)"
  by (cases p) (auto intro: race_step.new_write race_step.new_reset race_step.set_mode)

lemma stress_requests:
  "request_at (race_node # race_attrs) MODE_PATH (Reads n pos) = Some Mode_show"
  "request_at (race_node # race_attrs) RESET_PATH (Writes b pos) = Some (Reset_store b)"
  "request_at (race_node # race_attrs) DEVICE_PATH (Writes b pos) = Some (Race_write (length b))"
  "request_at (race_node # race_attrs) COUNTER_PATH (Reads n pos) = Some Counter_show"
  by (simp_all add: request_at_def file_defs MODE_PATH_def RESET_PATH_def DEVICE_PATH_def COUNTER_PATH_def)

end
