(* ===== verification/FileReadback.thy ===== *)
theory FileReadback
  imports Interfaces
begin

text \<open>
  The files end to end: a write to a path is handed by the module's table to a handler, the handler
  changes the module's state, and a read of a path is handed to another that prints it. What the
  text of a read is, and what reads after a write show, for the modules whose files take settings,
  requests or orders. (The buffer device is in \<open>ReadWriteCdev\<close>, the ioctls in \<open>IoctlBasics\<close>.)
\<close>

section \<open>Reads and writes by path\<close>

definition served_at :: "'p node list \<Rightarrow> ('s \<Rightarrow> 'p \<Rightarrow> 's) \<Rightarrow> string \<Rightarrow> access \<Rightarrow> 's \<Rightarrow> 's" where
  "served_at fs serve path a s = (case request_at fs path a of None \<Rightarrow> s | Some p \<Rightarrow> serve s p)"

definition text_at :: "'p node list \<Rightarrow> ('s \<Rightarrow> 'p \<Rightarrow> string option) \<Rightarrow> string \<Rightarrow> 's \<Rightarrow> string option" where
  \<comment> \<open>what a read of a page from the start of the file returns; \<open>None\<close> when it fails\<close>
  "text_at fs reply path s =
     (case request_at fs path (Reads PAGE_SIZE 0) of None \<Rightarrow> None | Some p \<Rightarrow> reply s p)"





fun kt_reply :: "kthreads \<Rightarrow> kt_op \<Rightarrow> string option" where
  "kt_reply s Status = Some (fst (status_show s))"
| "kt_reply s _ = None"







lemmas at_defs = served_at_def text_at_def request_at_def file_defs

section \<open>The GPIO driver\<close>










section \<open>The token bucket\<close>









section \<open>The allocator\<close>







section \<open>The producer\<close>

abbreviation kt_text :: "errno + int \<Rightarrow> kthreads \<Rightarrow> string option" where
  "kt_text run \<equiv> text_at (kthread_demo_node # kt_attrs run) kt_reply ''/sys/kernel/kthreads_demo/status''"


lemma kt_texts: "kt_text run s = Some (fst (status_show s))"
  by (simp add: at_defs)



section \<open>The debugfs module\<close>





section \<open>The concurrency module and the stress test's four paths\<close>






section \<open>The event queue and the event log\<close>






section \<open>What is written is what is read\<close>
















end
