(* ===== verification/KthreadLife.thy ===== *)
theory KthreadLife
  imports Kthreads Step_Systems
begin

text \<open>
  The producer threads of \<^verbatim>\<open>15_kthreads/kthreads.c\<close> from creation to exit. \<open>stop_producer\<close>
  takes the task out of its slot under \<open>producer_task_lock\<close> and calls \<open>kthread_stop\<close> after it
  has dropped the lock, so other calls come in between. The steps here are the sections
  under the lock, the two halves of \<open>kthread_stop\<close> and the statements of the threads' loop.
\<close>

section \<open>Steps\<close>

text \<open>Where a thread stands: before the test of its loop, asleep after a pass, returned.\<close>

datatype thread_place = At_test | Asleep | Exited

record producer_thread =
  told :: bool  \<comment> \<open>\<open>kthread_should_stop()\<close>\<close>
  standing :: thread_place

text \<open>
  Where a call stands. A stop that took thread \<open>t\<close> from the slot: before \<open>kthread_stop\<close>,
  waiting in it for the thread to return, returned.
\<close>

datatype life_call =
    Start_asked | Stop_asked | Show_asked
  | Taken nat | Joining nat | Stopped nat | Answered "errno option"

text \<open>
  The device of \<open>Kthreads\<close>, whose \<open>producer_task\<close> has the number of the thread as its pid.
  \<open>fault\<close>: a task that has exited, and may be gone, was looked at or stopped.
\<close>

record life =
  demo :: kthreads
  tasks :: "producer_thread list"
  life_calls :: "life_call list"
  fault :: bool

abbreviation calling :: "life \<Rightarrow> nat \<Rightarrow> life_call \<Rightarrow> bool" where
  "calling s i c \<equiv> i < length (life_calls s) \<and> life_calls s ! i = c"

abbreviation then_at :: "nat \<Rightarrow> life_call \<Rightarrow> life \<Rightarrow> life" where
  "then_at i c s \<equiv> s\<lparr>life_calls := (life_calls s)[i := c]\<rparr>"

abbreviation new_thread :: producer_thread where
  "new_thread \<equiv> \<lparr>told = False, standing = At_test\<rparr>"

definition gone :: "life \<Rightarrow> nat \<Rightarrow> bool" where
  "gone s t \<longleftrightarrow> \<not> (t < length (tasks s) \<and> standing (tasks s ! t) \<noteq> Exited)"

inductive call_step :: "nat \<Rightarrow> life \<Rightarrow> life \<Rightarrow> bool" where
  starts: "calling s i Start_asked \<Longrightarrow> run = Inr (int (length (tasks s))) \<or> run = Inl e \<Longrightarrow>
    start_producer run (demo s) = (d, cs, r) \<Longrightarrow>
    call_step i s (then_at i (Answered r)
      (s\<lparr>demo := d, tasks := tasks s @ (if r = None then [new_thread] else [])\<rparr>))"
| takes: "calling s i Stop_asked \<Longrightarrow> stop_producer (demo s) = (d, cs, r) \<Longrightarrow>
    call_step i s (then_at i (case producer_task (demo s) of None \<Rightarrow> Answered r | Some p \<Rightarrow> Taken (nat p))
      (s\<lparr>demo := d\<rparr>))"
| tells: "calling s i (Taken t) \<Longrightarrow> \<not> gone s t \<Longrightarrow>
    call_step i s (then_at i (Joining t) (s\<lparr>tasks := (tasks s)[t := (tasks s ! t)\<lparr>told := True\<rparr>]\<rparr>))"
| tells_gone: "calling s i (Taken t) \<Longrightarrow> gone s t \<Longrightarrow> call_step i s (s\<lparr>fault := True\<rparr>)"
| joins: "calling s i (Joining t) \<Longrightarrow> t < length (tasks s) \<Longrightarrow> standing (tasks s ! t) = Exited \<Longrightarrow>
    call_step i s (then_at i (Stopped t) s)"
| looks: "calling s i Show_asked \<Longrightarrow>
    call_step i s (then_at i (Answered None)
      (s\<lparr>fault := fault s \<or> (case producer_task (demo s) of None \<Rightarrow> False | Some p \<Rightarrow> gone s (nat p))\<rparr>))"

inductive thread_runs :: "nat \<Rightarrow> life \<Rightarrow> life \<Rightarrow> bool" where
  passes: "t < length (tasks s) \<Longrightarrow> tasks s ! t = \<lparr>told = False, standing = At_test\<rparr> \<Longrightarrow>
    thread_runs t s (s\<lparr>demo := produce now (demo s), tasks := (tasks s)[t := \<lparr>told = False, standing = Asleep\<rparr>]\<rparr>)"
| wakes: "t < length (tasks s) \<Longrightarrow> tasks s ! t = \<lparr>told = f, standing = Asleep\<rparr> \<Longrightarrow>
    thread_runs t s (s\<lparr>tasks := (tasks s)[t := \<lparr>told = f, standing = At_test\<rparr>]\<rparr>)"
| returns: "t < length (tasks s) \<Longrightarrow> tasks s ! t = \<lparr>told = True, standing = At_test\<rparr> \<Longrightarrow>
    thread_runs t s (s\<lparr>tasks := (tasks s)[t := \<lparr>told = True, standing = Exited\<rparr>]\<rparr>)"

definition life_step :: "life \<Rightarrow> life \<Rightarrow> bool" where
  "life_step s s' \<longleftrightarrow> (\<exists>i. call_step i s s') \<or> (\<exists>t. thread_runs t s s')"

text \<open>After a load, whose \<open>start_producer\<close> made thread 0, with the calls there will be.\<close>

definition life_start :: "life_call list \<Rightarrow> life" where
  "life_start cs = \<lparr>demo = kt_static\<lparr>producer_task := Some 0\<rparr>, tasks = [new_thread], life_calls = cs, fault = False\<rparr>"

section \<open>The invariant\<close>

text \<open>
  A thread that has not been told to stop has one owner, the slot or a stop that took it; a
  told one has none, and until it returns a stop waits for it.
\<close>

definition holds :: "nat \<Rightarrow> life_call \<Rightarrow> nat" where
  "holds t c = (if c = Taken t then 1 else 0)"

definition owners :: "life \<Rightarrow> nat \<Rightarrow> nat" where
  "owners s t = (if producer_task (demo s) = Some (int t) then 1 else 0) + sum_list (map (holds t) (life_calls s))"

fun call_ok :: "producer_thread list \<Rightarrow> life_call \<Rightarrow> bool" where
  "call_ok ts (Joining t) = (t < length ts \<and> told (ts ! t))"
| "call_ok ts (Stopped t) = (t < length ts \<and> standing (ts ! t) = Exited)"
| "call_ok ts c = True"

definition life_inv :: "life \<Rightarrow> bool" where
  "life_inv s \<longleftrightarrow> \<not> fault s \<and> (case producer_task (demo s) of None \<Rightarrow> True | Some p \<Rightarrow> 0 \<le> p) \<and>
     (\<forall>t. owners s t = (if t < length (tasks s) \<and> \<not> told (tasks s ! t) then 1 else 0)) \<and>
     (\<forall>t < length (tasks s). standing (tasks s ! t) = Exited \<longrightarrow> told (tasks s ! t)) \<and>
     (\<forall>t < length (tasks s). told (tasks s ! t) \<and> standing (tasks s ! t) \<noteq> Exited \<longrightarrow>
        Joining t \<in> set (life_calls s)) \<and>
     list_all (call_ok (tasks s)) (life_calls s)"

lemma owners_call:
  assumes "i < length (life_calls s)"
  shows "sum_list (map (holds t) ((life_calls s)[i := c])) + holds t (life_calls s ! i) =
    sum_list (map (holds t) (life_calls s)) + holds t c"
  by (rule sum_list_update_split[OF assms, of "holds t"]) simp

lemma life_invD:
  assumes "life_inv s"
  shows "\<not> fault s" "producer_task (demo s) = Some p \<Longrightarrow> 0 \<le> p"
    "owners s t = (if t < length (tasks s) \<and> \<not> told (tasks s ! t) then 1 else 0)"
    "t < length (tasks s) \<Longrightarrow> standing (tasks s ! t) = Exited \<Longrightarrow> told (tasks s ! t)"
    "t < length (tasks s) \<Longrightarrow> told (tasks s ! t) \<Longrightarrow> standing (tasks s ! t) \<noteq> Exited \<Longrightarrow>
       Joining t \<in> set (life_calls s)"
    "c \<in> set (life_calls s) \<Longrightarrow> call_ok (tasks s) c"
  using assms by (auto simp: life_inv_def list_all_iff)

lemma owned:
  assumes "life_inv s" "owners s t \<noteq> 0"
  shows "t < length (tasks s) \<and> \<not> told (tasks s ! t) \<and> standing (tasks s ! t) \<noteq> Exited \<and> \<not> gone s t"
  using life_invD(3)[OF assms(1), of t] life_invD(4)[OF assms(1), of t] assms(2)
  by (auto simp: gone_def split: if_splits)

lemma slot_owned: "producer_task (demo s) = Some (int t) \<Longrightarrow> owners s t \<noteq> 0"
  by (simp add: owners_def)

lemma taken_owned:
  assumes "calling s i (Taken t)"
  shows "owners s t \<noteq> 0"
proof -
  have "holds t (life_calls s ! i) = 1" "holds t (Answered None) = 0" using assms by (simp_all add: holds_def)
  with assms owners_call[of i s t "Answered None"] have "1 \<le> sum_list (map (holds t) (life_calls s))" by linarith
  then show ?thesis unfolding owners_def by linarith
qed

lemma in_set_update: "y \<in> set xs \<Longrightarrow> xs ! i \<noteq> y \<Longrightarrow> y \<in> set (xs[i := c])"
  by (metis in_set_conv_nth length_list_update nth_list_update_neq)

lemma calls_update_ok:
  "(\<And>c. c \<in> set cs \<Longrightarrow> call_ok ts c) \<Longrightarrow> call_ok ts x \<Longrightarrow> list_all (call_ok ts) (cs[i := x])"
  by (auto simp: list_all_iff dest!: subsetD[OF set_update_subset_insert])

lemma call_ok_append: "call_ok ts c \<Longrightarrow> call_ok (ts @ us) c"
  by (cases c) (auto simp: nth_append)

lemma call_ok_update:
  "call_ok ts c \<Longrightarrow> (told (ts ! t) \<longrightarrow> told x) \<Longrightarrow> (standing (ts ! t) = Exited \<longrightarrow> standing x = Exited) \<Longrightarrow>
   call_ok (ts[t := x]) c"
  by (cases c; cases "t < length ts") (auto simp: nth_list_update)

text \<open>A call that changes neither the slot nor the threads, nor becomes or leaves a \<open>Taken\<close> or \<open>Joining\<close>.\<close>

lemma life_inv_answer:
  assumes "life_inv s" "i < length (life_calls s)" "\<And>t. life_calls s ! i \<noteq> Taken t"
    and "\<And>t. life_calls s ! i = Joining t \<Longrightarrow> standing (tasks s ! t) = Exited"
    and "\<And>t. c \<noteq> Taken t" "call_ok (tasks s) c" "producer_task d = producer_task (demo s)"
  shows "life_inv (then_at i c (s\<lparr>demo := d\<rparr>))"
proof -
  let ?s = "then_at i c (s\<lparr>demo := d\<rparr>)"
  have "owners ?s t = owners s t" for t
    using owners_call[OF assms(2), of t c] assms(3)[of t] assms(5)[of t] assms(7)
    by (simp add: owners_def holds_def)
  moreover have "Joining t \<in> set (life_calls ?s)" if "Joining t \<in> set (life_calls s)" "standing (tasks s ! t) \<noteq> Exited" for t
    using that assms(4)[of t] in_set_update[of "Joining t" "life_calls s" i c] by auto
  moreover have "list_all (call_ok (tasks s)) (life_calls ?s)"
    using life_invD(6)[OF assms(1)] assms(6) by (simp add: calls_update_ok)
  ultimately show ?thesis
    using assms(1,7) by (auto simp: life_inv_def)
qed

lemma life_inv_starts:
  assumes "life_inv s" "calling s i Start_asked" "producer_task (demo s) = None"
  shows "life_inv (then_at i (Answered None) (s\<lparr>demo := (demo s)\<lparr>producer_task := Some (int (length (tasks s)))\<rparr>,
    tasks := tasks s @ [new_thread]\<rparr>))" (is "life_inv ?s")
proof -
  note D = life_invD[OF assms(1)]
  have o: "owners ?s t = owners s t + (if t = length (tasks s) then 1 else 0)" for t
    using owners_call[of i s t "Answered None"] assms(2,3) by (simp add: owners_def holds_def)
  have "owners ?s t = (if t < length (tasks ?s) \<and> \<not> told (tasks ?s ! t) then 1 else 0)" for t
    unfolding o D(3) by (auto simp: nth_append less_Suc_eq)
  moreover have "list_all (call_ok (tasks ?s)) (life_calls ?s)"
    using D(6) call_ok_append by (simp add: calls_update_ok)
  moreover have "Joining t \<in> set (life_calls ?s)" if "Joining t \<in> set (life_calls s)" for t
    using that assms(2) in_set_update[of "Joining t" "life_calls s" i] by simp
  ultimately show ?thesis
    using D(1,4,5) by (auto simp: life_inv_def nth_append less_Suc_eq)
qed

lemma life_inv_takes:
  assumes "life_inv s" "calling s i Stop_asked" "producer_task (demo s) = Some p"
  shows "life_inv (then_at i (Taken (nat p)) (s\<lparr>demo := (demo s)\<lparr>producer_task := None\<rparr>\<rparr>))" (is "life_inv ?s")
proof -
  note D = life_invD[OF assms(1)]
  have p: "p = int (nat p)" using D(2)[OF assms(3)] by simp
  have "owners ?s t = owners s t" for t
    using owners_call[of i s t "Taken (nat p)"] assms(2,3) p by (auto simp: owners_def holds_def)
  moreover have "list_all (call_ok (tasks s)) (life_calls ?s)"
    using D(6) by (simp add: calls_update_ok)
  moreover have "Joining t \<in> set (life_calls ?s)" if "Joining t \<in> set (life_calls s)" for t
    using that assms(2) in_set_update[of "Joining t" "life_calls s" i] by simp
  ultimately show ?thesis
    using assms(1) by (auto simp: life_inv_def)
qed

lemma life_inv_tells:
  assumes "life_inv s" "calling s i (Taken t)"
  shows "life_inv (then_at i (Joining t) (s\<lparr>tasks := (tasks s)[t := (tasks s ! t)\<lparr>told := True\<rparr>]\<rparr>))" (is "life_inv ?s")
proof -
  note D = life_invD[OF assms(1)]
  note t = owned[OF assms(1) taken_owned[OF assms(2)]]
  have o: "owners ?s k + (if k = t then 1 else 0) = owners s k" for k
    using owners_call[of i s k "Joining t"] assms(2) by (auto simp: owners_def holds_def)
  have "owners ?s k = (if k < length (tasks ?s) \<and> \<not> told (tasks ?s ! k) then 1 else 0)" for k
    using o[of k] D(3)[of k] t by (auto simp: nth_list_update split: if_splits)
  moreover have "list_all (call_ok (tasks ?s)) (life_calls ?s)"
    using D(6) call_ok_update t by (simp add: calls_update_ok)
  moreover have "Joining k \<in> set (life_calls ?s)" if "Joining k \<in> set (life_calls s) \<or> k = t" for k
    using that assms(2) in_set_update[of "Joining k" "life_calls s" i] by (auto simp: set_update_memI)
  ultimately show ?thesis
    using D(1,2,4,5) t by (auto simp: life_inv_def nth_list_update split: option.splits)
qed

lemma life_inv_thread:
  assumes "life_inv s" "t < length (tasks s)" "told x = told (tasks s ! t)"
    and "standing (tasks s ! t) \<noteq> Exited" "standing x = Exited \<Longrightarrow> told x"
    and "producer_task d = producer_task (demo s)"
  shows "life_inv (s\<lparr>demo := d, tasks := (tasks s)[t := x]\<rparr>)" (is "life_inv ?s")
proof -
  note D = life_invD[OF assms(1)]
  have "owners ?s k = owners s k" for k using assms(6) by (simp add: owners_def)
  then have "owners ?s k = (if k < length (tasks ?s) \<and> \<not> told (tasks ?s ! k) then 1 else 0)" for k
    using D(3)[of k] assms(2,3) by (auto simp: nth_list_update)
  moreover have "list_all (call_ok (tasks ?s)) (life_calls ?s)"
    using D(6) call_ok_update assms(3,4) by (simp add: list_all_iff)
  ultimately show ?thesis
    using assms D(1,2,4,5) by (auto simp: life_inv_def nth_list_update split: option.splits)
qed

lemma produce_task [simp]: "producer_task (produce now d) = producer_task d"
  by (simp add: produce_def Let_def)

lemma life_inv_call: "call_step i s s' \<Longrightarrow> life_inv s \<Longrightarrow> life_inv s'"
proof (induction rule: call_step.induct)
  case (starts s i run e d cs r)
  show ?case
  proof (cases r)
    case None
    then have "producer_task (demo s) = None" "d = (demo s)\<lparr>producer_task := Some (int (length (tasks s)))\<rparr>"
      using starts(2,3) by (auto simp: start_producer_def split: if_splits sum.splits)
    with starts None life_inv_starts show ?thesis by simp
  next
    case (Some x)
    then have "producer_task d = producer_task (demo s)"
      using starts(3) by (auto simp: start_producer_def split: if_splits sum.splits)
    with starts Some life_inv_answer[of s i "Answered r" d] show ?thesis by simp
  qed
next
  case (takes s i d cs r)
  then have d: "d = (demo s)\<lparr>producer_task := None\<rparr>"
    by (auto simp: stop_producer_def Let_def split: option.splits)
  show ?case
  proof (cases "producer_task (demo s)")
    case None
    with takes d life_inv_answer[of s i "Answered r" d] show ?thesis by simp
  next
    case (Some p)
    with takes d life_inv_takes show ?thesis by simp
  qed
next
  case (tells s i t)
  then show ?case using life_inv_tells by blast
next
  case (tells_gone s i t)
  then show ?case using owned taken_owned by blast
next
  case (joins s i t)
  then show ?case using life_inv_answer[of s i "Stopped t" "demo s"] by simp
next
  case (looks s i)
  have "\<not> gone s (nat p)" if "producer_task (demo s) = Some p" for p
    using that life_invD(2)[OF looks(2) that] owned[OF looks(2) slot_owned[of s "nat p"]] by simp
  then have f: "(fault s \<or> (case producer_task (demo s) of None \<Rightarrow> False | Some p \<Rightarrow> gone s (nat p))) = fault s"
    by (simp split: option.splits)
  have same: "s\<lparr>fault := fault s, life_calls := cs\<rparr> = s\<lparr>life_calls := cs\<rparr>" for cs by (cases s) simp
  show ?case
    unfolding f same using looks life_inv_answer[of s i "Answered None" "demo s"] by simp
qed

lemma life_inv_runs: "thread_runs t s s' \<Longrightarrow> life_inv s \<Longrightarrow> life_inv s'"
proof (induction rule: thread_runs.induct)
  case (passes t s now)
  then show ?case using life_inv_thread[of s t "\<lparr>told = False, standing = Asleep\<rparr>" "produce now (demo s)"] by simp
next
  case (wakes t s f)
  then show ?case using life_inv_thread[of s t "\<lparr>told = f, standing = At_test\<rparr>" "demo s"] by simp
next
  case (returns t s)
  then show ?case using life_inv_thread[of s t "\<lparr>told = True, standing = Exited\<rparr>" "demo s"] by simp
qed

interpretation life: invariant_system life_step life_inv
  by unfold_locales (auto simp: life_step_def intro: life_inv_call life_inv_runs)

section \<open>Stops come to their end\<close>

fun under_stop :: "life_call \<Rightarrow> bool" where
  "under_stop (Taken t) = True"
| "under_stop (Joining t) = True"
| "under_stop _ = False"

lemma call_then: "call_step i s s' \<Longrightarrow> life_step s s'"
  by (auto simp: life_step_def)

lemma run_then: "thread_runs t s s' \<Longrightarrow> life_step s s'"
  by (auto simp: life_step_def)

text \<open>A thread that was told to stop returns by its own steps.\<close>

lemma told_returns:
  assumes "t < length (tasks s)" "told (tasks s ! t)"
  shows "\<exists>s'. life_step\<^sup>*\<^sup>* s s' \<and> life_calls s' = life_calls s \<and> t < length (tasks s') \<and>
    standing (tasks s' ! t) = Exited"
proof -
  have test: "\<exists>s'. life_step\<^sup>*\<^sup>* u s' \<and> life_calls s' = life_calls u \<and> t < length (tasks s') \<and>
      standing (tasks s' ! t) = Exited"
    if "t < length (tasks u)" "tasks u ! t = \<lparr>told = True, standing = At_test\<rparr>" for u
    using run_then[OF thread_runs.returns[OF that]] that(1)
    by (intro exI[of _ "u\<lparr>tasks := (tasks u)[t := \<lparr>told = True, standing = Exited\<rparr>]\<rparr>"]) auto
  obtain p where p: "tasks s ! t = \<lparr>told = True, standing = p\<rparr>" using assms(2) by (cases "tasks s ! t") auto
  show ?thesis
  proof (cases p)
    case At_test
    with p assms(1) show ?thesis by (simp add: test)
  next
    case Asleep
    define u where "u = s\<lparr>tasks := (tasks s)[t := \<lparr>told = True, standing = At_test\<rparr>]\<rparr>"
    have "life_step s u" using run_then[OF thread_runs.wakes[of t s True]] p Asleep assms(1) by (simp add: u_def)
    moreover obtain s' where "life_step\<^sup>*\<^sup>* u s'" "life_calls s' = life_calls u" "t < length (tasks s')"
      "standing (tasks s' ! t) = Exited"
      using test[of u] assms(1) by (auto simp: u_def)
    ultimately show ?thesis by (auto simp: u_def intro: converse_rtranclp_into_rtranclp)
  next
    case Exited
    with p assms(1) show ?thesis by auto
  qed
qed

lemma join_ends:
  assumes "life_inv s" "calling s i (Joining t)"
  shows "\<exists>s'. life_step\<^sup>*\<^sup>* s s' \<and> life_calls s' = (life_calls s)[i := Stopped t]"
proof -
  have "Joining t \<in> set (life_calls s)" using assms(2) nth_mem by fastforce
  from life_invD(6)[OF assms(1) this] have "t < length (tasks s)" "told (tasks s ! t)" by simp_all
  from told_returns[OF this] obtain u where u: "life_step\<^sup>*\<^sup>* s u" "life_calls u = life_calls s"
    "t < length (tasks u)" "standing (tasks u ! t) = Exited" by blast
  have "life_step u (then_at i (Stopped t) u)"
    using call_then[OF call_step.joins[of i u t]] u(2-4) assms(2) by simp
  with u(1,2) show ?thesis by (intro exI[of _ "then_at i (Stopped t) u"]) (simp add: rtranclp.rtrancl_into_rtrancl)
qed

lemma not_stopping:
  "\<not> under_stop (life_calls s ! i) \<Longrightarrow>
   \<exists>s' c. life_step\<^sup>*\<^sup>* s s' \<and> life_calls s' = (life_calls s)[i := c] \<and> \<not> under_stop c"
  by (intro exI[of _ s] exI[of _ "life_calls s ! i"]) simp

lemma stop_ends:
  assumes "life_inv s" "i < length (life_calls s)"
  shows "\<exists>s' c. life_step\<^sup>*\<^sup>* s s' \<and> life_calls s' = (life_calls s)[i := c] \<and> \<not> under_stop c"
proof (cases "life_calls s ! i")
  case (Taken t)
  with assms(2) have at: "calling s i (Taken t)" by simp
  then have "\<not> gone s t" using owned[OF assms(1) taken_owned] by blast
  with call_then[OF call_step.tells[OF at]] obtain u where
    u: "life_step s u" "life_calls u = (life_calls s)[i := Joining t]" by auto
  have "life_inv u" by (rule life.step_inv[OF assms(1) u(1)])
  from join_ends[OF this, of i t] u assms(2) obtain s' where
    "life_step\<^sup>*\<^sup>* u s'" "life_calls s' = (life_calls s)[i := Stopped t]" by auto
  with u(1) show ?thesis by (intro exI[of _ s'] exI[of _ "Stopped t"]) (simp add: converse_rtranclp_into_rtranclp)
next
  case (Joining t)
  with join_ends[OF assms(1), of i t] assms(2) obtain s' where
    "life_step\<^sup>*\<^sup>* s s'" "life_calls s' = (life_calls s)[i := Stopped t]" by auto
  then show ?thesis by (intro exI[of _ s'] exI[of _ "Stopped t"]) simp
qed (rule not_stopping, simp)+

lemma stops_end:
  assumes "life_inv s"
  shows "\<exists>s'. life_step\<^sup>*\<^sup>* s s' \<and> filter under_stop (life_calls s') = []"
proof -
  have "\<exists>s'. life_step\<^sup>*\<^sup>* s s' \<and> length (life_calls s') = length (life_calls s) \<and>
      filter under_stop (take k (life_calls s')) = []" if "k \<le> length (life_calls s)" for k
    using that
  proof (induction k)
    case 0
    show ?case by (intro exI[of _ s]) simp
  next
    case (Suc k)
    then obtain u where u: "life_step\<^sup>*\<^sup>* s u" "length (life_calls u) = length (life_calls s)"
      "filter under_stop (take k (life_calls u)) = []" by auto
    have k: "k < length (life_calls u)" using Suc.prems u(2) by simp
    obtain v c where v: "life_step\<^sup>*\<^sup>* u v" "life_calls v = (life_calls u)[k := c]" "\<not> under_stop c"
      using stop_ends[OF life.steps_inv[OF u(1) assms] k] by blast
    have "take (Suc k) (life_calls v) = take k (life_calls u) @ [c]"
      using k by (simp add: v(2) take_Suc_conv_app_nth)
    with u v show ?case by (intro exI[of _ v]) auto
  qed
  from this[OF le_refl] show ?thesis by auto
qed

section \<open>Who runs\<close>

definition running :: "life \<Rightarrow> nat set" where
  "running s = {t. t < length (tasks s) \<and> standing (tasks s ! t) \<noteq> Exited}"

definition slot :: "life \<Rightarrow> nat set" where
  "slot s = (case producer_task (demo s) of None \<Rightarrow> {} | Some p \<Rightarrow> {nat p})"

lemma in_slot: "life_inv s \<Longrightarrow> t \<in> slot s \<longleftrightarrow> producer_task (demo s) = Some (int t)"
  using life_invD(2)[of s] by (auto simp: slot_def split: option.splits)

lemma running_slot:
  assumes "life_inv s" "filter under_stop (life_calls s) = []"
  shows "running s = slot s"
proof (rule set_eqI)
  fix t
  have no: "Taken t \<notin> set (life_calls s)" "Joining t \<notin> set (life_calls s)"
    using assms(2) by (auto simp: filter_empty_conv)
  have "sum_list (map (holds t) (life_calls s)) = 0"
    using no(1) by (auto simp: sum_list_eq_0_iff holds_def)
  with life_invD(3)[OF assms(1), of t] have
    "producer_task (demo s) = Some (int t) \<longleftrightarrow> t < length (tasks s) \<and> \<not> told (tasks s ! t)"
    by (auto simp: owners_def split: if_splits)
  then show "t \<in> running s \<longleftrightarrow> t \<in> slot s"
    using life_invD(4,5)[OF assms(1), of t] no(2) by (auto simp: running_def in_slot[OF assms(1)])
qed

fun asked :: "life_call \<Rightarrow> bool" where
  "asked Start_asked = True"
| "asked Stop_asked = True"
| "asked Show_asked = True"
| "asked _ = False"

lemma start_life_inv:
  assumes "list_all asked cs"
  shows "life_inv (life_start cs)"
proof -
  have "holds t c = 0 \<and> call_ok ts c" if "asked c" for t c ts
    using that by (cases c) (simp_all add: holds_def)
  then have c: "holds t c = 0 \<and> call_ok ts c" if "c \<in> set cs" for t c ts
    using that assms by (simp add: list_all_iff)
  then have "sum_list (map (holds t) cs) = 0" for t by (simp add: sum_list_eq_0_iff)
  with c show ?thesis by (auto simp: life_inv_def life_start_def owners_def list_all_iff)
qed

lemma stop_then_start:
  "\<exists>y. life_step\<^sup>*\<^sup>* (life_start [Stop_asked, Start_asked]) y \<and> running y = {0, 1} \<and>
     life_calls y = [Taken 0, Answered None]"
proof -
  let ?u = "(life_start [Taken 0, Start_asked])\<lparr>demo := kt_static\<rparr>"
  let ?y = "\<lparr>demo = kt_static\<lparr>producer_task := Some 1\<rparr>, tasks = [new_thread, new_thread],
      life_calls = [Taken 0, Answered None], fault = False\<rparr>"
  have k: "kt_static\<lparr>producer_task := None\<rparr> = kt_static" by (simp add: kt_static_def)
  have "life_step (life_start [Stop_asked, Start_asked]) ?u"
    using call_then[OF call_step.takes[of 0 "life_start [Stop_asked, Start_asked]" kt_static]]
    by (simp add: life_start_def stop_producer_def Let_def k)
  moreover have "life_step ?u ?y"
    using call_then[OF call_step.starts[of 1 ?u "Inr 1" EINVAL "kt_static\<lparr>producer_task := Some 1\<rparr>" _ None]]
    by (simp add: life_start_def start_producer_def kt_static_def)
  moreover have "running ?y = {0, 1}" by (auto simp: running_def less_Suc_eq)
  ultimately show ?thesis
    by (intro exI[of _ ?y]) (auto intro: converse_rtranclp_into_rtranclp)
qed

text \<open>C11: no producer is lost or stopped twice. Whatever start, stop and status requests come after
  a load and wherever their sections fall, no task that has exited is looked at or stopped, every
  stop that has returned 0 has its thread gone, and from every state the stops under way can
  all return, by the steps of their own threads. With none under way the threads that run are
  exactly the one in the slot, if any. While a stop is under way a start can make a second
  producer that runs beside the first.\<close>

theorem producers_accounted:
  assumes "life_step\<^sup>*\<^sup>* (life_start cs) z" and "list_all asked cs"
  shows "\<not> fault z \<and>
    list_all (\<lambda>c. case c of Stopped t \<Rightarrow> t \<notin> running z | _ \<Rightarrow> True) (life_calls z) \<and>
    (if filter under_stop (life_calls z) = [] then running z = slot z else True) \<and>
    (\<exists>z'. life_step\<^sup>*\<^sup>* z z' \<and> filter under_stop (life_calls z') = [] \<and> running z' = slot z') \<and>
    (\<exists>y. life_step\<^sup>*\<^sup>* (life_start [Stop_asked, Start_asked]) y \<and> running y = {0, 1} \<and>
       life_calls y = [Taken 0, Answered None])"
proof -
  have inv: "life_inv z" by (rule life.steps_inv[OF assms(1) start_life_inv[OF assms(2)]])
  have "list_all (\<lambda>c. case c of Stopped t \<Rightarrow> t \<notin> running z | _ \<Rightarrow> True) (life_calls z)"
    using life_invD(6)[OF inv] by (fastforce simp: list_all_iff running_def split: life_call.splits)
  moreover obtain z' where z': "life_step\<^sup>*\<^sup>* z z'" "filter under_stop (life_calls z') = []"
    using stops_end[OF inv] by blast
  ultimately show ?thesis
    using life_invD(1)[OF inv] running_slot[OF inv] running_slot[OF life.steps_inv[OF z'(1) inv] z'(2)]
      stop_then_start by auto
qed

theorem producers_accounted_witness: "running (life_start [Stop_asked]) = {0}"
proof -
  have "list_all asked [Stop_asked]" "filter under_stop (life_calls (life_start [Stop_asked])) = []"
    by (simp_all add: life_start_def)
  with producers_accounted[OF rtranclp.rtrancl_refl this(1)]
  show ?thesis by (simp add: slot_def life_start_def)
qed

end
