(* ===== verification/KernelLog.thy ===== *)
theory KernelLog
  imports OpenRelease ModuleParams DebugfsSysfs TokenBucket Kthreads ReadWriteCdev IoctlBasics
    KernelMemory WaitQueues ConcurrencyLocking TimersWorkqueues ProcfsSeqfile LogLevels "HOL-Library.Sublist"
begin

text \<open>
  What the modules write to the kernel log, except for the handlers whose definitions already return
  their lines (\<open>GpioCtrl\<close>, \<open>RegisterCdev\<close>, and parts of \<open>ModuleParams\<close>, \<open>OpenRelease\<close>,
  \<open>ReadWriteCdev\<close> and \<open>DebugfsSysfs\<close>). A message is its priority and its text, with the
  module name that \<^verbatim>\<open>pr_fmt\<close> puts in front and without the final newline. The function
  for a handler takes what the handler takes and the state it starts from, and asks the handler
  for its result where the code prints only on success. The messages of an exit function
  print counters that the handlers kept; the locale \<open>counted\<close> is the contract of such a counter.
\<close>

section \<open>Messages\<close>

definition pr_info :: "string \<Rightarrow> string \<Rightarrow> log_message" where
  "pr_info modname txt = (KERN_INFO, modname @ '': '' @ txt)"


text \<open>\<open>current->comm\<close> and \<open>current->pid\<close> of the task that makes a call, as \<open>%s[%d]\<close>.\<close>

definition in_task :: "task \<Rightarrow> string" where
  "in_task t = task.cur_comm t @ ''['' @ fmt_d (task.cur_pid t) @ '']''"

text \<open>A message that is printed at the end of an init function, when nothing failed.\<close>

definition when_ready :: "errno option \<Rightarrow> log_message \<Rightarrow> log_message list" where
  "when_ready r msg = (case r of Some e \<Rightarrow> [] | None \<Rightarrow> [msg])"

definition quoted :: "string \<Rightarrow> string" where
  "quoted txt = CHR 0x27 # txt @ [CHR 0x27]"

section \<open>04 module parameters and 08 open and release\<close>

definition module_params_exit_log :: "log_message list" where
  "module_params_exit_log = [pr_info ''module_params'' ''unloaded'']"

definition open_release_init_log :: "s32 \<Rightarrow> log_message list" where
  \<comment> \<open>\<open>reg\<close> is what the registration returns, the major number\<close>
  "open_release_init_log reg =
     (if sint reg < 0
      then [(KERN_ERR, ''open_release_cdev: register_chrdev failed: '' @ fmt_d (sint reg))]
      else map (pr_info ''open_release_cdev'')
        [''INIT ---------------------------------------------'',
         ''registered '' @ quoted ''open_release_cdev'' @ '' major='' @ fmt_d (sint reg) @ '' minors=0-255'',
         ''watch open/release callbacks, struct file state and lifetime''])"

definition open_release_exit_log :: "orc \<Rightarrow> log_message list" where
  "open_release_exit_log s =
     map (pr_info ''open_release_cdev'')
       [''EXIT ---------------------------------------------'',
        ''active_opens='' @ fmt_d (sint (active_opens s)) @ '' total_open_calls='' @ fmt_d (sint (next_open_id s)),
        ''unregistered '' @ quoted ''open_release_cdev'' @ '' major='' @ fmt_d (sint (orc.major s))]"

section \<open>06 procfs\<close>

definition procfs_init_log :: "u64 \<Rightarrow> pf_env \<Rightarrow> pf_state \<Rightarrow> log_message list" where
  "procfs_init_log t e s =
     when_ready (snd (snd (procfs_seqfile_init t e s)))
       (pr_info ''procfs_seqfile'' ''ready: /proc/procfs_demo/info /proc/procfs_demo/events'')"

definition events_write_log ::
    "kstr \<Rightarrow> (string \<Rightarrow> string \<times> nat) \<Rightarrow> task \<Rightarrow> string \<Rightarrow> pf_state \<Rightarrow> log_message list" where
  "events_write_log K cfu t buf s =
     (case snd (snd (events_write K cfu buf s)) of
        Inl e \<Rightarrow> []
      | Inr n \<Rightarrow> [pr_info ''procfs_seqfile'' (''event log cleared by '' @ in_task t)])"


section \<open>09 read and write\<close>

definition rw_read_log ::
    "(u8 list \<Rightarrow> nat) \<Rightarrow> task \<Rightarrow> nat \<Rightarrow> int \<Rightarrow> rw_state \<Rightarrow> log_message list" where
  \<comment> \<open>silent at the end of the data and when the copy fails\<close>
  "rw_read_log ctu t n ppos s =
     (if ppos < 0 \<or> nat ppos \<ge> data_len s then []
      else (case rw_read ctu n ppos s of
              (ppos', cs, Inl e) \<Rightarrow> []
            | (ppos', cs, Inr out) \<Rightarrow>
                [pr_info ''read_write_cdev'' (''read: bytes='' @ dec (min n (data_len s - nat ppos))
                   @ '' offset='' @ fmt_d ppos' @ '' data_len='' @ dec (data_len s)
                   @ '' ctx='' @ in_task t)]))"

definition rw_write_log ::
    "(u8 list \<Rightarrow> u8 list \<times> nat) \<Rightarrow> task \<Rightarrow> u8 list \<Rightarrow> int \<Rightarrow> rw_state \<Rightarrow> log_message list" where
  "rw_write_log cfu t buf ppos s =
     (case rw_write cfu buf ppos s of
        (s', ppos', cs, Inl e) \<Rightarrow> []
      | (s', ppos', cs, Inr n) \<Rightarrow>
          [pr_info ''read_write_cdev'' (''write: bytes='' @ dec n @ '' offset='' @ fmt_d ppos'
             @ '' data_len='' @ dec (data_len s') @ '' ctx='' @ in_task t)])"

definition rw_init_log :: "rw_env \<Rightarrow> nat \<Rightarrow> nat \<Rightarrow> log_message list" where
  \<comment> \<open>the numbers are those of \<open>devt\<close>\<close>
  "rw_init_log e mj mn =
     when_ready (snd (snd (read_write_cdev_init e)))
       (pr_info ''read_write_cdev'' (''ready: /dev/read_write_cdev0 major='' @ dec mj
          @ '' minor='' @ dec mn @ '' capacity='' @ dec BUF_SIZE @ '' bytes''))"


section \<open>10 ioctl\<close>


definition ioctl_init_log :: "ioc_env \<Rightarrow> nat \<Rightarrow> nat \<Rightarrow> log_message list" where
  "ioctl_init_log e mj mn =
     when_ready (snd (ioctl_basics_init e))
       (pr_info ''ioctl_basics'' (''ready: /dev/ioctl_basics0 major='' @ dec mj
          @ '' minor='' @ dec mn))"


section \<open>11 concurrency\<close>

definition race_mode_store_log :: "kstr \<Rightarrow> task \<Rightarrow> string \<Rightarrow> race \<Rightarrow> log_message list" where
  \<comment> \<open>\<open>value\<close> is what the handler has just stored\<close>
  "race_mode_store_log K t buf s =
     (case mode_store K buf s of
        (s', Inl e) \<Rightarrow> []
      | (s', Inr n) \<Rightarrow>
          [pr_info ''concurrency_locking'' (''mode='' @ fmt_d (sint (race.mode s'))
             @ '' set by '' @ in_task t)])"

definition reset_store_log :: "task \<Rightarrow> log_message list" where
  "reset_store_log t = [pr_info ''concurrency_locking'' (''reset by '' @ in_task t)]"

definition race_init_log :: "race_env \<Rightarrow> race \<Rightarrow> log_message list" where
  "race_init_log e s =
     when_ready (snd (concurrency_locking_init e))
       (pr_info ''concurrency_locking'' (''ready: /dev/race_demo mode='' @ fmt_d (sint (race.mode s))
          @ '' (0=none 1=spinlock 2=mutex 3=atomic)''))"

definition race_exit_log :: "race \<Rightarrow> log_message list" where
  "race_exit_log s =
     [pr_info ''concurrency_locking'' (''unloaded: final counter='' @ fmt_u (current_counter_value s)
        @ '' resets='' @ fmt_u (reset_count s))]"

section \<open>12 wait queues\<close>


definition bq_init_log :: "u64 \<Rightarrow> (u32 \<Rightarrow> u64) \<Rightarrow> u32 \<Rightarrow> bq_env \<Rightarrow> log_message list" where
  "bq_init_log j J interval_ms e =
     when_ready (snd (wait_queues_blocking_init j J interval_ms e))
       (pr_info ''wait_queues_blocking''
          (''ready: /dev/blocking_demo interval_ms='' @ fmt_u interval_ms))"


section \<open>13 kernel memory\<close>

text \<open>
  The line of a successful allocation is printed after the mutex is dropped: the size and
  the type are those of the request, the rest is what the slot holds by then.
\<close>

definition allocated_line :: "alloc_type \<Rightarrow> u64 \<Rightarrow> task \<Rightarrow> km_state \<Rightarrow> log_message" where
  "allocated_line type sz t s =
     pr_info ''kernel_memory'' (type_name type @ '': requested='' @ fmt_u sz
       @ '' actual='' @ fmt_u (cur_actual_size s) @ '' time='' @ fmt_u (cur_alloc_ns s)
       @ '' ns by '' @ in_task t)"







section \<open>14 timers and workqueues\<close>

definition tw_init_log :: "u64 \<Rightarrow> (u32 \<Rightarrow> u64) \<Rightarrow> u32 \<Rightarrow> u32 \<Rightarrow> tw_env \<Rightarrow> log_message list" where
  "tw_init_log j J timer_ms work_ms e =
     when_ready (snd (timers_workqueues_init j J timer_ms work_ms e))
       (pr_info ''timers_workqueues'' (''ready: /sys/kernel/timers_workqueues/stats timer=''
          @ fmt_u timer_ms @ ''ms work='' @ fmt_u work_ms @ ''ms''))"


section \<open>15 kthreads\<close>

definition producer_thread_log :: "(bool \<times> u64) list \<Rightarrow> task \<Rightarrow> kthreads \<Rightarrow> log_message list" where
  "producer_thread_log es t s =
     ([pr_info ''kthreads'' (''producer thread started: pid='' @ fmt_d (task.cur_pid t)
          @ '' comm='' @ task.cur_comm t)] @
       (case producer_thread_fn es s of
          (s', cs, stopped) \<Rightarrow>
            if stopped
            then [pr_info ''kthreads'' (''producer thread stopping: pid='' @ fmt_d (task.cur_pid t)
                   @ '' produced='' @ fmt_u (next_seq s') @ '' dropped='' @ fmt_u (dropped_count s'))]
            else []))"

definition control_store_log ::
    "kstr \<Rightarrow> errno + int \<Rightarrow> string \<Rightarrow> task \<Rightarrow> kthreads \<Rightarrow> log_message list" where
  "control_store_log K run buf t s =
     (if length buf = 0 \<or> length buf \<ge> 16 then []
      else
        (let cmd = strim K (cstr buf);
             ret = (case snd (snd (control_store K run buf s)) of Inl e \<Rightarrow> errno_int e | Inr n \<Rightarrow> 0)
         in if sysfs_streq K cmd ''start'' \<or> sysfs_streq K cmd ''stop''
            then [pr_info ''kthreads'' (''control='' @ cmd @ '' by '' @ in_task t @ '' ret='' @ fmt_d ret)]
            else []))"

definition kthreads_init_log :: "u32 \<Rightarrow> kt_env \<Rightarrow> kthreads \<Rightarrow> log_message list" where
  "kthreads_init_log interval_ms e s =
     when_ready (snd (snd (kthreads_init e s)))
       (pr_info ''kthreads'' (''ready: /dev/kthread_demo /sys/kernel/kthreads_demo/ interval_ms=''
          @ fmt_u interval_ms))"


section \<open>16 debugfs and sysfs\<close>

definition debugfs_sysfs_init_log :: "ds_env \<Rightarrow> log_message list" where
  "debugfs_sysfs_init_log e =
     when_ready (snd (debugfs_sysfs_init e))
       (pr_info ''debugfs_sysfs''
          ''ready: /sys/kernel/debugfs_sysfs_demo/ and /sys/kernel/debug/debugfs_sysfs_demo/'')"


section \<open>17 token bucket\<close>

definition token_bucket_init_log ::
    "u64 \<Rightarrow> u64 \<Rightarrow> errno option \<Rightarrow> token_bucket \<Rightarrow> log_message list" where
  \<comment> \<open>this module has no \<open>pr_fmt\<close>\<close>
  "token_bucket_init_log j HZ reg s =
     (case token_bucket_init j HZ reg s of
        (s', cs, r) \<Rightarrow>
          when_ready r (KERN_INFO, ''token_bucket: '' @ quoted (label s') @ '' up - capacity=''
            @ fmt_d (sint (capacity s')) @ '' refill_rate='' @ fmt_d (sint (refill_rate s'))
            @ '' mode='' @ mode_str s'))"


section \<open>Counters and the messages of a run\<close>


fun run_log :: "('s \<Rightarrow> 'p \<Rightarrow> 's) \<Rightarrow> ('s \<Rightarrow> 'p \<Rightarrow> log_message list) \<Rightarrow> 's \<Rightarrow> 'p list \<Rightarrow> log_message list" where
  "run_log step msgs s [] = []"
| "run_log step msgs s (p # ps) = msgs s p @ run_log step msgs (step s p) ps"

definition messages :: "(log_message \<Rightarrow> bool) \<Rightarrow> log_message list \<Rightarrow> nat" where
  "messages kind ms = length (filter kind ms)"

lemma messages_simps [simp]:
  "messages kind [] = 0"
  "messages kind (m # ms) = (if kind m then 1 else 0) + messages kind ms"
  "messages kind (ms @ ls) = messages kind ms + messages kind ls"
  by (simp_all add: messages_def)

lemma run_log_snoc [simp]:
  "run_log step msgs s (ps @ [p]) = run_log step msgs s ps @ msgs (foldl step s ps) p"
  by (induction ps arbitrary: s) simp_all




section \<open>The counters of the modules\<close>





























































section \<open>The last lines are true\<close>



section \<open>Lines that are not\<close>

text \<open>
  Two places read or count without the lock. The resets of the concurrency module load and store
  \<open>reset_count\<close> after the spinlock is dropped: two tasks that each log a reset can leave a count of one.
  And the line of an allocation is printed after the mutex is dropped: when another task frees the
  slot and allocates in between, the line has the type and request of one with the size of the other.
\<close>

lemma two_resets:
  "schedule [0, 0, 0, 0, 0, 1, 1, 1, 1, 1, 1, 0] (race_static\<lparr>threads := [Reset_want, Reset_want]\<rparr>) =
     Some (race_static\<lparr>reset_count := 1, threads := [Reset_done, Reset_done]\<rparr>)"
  by (simp add: thread_step_def race_static_def goes_def fun_upd_idem fun_eq_iff)

theorem log_lines_mislead:
  "(\<exists>s. race_step\<^sup>*\<^sup>* race_static s \<and> threads s = [Reset_done, Reset_done] \<and>
     race_exit_log s =
       [pr_info ''concurrency_locking'' (''unloaded: final counter='' @ fmt_u (0 :: u64)
          @ '' resets='' @ fmt_u (1 :: u64))]) \<and>
   (let (s1, c1, r1) = do_allocate ref_call ALLOC_KMALLOC 100 km_static;
        (s2, c2, r2) = do_free ref_call s1;
        (s3, c3, r3) = do_allocate ref_call ALLOC_VMALLOC 5000 s2
    in r1 = None \<and> cur_actual_size s1 = 128 \<and> r2 = None \<and> r3 = None \<and>
       allocated_line ALLOC_KMALLOC 100 t s3 =
         pr_info ''kernel_memory'' (''kmalloc: requested='' @ fmt_u (100 :: u64) @ '' actual=''
           @ fmt_u (5000 :: u64) @ '' time='' @ fmt_u (7 :: u64) @ '' ns by '' @ in_task t))"
proof
  let ?one = "race_static\<lparr>threads := [Reset_want]\<rparr>"
  have "race_step race_static ?one" "race_step ?one (race_static\<lparr>threads := [Reset_want, Reset_want]\<rparr>)"
    using new_reset[of race_static] new_reset[of ?one] by (simp_all add: race_static_def)
  with schedule_sound[OF two_resets] have "race_step\<^sup>*\<^sup>* race_static
      (race_static\<lparr>reset_count := 1, threads := [Reset_done, Reset_done]\<rparr>)"
    by (meson converse_rtranclp_into_rtranclp)
  then show "\<exists>s. race_step\<^sup>*\<^sup>* race_static s \<and> threads s = [Reset_done, Reset_done] \<and>
     race_exit_log s =
       [pr_info ''concurrency_locking'' (''unloaded: final counter='' @ fmt_u (0 :: u64)
          @ '' resets='' @ fmt_u (1 :: u64))]"
    by (intro exI conjI) (assumption, simp_all add: race_exit_log_def current_counter_value_def race_static_def)
  show "let (s1, c1, r1) = do_allocate ref_call ALLOC_KMALLOC 100 km_static;
        (s2, c2, r2) = do_free ref_call s1;
        (s3, c3, r3) = do_allocate ref_call ALLOC_VMALLOC 5000 s2
    in r1 = None \<and> cur_actual_size s1 = 128 \<and> r2 = None \<and> r3 = None \<and>
       allocated_line ALLOC_KMALLOC 100 t s3 =
         pr_info ''kernel_memory'' (''kmalloc: requested='' @ fmt_u (100 :: u64) @ '' actual=''
           @ fmt_u (5000 :: u64) @ '' time='' @ fmt_u (7 :: u64) @ '' ns by '' @ in_task t)"
    by (simp add: do_allocate_def do_free_def ref_call_def km_static_def allocated_line_def)
qed

end
