(* ===== verification/Spec2Isabelle.thy ===== *)
theory Spec2Isabelle
  imports TokenBucket Kthreads ReadWriteCdev IoctlBasics GpioCtrl KernelMemory WaitQueues
    ConcurrencyLocking TimersWorkqueues ModuleParams RegisterCdev ProcfsSeqfile OpenRelease
    DebugfsSysfs LogLevels StressTest KthreadReaders GpioPolling GpioSampling WaitSleep
    Interfaces FileReadback KthreadLife KernelLog
begin

text \<open>
  A verification development for a collection of seventeen small Linux kernel modules,
  each in its own directory under \<^verbatim>\<open>src/\<close>: character devices, sysfs and module
  parameters, a GPIO poller, locking, blocking reads, allocators, kernel threads and a rate
  limiter, with the user-space test programs of three of them.

  \<^bold>\<open>How the program is modelled.\<close> Each module is a theory. Its static variables (or the
  structure it allocates) are a record with the fields of the code; each handler, callback
  and parameter operation is a definition with the branches of the code that returns the new
  state, the trace of the kernel calls it makes and its result (an error number or a value).
  Integers have their C width (\<open>u32\<close>, \<open>s32\<close>, \<open>u64\<close> are words; a signed one is read by
  \<open>sint\<close>); lengths bounded by a buffer are \<open>nat\<close>; an \<open>int\<close> of the code that is only stored
  and printed is \<open>int\<close>. A C string is the bytes before its NUL. Text that the code prints for
  user space is modelled to the byte, including the cut-off at the buffer; lines for the kernel
  log are lists of strings or of messages with a priority, without the final newline.

  \<^bold>\<open>The kernel\<close> is not under \<^verbatim>\<open>src/\<close>. What a call to it returns is an argument of
  the definition that makes the call: the outcomes of registrations and allocations are a
  record of the init function, clock readings, the current task and the values of GPIO lines
  are a record of the handler, and the text-parsing helpers and the copies across the user
  boundary are the functions of \<open>KernelAPI\<close>, with their documented behaviour as named
  predicates (\<open>kstr_documented\<close>, \<open>cfu_documented\<close>, \<open>srfb_documented\<close>) and an instance of
  each that shows the predicates can hold. State-changing calls are recorded in the trace;
  \<open>kruns\<close> of the prelude runs a trace and fails on a lock taken twice, an object released
  that is not held, or an acquisition of what is held already.

  \<^bold>\<open>Theories.\<close>
  \<^item> \<open>KPrelude\<close>: words, error numbers, traces and their discipline, the C library, and the
    interfaces: \<open>invariant_machine\<close> (operations that keep an invariant keep it over runs),
    \<open>potential_machine\<close> (what a run earns is bounded by what it was granted) and
    \<open>module_session\<close> (load, serve, unload: a failed load and a completed session leave
    nothing held, locked or armed).
  \<^item> \<open>KernelAPI\<close>: the kernel's helpers as parameters.
  \<^item> \<open>Overwriting_Queue\<close>, \<open>Chunked_Read\<close>: the contract of a bounded queue that overwrites its
    oldest element, and of a read that serves a fixed text from the file offset, with what a
    client gets from them.
  \<^item> \<open>Step_Systems\<close>: the contract of a step relation whose runs are bounded and can always be
    completed; the lock-protected sections of two modules satisfy it.
  \<^item> \<open>GpioCtrl\<close> (\<^verbatim>\<open>03_gpio_sim/gpioctrl.c\<close>): sampling, the polling work item, eight
    sysfs files, the device's report and command parser, init with its unwinding labels, exit.
    Every operation is shown to be one of seven changes (\<open>gpio_change\<close>), and the invariants
    are proved over those: the LED follows the button, the interval stays in range, the
    statistics are consistent, the device and sysfs agree, the report is never cut.
  \<^item> \<open>GpioPolling\<close>: the same driver over time. The work function statement by statement, the timer of its
    work item, and the requests with the arming they do after they dropped the mutex. Polling goes on
    in every interleaving; the interval armed is the one stored unless two requests overlap.
  \<^item> \<open>GpioSampling\<close>: samples that overlap. The button is read before the mutex is taken, so a sample is two
    steps. Once the line stays, the recorded button and the LED settle on it; two samples that overlap
    can count one move of the line twice.
  \<^item> \<open>Interfaces\<close>: the tables the modules hand to the kernel (\<open>file_operations\<close>, attribute groups, parameter
    operations) as functions from an access to an operation of a module's machine. The machines
    of \<open>module_session\<close> have just the operations that files can ask for, besides
    those of timers, workers and threads.
  \<^item> \<open>FileReadback\<close>: writes and reads by path, sent through those tables to the handlers. What is written
    to a file is what the readers of the module's files see, for eight modules (\<open>files_read_back\<close>).
  \<^item> \<open>ModuleParams\<close> (\<^verbatim>\<open>04_module_params\<close>): the device text as a function of the parameters,
    proved equal to a reference text cut off at the buffer; what the init function logs of
    the array parameter, and of its uninitialised buffer when there is none.
  \<^item> \<open>Descriptors\<close>: \<open>open(2)\<close>, \<open>dup(2)\<close> and \<open>close(2)\<close> over the callbacks of a character device.
    The locale \<open>char_device\<close> has what a driver keeps across an open and a release, and
    gives it for every sequence of system calls. It is interpreted by two drivers.
  \<^item> \<open>RegisterCdev\<close> (\<^verbatim>\<open>05_register_cdev\<close>): the open count, and the message a reader gets.
  \<^item> \<open>Seq_Iterator\<close>, \<open>ProcfsSeqfile\<close> (\<^verbatim>\<open>06_procfs_seqfile\<close>): the contract of a \<open>seq_file\<close>
    iterator and what piecewise reads of a growing list deliver; the bounded event log.
  \<^item> \<open>OpenRelease\<close> (\<^verbatim>\<open>08_open_release_cdev\<close>): a context per open file. Contexts live in a store
    indexed by address, so a second release or one of a dangling pointer is an error; the
    test program is run on the descriptor table and its effect on the kernel log proved.
  \<^item> \<open>LogLevels\<close> (\<^verbatim>\<open>01_hello_init\<close>, \<^verbatim>\<open>02_better_hello\<close>, \<^verbatim>\<open>07_log_level\<close>): log messages and
    their priorities, an ordered type.
  \<^item> \<open>ReadWriteCdev\<close> (\<^verbatim>\<open>09_read_write_cdev\<close>): the buffer device refines a bounded file, as long as no copy
    into it failed half-way.
  \<^item> \<open>IoctlBasics\<close> (\<^verbatim>\<open>10_ioctl_basics\<close>): command numbers, the ioctl handler, its in-place
    loops proved equal to list functions, and the test program run against it.
  \<^item> \<open>ConcurrencyLocking\<close> (\<^verbatim>\<open>11_concurrency_locking\<close>): increments and resets as steps of
    threads, each step one load, store or lock operation, and the same as an executable
    schedule. The three safe modes lose no update and always finish; the runs that lose one
    are exhibited by executing a schedule.
  \<^item> \<open>UserLib\<close>, \<open>StressTest\<close> (\<^verbatim>\<open>11_concurrency_locking/stress_test.c\<close>): the C library of
    the test programs; the stress test with its arguments, files and threads, whose printed
    report and exit status are proved from the steps of \<open>ConcurrencyLocking\<close>. That the write of the reset
    fails is an input: the program does not look at it, and can then pass a run that lost an update.
  \<^item> \<open>WaitQueues\<close> (\<^verbatim>\<open>12_wait_queues_blocking\<close>): readers and producers as steps over three
    atomic variables; the invariant of the reachable states, progress of a reader whose flag is up.
  \<^item> \<open>WaitSleep\<close>: the same readers asleep in \<open>wait_event_interruptible\<close> until \<open>wake_up_interruptible\<close>
    or a signal. Each run is simulated by one of \<open>WaitQueues\<close>; no wake-up is lost.
  \<^item> \<open>KernelMemory\<close> (\<^verbatim>\<open>13_kernel_memory\<close>): the allocation slot; the trace names memory by
    allocator and address, so the discipline says that each piece is freed once by its own
    function.
  \<^item> \<open>TimersWorkqueues\<close> (\<^verbatim>\<open>14_timers_workqueues\<close>): two heartbeats under one spinlock, the file
    that shows them, and \<open>One_CPU\<close>, a processor on which a timer interrupts a task between
    any two of its kernel calls, unless a lock keeps it off. The traces say how a spinlock is taken
    (\<open>Lock\<close> for \<^verbatim>\<open>spin_lock\<close> and for a mutex, \<open>Lock_bh\<close>, \<open>Lock_irq\<close> for \<^verbatim>\<open>spin_lock_irqsave\<close>), and
    the processor reads it from them. The plain spinlock of the module can stop it; the locks of
    the token bucket cannot (\<open>bucket_never_stuck\<close> below).
  \<^item> \<open>DebugfsSysfs\<close> (\<^verbatim>\<open>16_debugfs_sysfs\<close>): two variables behind sysfs files that take a mutex
    and debugfs files that do not; the sections under the mutex step by step, what they
    guarantee among themselves and what a raw write breaks.
  \<^item> \<open>Kthreads\<close> (\<^verbatim>\<open>15_kthreads\<close>): the producer loop and its ring buffer, shown to be an
    overwriting queue of 16 items; the read that drains it; starting and stopping.
  \<^item> \<open>KthreadReaders\<close>: the same read statement by statement. Alone it refines the atomic handler
    of \<open>Kthreads\<close> whatever the producer does; overlapping reads share one snapshot, lose items
    and can overrun it.
  \<^item> \<open>KthreadLife\<close>: the producer threads from creation to exit as steps, the stop in its two halves;
    each thread has one owner until it is told to stop, so none is lost, used or stopped after it exits.
  \<^item> \<open>TokenBucket\<close> (\<^verbatim>\<open>17_advanced_module_params\<close>): the rate limiter; a run admits at most
    the tokens in store plus the refills.

  \<^item> \<open>KernelLog\<close>: the messages of the modules whose handlers do not return them with their result.
    The locale \<open>counted\<close> is the contract of a counter; from it follows that the totals each module
    logs at unload are those of its run, and of the lines it logged (\<open>unload_lines_true\<close>; two lines
    show less than totals, which the theorem says). Where a count or
    a line is made outside the lock, \<open>log_lines_mislead\<close> has the run in which it is wrong.

  The load, handlers and unload of most modules are an interpretation of \<open>module_session\<close>
  (\<open>modules_unload_clean\<close> below collects eleven of them); the two with file descriptors have the
  same of \<open>char_device\<close>. Its laws assume that handlers run one at a time against the exit
  function; where the order of the exit function (or of an init function that fails late)
  lets a handler in between, theorems exhibit what is left behind (\<open>exits_overtaken\<close> below);
  \<open>WaitQueues.bq_session_clean\<close> shows an exit that is safe. Handlers whose body is one critical
  section are one step; where handlers interleave inside (\<open>ConcurrencyLocking\<close>, \<open>WaitQueues\<close>, \<open>WaitSleep\<close>,
  \<open>DebugfsSysfs\<close>, \<open>GpioPolling\<close>, \<open>GpioSampling\<close>, \<open>KthreadReaders\<close>, \<open>KthreadLife\<close>) there are step relations.

  \<^bold>\<open>Bounds.\<close> \<open>cat\<close> takes a number of calls and is shown to need one more than the bytes
  there are. The token bucket's invariant assumes capacities below \<open>2 ^ 30\<close>, which the code
  does not enforce; \<open>TokenBucket.refill_overflow\<close> shows what happens without. Counters that
  only grow are compared modulo \<open>2 ^ 64\<close>, or bounded by the number of operations.

  \<^bold>\<open>Not modelled.\<close> The kernel's own code (scheduling, the lists behind a wait queue, timer
  expiry, module reference counts, the parser of load-time parameters); of sleeping and waking, of the work item
  and its timer, and of \<open>kthread_stop\<close> only the documented behaviour is there, as steps. Memory ordering
  weaker than interleaving.
\<close>

section \<open>Properties across components\<close>

lemma tb_calls_masked: "list_all masked_call (tb_calls K s p) \<and> lock_balanced (tb_calls K s p)"
  using tb_calls_cases[of K s p] by (elim disjE exE) (auto simp: lock_balanced_def)

lemma refill_tidy: "tidy (snd (refill_fn j HZ s))"
  by (simp add: refill_fn_def tidy_def lock_balanced_def)

text \<open>C29: the token bucket cannot stop a processor. Its refill timer takes \<open>bucket_lock\<close>, as the heartbeat
  timer takes its lock, but every parameter operation and every consume takes it by
  \<open>spin_lock_irqsave\<close>: from every state that one of them and the timer, firing any number of times
  between their calls, can reach on one processor, the run can be brought to its end, with no lock
  held and softirqs back on. Without that it could not: one \<open>spin_lock\<close> in the place of
  a consume's lock and a reachable state has no step left.\<close>

theorem bucket_never_stuck:
  fixes j HZ s'
  defines "timer \<equiv> snd (refill_fn j HZ s')"
  assumes "(cpu_step timer)\<^sup>*\<^sup>* (quiet, {}, tb_calls K s p, []) z"
  shows "(\<exists>w. (cpu_step timer)\<^sup>*\<^sup>* z (w, {}, [], []) \<and> locked w = {}) \<and>
    (\<exists>u. (cpu_step timer)\<^sup>*\<^sup>* (quiet, {}, Lock bucket_lock # tl (tb_calls K s (Consume n)), []) u \<and> stuck timer u)"
proof
  show "\<exists>w. (cpu_step timer)\<^sup>*\<^sup>* z (w, {}, [], []) \<and> locked w = {}"
    using masked_completes[OF _ _ refill_tidy, of "tb_calls K s p" j HZ s' z] tb_calls_masked[of K s p] assms(2)
    by (simp add: timer_def)
  show "\<exists>u. (cpu_step timer)\<^sup>*\<^sup>* (quiet, {}, Lock bucket_lock # tl (tb_calls K s (Consume n)), []) u \<and> stuck timer u"
    using plain_lock_sticks[of "Lock_irq bucket_lock" bucket_lock] by (simp add: timer_def refill_fn_def)
qed

theorem bucket_never_stuck_witness:
  "\<exists>w. (cpu_step (snd (refill_fn 0 250 tb_static)))\<^sup>*\<^sup>*
     (quiet, {}, tb_calls ref_kstr tb_static (Consume 3), []) (w, {}, [], []) \<and> locked w = {}"
  using bucket_never_stuck[OF rtranclp.rtrancl_refl, of 0 250 tb_static ref_kstr tb_static "Consume 3"]
  by blast

lemma gpio_line_off:
  "case gpioctrl_init P J e c line of
     (so, l, t, lg, Some x) \<Rightarrow> \<not> (l \<noteq> line \<and> l \<noteq> 0) \<and> (if gpio_env.e_kzalloc e then last lg = failed_log x else lg = [])
   | (so, l, t, lg, None) \<Rightarrow> fst (gpioctrl_exit m c' v g) = 0"
  using init_cases[of P J e c line] by (auto simp: exit_parts(2) split: prod.splits option.splits)

text \<open>C18: every module unloads clean. Whatever the outcomes of the calls of its init function and
  whatever its handlers are asked for in between, each of these eleven modules takes and drops
  its locks in pairs, releases what it acquired exactly once (an allocation by the function of its
  allocator), and leaves nothing held, locked or armed after its exit function, nor after a load
  that fails. The GPIO driver leaves its LED as it was or off, and says in its last log line with
  which error a load failed.\<close>

theorem modules_unload_clean:
  "clean_session (\<lambda>(e, s). kthreads_init e (s\<lparr>producer_task := None\<rparr>)) (kt_serve K srfb) kthreads_exit kt_e kt_ps \<and>
   clean_session read_write_cdev_init (\<lambda>s p. (rw_step s p, rw_calls s p)) (\<lambda>s. read_write_cdev_exit) rw_e rw_ps \<and>
   clean_session (\<lambda>e. (\<lparr>reads = 0, echoes = 0, resets = 0, mode = MODE_IDENTITY\<rparr>, ioctl_basics_init e))
     (\<lambda>s p. (ioc_step M s p, ioc_calls M s p)) (\<lambda>s. ioctl_basics_exit) ioc_e ioc_ps \<and>
   clean_session (\<lambda>(j, ms, e). let (t, r) = wait_queues_blocking_init j J ms e in (bq_static, t, r))
     (bq_serve J) (\<lambda>s. snd (wait_queues_blocking_exit s)) bq_e bq_ps \<and>
   clean_session (\<lambda>(j, tms, wms, e). let (t, r) = timers_workqueues_init j J tms wms e in (tw_static, t, r))
     (tw_serve J) (\<lambda>s. timers_workqueues_exit) tw_e tw_ps \<and>
   clean_session (\<lambda>(j, HZ, reg, s). token_bucket_init j HZ reg s)
     (\<lambda>s p. (tb_step K s p, tb_calls K s p)) (\<lambda>s. token_bucket_exit) tb_e tb_ps \<and>
   clean_session (\<lambda>(now, e, s). procfs_seqfile_init now e s) (pf_serve K) (\<lambda>s. procfs_seqfile_exit) pf_e pf_ps \<and>
   clean_session ds_load (ds_handle K srfb) (\<lambda>z. debugfs_sysfs_exit (fst z)) ds_e ds_ps \<and>
   clean_session (\<lambda>e. (km_static, kernel_memory_init e)) (km_serve K) (\<lambda>s. snd (kernel_memory_exit km_x s)) km_e km_ps \<and>
   clean_session (\<lambda>(e, c, line). let (so, l, t, lg, r) = gpioctrl_init P GJ e c line in (so, t, r))
     (gpio_serve_opt K GJ srfb P)
     (\<lambda>so. case so of None \<Rightarrow> [] | Some g \<Rightarrow> fst (snd (gpioctrl_exit mm c' v g))) (ge, c, line) gpio_ps \<and>
   (case gpioctrl_init P GJ ge c line of
      (so, l, t, lg, Some x) \<Rightarrow> \<not> (l \<noteq> line \<and> l \<noteq> 0) \<and> (if gpio_env.e_kzalloc ge then last lg = failed_log x else lg = [])
    | (so, l, t, lg, None) \<Rightarrow> fst (gpioctrl_exit mm c' v g) = 0) \<and>
   (case module_params_init stack reg mp of
      None \<Rightarrow> \<not> (0 < primes_count mp \<and> primes mp \<noteq> [] \<and> length stack = 32)
    | Some (t, ls, Some x) \<Rightarrow> kruns quiet t = Some quiet
    | Some (t, ls, None) \<Rightarrow> kruns quiet (t @ module_params_exit) = Some quiet)"
  by (intro conjI kt_session.session_clean rw_session.session_clean ioc_session.session_clean
      bq_session.session_clean tw_session.session_clean tb_session.session_clean
      pf_session.session_clean ds_session.session_clean km_session.session_clean
      gpio_session.session_clean gpio_line_off mp_session_clean)

text \<open>C21: three exit functions can be overtaken, and two init functions that fail late. Each exit
  function stops its activity before it removes the files through which the activity can be started
  again: a write of \<open>start\<close> leaves the producer thread running, an allocation leaks its memory, and a
  write of an interval leaves the work armed on freed state, when it comes in between. The device of
  the GPIO driver exists before its sysfs group: an interval written to it before creating the group
  fails leaves the work armed too. The control file of the kthread module exists before its init function
  starts the producer: a start written in between makes the load fail and leaves the thread.\<close>

theorem exits_overtaken:
  assumes "kstr_documented K"
    and "kt_live s w" "stop_producer s = (s1, c1, ret)"
      "control_store K (Inr tid) ''start'' s1 = (s2, c2, r)"
    and "km_live m v" "kernel_memory_exit_free e m = (m1, d1)" "do_allocate e' ty sz m1 = (m2, d2, None)"
    and "gpio_live (Some g) u" "10 \<le> n" "n \<le> 60000"
      "poll_ms_store K J c' (dec n @ [newline]) g = (g2, b2, lg, q)"
    and "0 \<le> button_in c" "cfu_documented cfu" "\<forall>b. snd (cfu b) = 0"
  shows "map_option held (kruns w (c1 @ c2 @ kthreads_exit_rest)) = Some {producer} \<and>
    map_option held (kruns v (d1 @ d2 @ kernel_memory_exit_rest)) = Some {Mem ty (cur_ptr m2)} \<and>
    map_option (\<lambda>u'. (gpio_work \<in> armed u', state_mem \<in> held u'))
      (kruns u (Cancel gpio_work # b2 @ fst (snd (gpioctrl_exit_rest mm c vl g2)))) = Some (True, False) \<and>
    (let cs = fst (snd (gpioctrl_write K cfu J c' (''poll_ms='' @ dec n @ [newline]) g));
         start = [Acquire state_mem, Acquire gdev_ref, Lock gpio_obj.state_lock, Unlock gpio_obj.state_lock,
                  Acquire gpioctrl_miscdev];
         unwind = [Release gpioctrl_miscdev, Release gdev_ref, Release state_mem]
     in fst (snd (snd (gpioctrl_init P J (ref_env\<lparr>gpio_env.e_group := Some x\<rparr>) c line))) = start @ unwind \<and>
        map_option (\<lambda>u'. (gpio_work \<in> armed u', state_mem \<in> held u')) (kruns quiet (start @ cs @ unwind)) =
          Some (True, False)) \<and>
    (let files = [Acquire kt_miscdev, Acquire kt_kobj, Acquire kt_group];
         (t0, k0, r0) = control_store K (Inr tid) ''start'' kt_static;
         (t1, k1, r1) = kthreads_init \<lparr>kt_env.e_misc = None, e_kobj = True, e_group = None, e_run = run\<rparr> t0
     in r1 = Some EEXIST \<and> take 3 k1 = files \<and>
        map_option held (kruns quiet (files @ k0 @ drop 3 k1)) = Some {producer})"
    (is "_ \<and> _ \<and> _ \<and> ?init \<and> ?init2")
proof (intro conjI)
  show "map_option held (kruns w (c1 @ c2 @ kthreads_exit_rest)) = Some {producer}"
    using exit_leaves_producer[OF assms(1-4)] by auto
  show "map_option held (kruns v (d1 @ d2 @ kernel_memory_exit_rest)) = Some {Mem ty (cur_ptr m2)}"
    using exit_leaks_allocation[OF assms(5-7)] by (auto split: option.splits)
  show "map_option (\<lambda>u'. (gpio_work \<in> armed u', state_mem \<in> held u'))
      (kruns u (Cancel gpio_work # b2 @ fst (snd (gpioctrl_exit_rest mm c vl g2)))) = Some (True, False)"
    using exit_work_outlives_state[OF assms(8,1,9,10), of J c' mm c vl] assms(11)
    by (auto simp: Let_def split: option.splits prod.splits)
  show ?init2 by (rule init_leaves_producer[OF assms(1)])
  show ?init
    using init_work_outlives_state[OF assms(1,9,10,12-14), of J c' g P x line]
    by (auto simp: Let_def split: option.splits)
qed

theorem exits_overtaken_witness:
  "map_option held (kruns \<lparr>locked = {}, held = {demo_cache, km_kobj, km_group}, armed = {}\<rparr>
     (fst (snd (do_allocate ref_call ALLOC_CACHE 0 km_static)) @ kernel_memory_exit_rest)) =
   Some {Mem ALLOC_CACHE 12288}"
proof -
  let ?s = "kt_static\<lparr>producer_task := Some 7\<rparr>"
  have k: "kt_live ?s \<lparr>locked = {}, held = {kt_miscdev, kt_kobj, kt_group, producer}, armed = {}\<rparr>"
    by (auto simp: kt_live_def)
  obtain s1 c1 ret where k1: "stop_producer ?s = (s1, c1, ret)" by (rule prod_cases3)
  obtain s2 c2 r where k2: "control_store ref_kstr (Inr 8) ''start'' s1 = (s2, c2, r)" by (rule prod_cases3)
  let ?w = "\<lparr>locked = {}, held = {demo_cache, km_kobj, km_group}, armed = {} :: km_obj set\<rparr>"
  have m: "km_live km_static ?w" by (simp add: km_live_def km_static_def slot_mem_def)
  have m1: "kernel_memory_exit_free ref_call km_static = (km_static, [])"
    by (simp add: kernel_memory_exit_free_def km_static_def)
  obtain m2 d2 where m2: "do_allocate ref_call ALLOC_CACHE 0 km_static = (m2, d2, None)" "cur_ptr m2 = 12288"
    by (simp add: do_allocate_def km_static_def ref_call_def Let_def)
  have g: "gpio_live (Some (ref_loaded 500 0)) ref_world" by (simp add: gpio_live_def ref_world_def)
  obtain g2 b2 lg q where p: "poll_ms_store ref_kstr unat (ref_ctx 0) (dec 100 @ [newline]) (ref_loaded 500 0) = (g2, b2, lg, q)"
    by (metis prod_cases4)
  have n: "(10 :: nat) \<le> 100" "(100 :: nat) \<le> 60000" by simp_all
  have c: "0 \<le> button_in (ref_ctx 0)" "\<forall>b. snd (ref_cfu b) = 0" by (simp_all add: ref_ctx_def ref_cfu_def)
  from exits_overtaken[OF ref_kstr_documented k k1 k2 m m1 m2(1) g n p c(1) ref_cfu_documented c(2)] show ?thesis
    by (simp add: m2)
qed

end
